(* ===== verification/Prelude.thy ===== *)
theory Prelude
  imports Main "HOL-Library.Word"
begin

text \<open>
  Shared vocabulary of the development: the machine types of the Rust sources, byte slices and
  in-place slice writes, the big-endian conversions \<open>to_be_bytes\<close> / \<open>from_be_bytes\<close> of the
  standard library, and generic lemmas on lists and words that the components use.
  \<open>usize\<close> values are lengths, indices and counts of in-memory collections; they are \<open>nat\<close>.
  Packet numbers, ids and wire fields keep their width as words, so \<open>+\<close> wraps as it does in a
  release build of the crate.
\<close>

unbundle bit_operations_syntax

type_synonym u8 = "8 word"
type_synonym u16 = "16 word"
type_synonym u32 = "32 word"
type_synonym u64 = "64 word"
type_synonym usize = nat
type_synonym Bytes = "u8 list"

named_theorems wire \<open>layout facts of the wire format\<close>
named_theorems wf_keep \<open>preservation of a component's well-formedness invariant\<close>

section \<open>Slices\<close>

text \<open>\<open>subslice i j bs\<close> is \<open>&bs[i..j]\<close> for \<open>i \<le> j \<le> bs.len()\<close>; callers check the range.\<close>

definition subslice :: "nat \<Rightarrow> nat \<Rightarrow> 'a list \<Rightarrow> 'a list" where
  "subslice i j xs = take (j - i) (drop i xs)"

text \<open>\<open>write_at i src buf\<close> is \<open>buf[i..i + src.len()].copy_from_slice(src)\<close>, in range.\<close>

definition write_at :: "nat \<Rightarrow> 'a list \<Rightarrow> 'a list \<Rightarrow> 'a list" where
  "write_at i src buf = take i buf @ src @ drop (i + length src) buf"

lemma length_subslice [simp]: "length (subslice i j xs) = min (j - i) (length xs - i)"
  by (simp add: subslice_def)

lemma subslice_append [simp]: "subslice i (i + n) xs = take n (drop i xs)"
  by (simp add: subslice_def)

lemma length_write_at [simp]:
  "i + length src \<le> length buf \<Longrightarrow> length (write_at i src buf) = length buf"
  by (simp add: write_at_def)

lemma write_at_write_at:
  assumes "length a = i" and "i + length src \<le> length buf"
  shows "write_at i src (a @ drop i buf) = (a @ src) @ drop (i + length src) buf"
  using assms by (simp add: write_at_def add.commute)

lemma write_at_0: "write_at 0 src buf = src @ drop (length src) buf"
  by (simp add: write_at_def)

lemma length_concat_nonempty: "(\<And>c. c \<in> set cs \<Longrightarrow> c \<noteq> []) \<Longrightarrow> length cs \<le> length (concat cs)"
proof (induction cs)
  case (Cons c cs)
  then have "0 < length c" "length cs \<le> length (concat cs)" by auto
  then have "Suc (length cs) \<le> length c + length (concat cs)" by linarith
  then show ?case by simp
qed simp

text \<open>Positions of a circular array are distinct for distinct offsets below its length.\<close>

lemma mod_add_inj:
  "(a + i) mod (n::nat) = (a + j) mod n \<Longrightarrow> i < n \<Longrightarrow> j < n \<Longrightarrow> i = j"
proof (induction i j rule: linorder_wlog)
  case (le i j)
  then have "n dvd j - i"
    using mod_eq_dvd_iff_nat [of "a + i" "a + j" n] by simp
  with le show ?case by (auto dest: dvd_imp_le)
next
  case (sym i j)
  then show ?case by simp
qed

section \<open>Low bits of a word\<close>

lemma take_bit_self_iff:
  "take_bit n w = w \<longleftrightarrow> (\<forall>k. bit w k \<longrightarrow> k < n)" for w :: "'a::len word"
proof
  assume "take_bit n w = w"
  then show "\<forall>k. bit w k \<longrightarrow> k < n" by (metis bit_take_bit_iff)
next
  assume "\<forall>k. bit w k \<longrightarrow> k < n"
  then show "take_bit n w = w" by (intro bit_word_eqI) (auto simp: bit_take_bit_iff)
qed

lemma less_2p_iff_bits:
  fixes w :: "'a::len word"
  assumes "n < LENGTH('a)"
  shows "w < 2 ^ n \<longleftrightarrow> (\<forall>k. bit w k \<longrightarrow> k < n)"
  using less_mask_eq [of w n] and_mask_less_size [of n w] assms
  by (auto simp: take_bit_eq_mask word_size simp flip: take_bit_self_iff)

lemma unat_bound: "unat w < 2 ^ LENGTH('a)" for w :: "'a::len word"
  by (rule unsigned_less)

lemma unat_u64_of_nat: "k < 2 ^ 64 \<Longrightarrow> unat (of_nat k :: u64) = k"
  by (simp add: unat_of_nat)

section \<open>Big-endian bytes\<close>

fun to_be_bytes :: "nat \<Rightarrow> 'a::len word \<Rightarrow> Bytes" where
  "to_be_bytes 0 w = []"
| "to_be_bytes (Suc n) w = to_be_bytes n (drop_bit 8 w) @ [ucast w]"

definition from_be_bytes :: "Bytes \<Rightarrow> 'a::len word" where
  "from_be_bytes bs = foldl (\<lambda>a b. push_bit 8 a OR ucast b) 0 bs"

lemma length_to_be_bytes [simp]: "length (to_be_bytes n w) = n"
  by (induction n arbitrary: w) auto

lemma from_be_bytes_snoc:
  "from_be_bytes (bs @ [b]) = (push_bit 8 (from_be_bytes bs) OR ucast b :: 'a::len word)"
  by (simp add: from_be_bytes_def)

lemma from_be_bytes_Nil [simp]: "from_be_bytes [] = 0"
  by (simp add: from_be_bytes_def)

lemma from_to_be_bytes_take:
  "from_be_bytes (to_be_bytes n w) = take_bit (8 * n) (w :: 'a::len word)"
proof (induction n arbitrary: w)
  case 0
  then show ?case by simp
next
  case (Suc n)
  show ?case
    by (rule bit_word_eqI)
      (auto simp: Suc from_be_bytes_snoc bit_simps not_le dest: bit_imp_le_length)
qed

lemma from_to_be_bytes:
  "LENGTH('a) \<le> 8 * n \<Longrightarrow> from_be_bytes (to_be_bytes n w) = (w :: 'a::len word)"
  by (simp add: from_to_be_bytes_take take_bit_word_eq_self)

lemma bit_from_be_bytes_bound:
  "bit (from_be_bytes bs :: 'a::len word) k \<Longrightarrow> k < 8 * length bs"
proof (induction bs arbitrary: k rule: rev_induct)
  case Nil
  then show ?case by simp
next
  case (snoc b bs)
  then show ?case
    by (auto simp: from_be_bytes_snoc bit_simps dest: bit_imp_le_length)
      (use snoc.IH [of "k - 8"] in force)
qed

lemma to_from_be_bytes:
  "8 * length bs \<le> LENGTH('a) \<Longrightarrow> to_be_bytes (length bs) (from_be_bytes bs :: 'a::len word) = bs"
proof (induction bs rule: rev_induct)
  case Nil
  then show ?case by simp
next
  case (snoc b bs)
  let ?w = "from_be_bytes bs :: 'a word"
  have "drop_bit 8 (push_bit 8 ?w OR ucast b) = ?w"
    using snoc.prems
    by (intro bit_word_eqI) (auto simp: bit_simps dest: bit_imp_le_length bit_from_be_bytes_bound)
  moreover have "(ucast (push_bit 8 ?w OR ucast b) :: u8) = b"
    using snoc.prems by (intro bit_word_eqI) (auto simp: bit_simps)
  ultimately show ?case
    using snoc by (simp add: from_be_bytes_snoc)
qed

lemma to_be_bytes_of_from:
  "length bs = n \<Longrightarrow> 8 * n \<le> LENGTH('a) \<Longrightarrow> to_be_bytes n (from_be_bytes bs :: 'a::len word) = bs"
  using to_from_be_bytes by blast

end
