(* ===== verification/Proto.thy ===== *)
theory Proto
  imports Prelude
begin

text \<open>
  The crate \<open>bluefin-proto\<close>: host kinds (\<open>context.rs\<close>), the error enum (\<open>error.rs\<close>), the result
  type (\<open>lib.rs\<close>) and the handshake state machine (\<open>handshake/state_machine.rs\<close>).
  A Rust call can return a value, return a \<open>BluefinError\<close>, or panic; \<open>BluefinResult\<close> has one
  constructor for each. Error texts built with \<open>format!\<close> are represented by their fixed part:
  no code inspects them. The random draws of \<open>rng().random()\<close> are arguments.
\<close>

section \<open>Hosts, errors and results\<close>

datatype BluefinHost = PackLeader | PackFollower | Client

datatype BluefinError =
    SerialiseError
  | DeserialiseError string
  | BufferDoesNotExist
  | BufferFullError string
  | BufferEmptyError
  | CouldNotAcceptConnectionError string
  | HandshakeError string
  | InvalidHeaderError string
  | LargePayloadError string
  | ReadError string
  | WriteError string
  | CannotOpenStreamError
  | TooManyOpenConnectionsError
  | NoSuchConnectionError
  | ConnectionAlreadyExists
  | StreamAlreadyExists
  | NoSuchWakerError
  | InvalidSocketError
  | UnexpectedPacketNumberError
  | CannotBufferError string
  | NoSuchStreamError
  | StdIoError string
  | Unexpected string
  | TimedOut string
  | InvalidState string
  | ConnectionClosed

datatype 'a BluefinResult = Ok 'a | Err BluefinError | Panic

text \<open>\<open>bind_res r f\<close> is \<open>f(r?)\<close>: an error returns early and a panic unwinds.\<close>

fun bind_res :: "'a BluefinResult \<Rightarrow> ('a \<Rightarrow> 'b BluefinResult) \<Rightarrow> 'b BluefinResult" where
  "bind_res (Ok x) f = f x"
| "bind_res (Err e) f = Err e"
| "bind_res Panic f = Panic"

fun is_ok :: "'a BluefinResult \<Rightarrow> bool" where
  "is_ok (Ok x) = True"
| "is_ok (Err e) = False"
| "is_ok Panic = False"

lemma bind_res_Ok_iff: "bind_res r f = Ok y \<longleftrightarrow> (\<exists>x. r = Ok x \<and> f x = Ok y)"
  by (cases r) auto

lemma bind_res_Panic_iff: "bind_res r f = Panic \<longleftrightarrow> r = Panic \<or> (\<exists>x. r = Ok x \<and> f x = Panic)"
  by (cases r) auto

lemma is_ok_iff: "is_ok r \<longleftrightarrow> (\<exists>x. r = Ok x)"
  by (cases r) auto

section \<open>The handshake state machine\<close>

datatype State =
    ServerStart | PendingAcceptState | RecvClientHello | SentServerHello | RecvClientAck
  | ClientStart | RequestingAccept | SentClientHello | RecvServerHello | SentClientAck | Conn

record PendingAccept =
  pa_src_conn_id :: u32
  pa_packet_number :: u64

record Transmit =
  tx_src_conn_id :: u32
  tx_packet_number :: u64

record HandshakeHandler =
  hs_state :: State
  hs_pending_accepts :: "PendingAccept list"
  hs_transmit_queue :: "Transmit list"

definition handshake_new :: "BluefinHost \<Rightarrow> HandshakeHandler BluefinResult" where
  "handshake_new host_type = (case host_type of
      Client \<Rightarrow> Ok \<lparr>hs_state = ClientStart, hs_pending_accepts = [], hs_transmit_queue = []\<rparr>
    | PackLeader \<Rightarrow> Ok \<lparr>hs_state = ServerStart, hs_pending_accepts = [], hs_transmit_queue = []\<rparr>
    | PackFollower \<Rightarrow> Panic)"

text \<open>\<open>handshake_begin (id, pn) h\<close>: the pair is what the two \<open>rng().random()\<close> calls of
  \<open>PendingAccept::new\<close> or \<open>Transmit::new\<close> draw.\<close>

definition handshake_begin ::
    "u32 \<times> u64 \<Rightarrow> HandshakeHandler \<Rightarrow> HandshakeHandler \<times> unit BluefinResult" where
  "handshake_begin rnd h = (case hs_state h of
      ServerStart \<Rightarrow>
        (h\<lparr>hs_pending_accepts := hs_pending_accepts h @
             [\<lparr>pa_src_conn_id = fst rnd, pa_packet_number = snd rnd\<rparr>],
           hs_state := PendingAcceptState\<rparr>, Ok ())
    | ClientStart \<Rightarrow>
        (h\<lparr>hs_transmit_queue := hs_transmit_queue h @
             [\<lparr>tx_src_conn_id = fst rnd, tx_packet_number = snd rnd\<rparr>],
           hs_state := RequestingAccept\<rparr>, Ok ())
    | _ \<Rightarrow> (h, Err (InvalidState ''Cannot begin handshake at state'')))"

definition poll_tx_client_hello ::
    "HandshakeHandler \<Rightarrow> HandshakeHandler \<times> Transmit option BluefinResult" where
  "poll_tx_client_hello h =
     (if hs_state h \<noteq> RequestingAccept then (h, Err (InvalidState ''Cannot poll tx client hello''))
      else (case hs_transmit_queue h of
          [] \<Rightarrow> (h, Ok None)
        | t # ts \<Rightarrow> (h\<lparr>hs_transmit_queue := ts\<rparr>, Ok (Some t))))"

definition handshake_handle :: "HandshakeHandler \<Rightarrow> HandshakeHandler \<times> unit BluefinResult" where
  "handshake_handle h = (h, Ok ())"

text \<open>One call of the handler's public interface, with the result dropped.\<close>

inductive handshake_step :: "HandshakeHandler \<Rightarrow> HandshakeHandler \<Rightarrow> bool" where
  call_begin: "handshake_step h (fst (handshake_begin rnd h))"
| call_poll: "handshake_step h (fst (poll_tx_client_hello h))"
| call_handle: "handshake_step h (fst (handshake_handle h))"

inductive handshake_reachable :: "BluefinHost \<Rightarrow> HandshakeHandler \<Rightarrow> bool" for host where
  start: "handshake_new host = Ok h \<Longrightarrow> handshake_reachable host h"
| step: "handshake_reachable host h \<Longrightarrow> handshake_step h h' \<Longrightarrow> handshake_reachable host h'"

inductive_simps handshake_step_iff: "handshake_step h h'"

text \<open>What the states a host can be in say about its two queues: a client never holds a pending
  accept, a pack leader never holds a transmit, and each queue holds at most the one request that
  \<open>begin\<close> enqueued.\<close>

definition handshake_inv :: "BluefinHost \<Rightarrow> HandshakeHandler \<Rightarrow> bool" where
  "handshake_inv host h = (case host of
      Client \<Rightarrow> hs_pending_accepts h = [] \<and>
        (hs_state h = ClientStart \<and> hs_transmit_queue h = [] \<or>
         hs_state h = RequestingAccept \<and> length (hs_transmit_queue h) \<le> 1)
    | PackLeader \<Rightarrow> hs_transmit_queue h = [] \<and>
        (hs_state h = ServerStart \<and> hs_pending_accepts h = [] \<or>
         hs_state h = PendingAcceptState \<and> length (hs_pending_accepts h) = 1)
    | PackFollower \<Rightarrow> False)"

lemma handshake_begin_inv: "handshake_inv host h \<Longrightarrow> handshake_inv host (fst (handshake_begin rnd h))"
  by (cases host) (auto simp: handshake_inv_def handshake_begin_def)

lemma poll_tx_client_hello_inv:
  "handshake_inv host h \<Longrightarrow> handshake_inv host (fst (poll_tx_client_hello h))"
  by (cases host) (auto simp: handshake_inv_def poll_tx_client_hello_def split: list.splits)

lemma handshake_step_inv: "handshake_step h h' \<Longrightarrow> handshake_inv host h \<Longrightarrow> handshake_inv host h'"
  by (auto simp: handshake_step_iff handshake_begin_inv poll_tx_client_hello_inv handshake_handle_def)

lemma handshake_reachable_inv: "handshake_reachable host h \<Longrightarrow> handshake_inv host h"
proof (induction rule: handshake_reachable.induct)
  case (start h)
  then show ?case
    by (auto simp: handshake_new_def handshake_inv_def split: BluefinHost.splits)
next
  case (step h h')
  then show ?case by (blast intro: handshake_step_inv)
qed

lemma handshake_begin_started:
  "hs_state h \<noteq> ServerStart \<Longrightarrow> hs_state h \<noteq> ClientStart \<Longrightarrow>
   handshake_begin rnd h = (h, Err (InvalidState ''Cannot begin handshake at state''))"
  by (simp add: handshake_begin_def split: State.splits)

lemma handshake_begin_leaves_start:
  "hs_state (fst (handshake_begin rnd h)) \<noteq> ServerStart \<and>
   hs_state (fst (handshake_begin rnd h)) \<noteq> ClientStart"
  by (simp add: handshake_begin_def split: State.splits)

end
