(* ===== verification/Ring_Buffer.thy ===== *)
theory Ring_Buffer
  imports Proto
begin

text \<open>
  \<open>bluefin/src/utils/ring_buffer.rs\<close>: a fixed-capacity ring buffer. Indexing the backing vector panics
  when out of range, and that is a branch of every operation that indexes; the invariant \<open>ring_wf\<close> shows
  that it is never taken. \<open>T::default()\<close>, which \<open>mem::take\<close> leaves behind in a vacated slot, is the
  parameter \<open>dflt\<close>. The locale \<open>bounded_deque\<close> is the contract of a bounded double-ended queue over an
  abstract list of elements, with the clients' facts (FIFO order, push/pop cancellation).
\<close>

section \<open>The contract\<close>

text \<open>A client that offers a list of elements one by one and drops those that come back, and a client that
  pops a number of times and collects what it gets.\<close>

fun offer_all :: "('a \<Rightarrow> 's \<Rightarrow> ('s \<times> 'a option) BluefinResult) \<Rightarrow> 'a list \<Rightarrow> 's \<Rightarrow> 's BluefinResult" where
  "offer_all push [] s = Ok s"
| "offer_all push (x # xs) s = bind_res (push x s) (\<lambda>(s', _). offer_all push xs s')"

fun drain :: "('s \<Rightarrow> ('s \<times> 'a option) BluefinResult) \<Rightarrow> nat \<Rightarrow> 's \<Rightarrow> ('s \<times> 'a option list) BluefinResult" where
  "drain pop 0 s = Ok (s, [])"
| "drain pop (Suc n) s = bind_res (pop s) (\<lambda>(s', x).
     bind_res (drain pop n s') (\<lambda>(s'', xs). Ok (s'', x # xs)))"

locale bounded_deque =
  fixes wf :: "'s \<Rightarrow> bool" and items :: "'s \<Rightarrow> 'a list" and bound :: "'s \<Rightarrow> nat"
    and push_back push_front :: "'a \<Rightarrow> 's \<Rightarrow> ('s \<times> 'a option) BluefinResult"
    and pop_front :: "'s \<Rightarrow> ('s \<times> 'a option) BluefinResult"
  assumes items_bounded: "wf s \<Longrightarrow> length (items s) \<le> bound s"
    and push_back_full: "wf s \<Longrightarrow> length (items s) = bound s \<Longrightarrow> push_back v s = Ok (s, Some v)"
    and push_front_full: "wf s \<Longrightarrow> length (items s) = bound s \<Longrightarrow> push_front v s = Ok (s, Some v)"
    and push_back_room: "wf s \<Longrightarrow> length (items s) < bound s \<Longrightarrow>
      \<exists>s'. push_back v s = Ok (s', None) \<and> wf s' \<and> bound s' = bound s \<and> items s' = items s @ [v]"
    and push_front_room: "wf s \<Longrightarrow> length (items s) < bound s \<Longrightarrow>
      \<exists>s'. push_front v s = Ok (s', None) \<and> wf s' \<and> bound s' = bound s \<and> items s' = v # items s"
    and pop_front_Nil: "wf s \<Longrightarrow> items s = [] \<Longrightarrow> pop_front s = Ok (s, None)"
    and pop_front_Cons: "wf s \<Longrightarrow> items s = x # xs \<Longrightarrow>
      \<exists>s'. pop_front s = Ok (s', Some x) \<and> wf s' \<and> bound s' = bound s \<and> items s' = xs"
begin

lemma offer_all_items:
  "wf s \<Longrightarrow> \<exists>s'. offer_all push_back xs s = Ok s' \<and> wf s' \<and> bound s' = bound s \<and>
     items s' = take (bound s) (items s @ xs)"
proof (induction xs arbitrary: s)
  case Nil
  then show ?case using items_bounded by simp
next
  case (Cons x xs)
  show ?case
  proof (cases "length (items s) = bound s")
    case True
    with Cons.IH [OF Cons.prems] Cons.prems show ?thesis by (simp add: push_back_full)
  next
    case False
    then obtain s1 where "push_back x s = Ok (s1, None)" "wf s1" "bound s1 = bound s"
        "items s1 = items s @ [x]"
      using push_back_room [OF Cons.prems, of x] items_bounded [OF Cons.prems] by fastforce
    with Cons.IH [of s1] show ?thesis by simp
  qed
qed

lemma drain_items:
  "wf s \<Longrightarrow> \<exists>s'. drain pop_front n s = Ok (s', map Some (take n (items s)) @ replicate (n - length (items s)) None)
     \<and> wf s' \<and> bound s' = bound s \<and> items s' = drop n (items s)"
proof (induction n arbitrary: s)
  case 0
  then show ?case by simp
next
  case (Suc n)
  show ?case
  proof (cases "items s")
    case Nil
    with Suc.IH [OF Suc.prems] show ?thesis by (auto simp: pop_front_Nil [OF Suc.prems Nil])
  next
    case (Cons x xs)
    then obtain s1 where "pop_front s = Ok (s1, Some x)" "wf s1" "bound s1 = bound s" "items s1 = xs"
      using pop_front_Cons [OF Suc.prems Cons] by blast
    with Suc.IH [of s1] Cons show ?thesis by auto
  qed
qed

lemma fifo:
  assumes "wf s" and "length (items s) + length xs \<le> bound s"
  shows "\<exists>s' s''. offer_all push_back xs s = Ok s' \<and>
    drain pop_front (length (items s) + length xs) s' = Ok (s'', map Some (items s @ xs)) \<and> items s'' = []"
proof -
  obtain s' where s': "offer_all push_back xs s = Ok s'" "wf s'" "items s' = items s @ xs"
    using offer_all_items [OF assms(1), of xs] assms(2) by auto
  with drain_items [OF s'(2), of "length (items s) + length xs"] show ?thesis by auto
qed

lemma push_pop_cancel:
  assumes "wf s" and "length (items s) < bound s"
  shows "\<exists>s' s''. push_front v s = Ok (s', None) \<and> pop_front s' = Ok (s'', Some v) \<and> items s'' = items s"
  using push_front_room [OF assms, of v] pop_front_Cons by blast

end

section \<open>The ring\<close>

record 'a RingBuffer =
  buffer :: "'a list"
  capacity :: usize
  head :: usize
  tail :: usize
  len :: usize

definition ring_new :: "'a \<Rightarrow> usize \<Rightarrow> 'a RingBuffer" where
  "ring_new dflt cap = \<lparr>buffer = replicate cap dflt, capacity = cap, head = 0, tail = 0, len = 0\<rparr>"

definition ring_default :: "'a \<Rightarrow> 'a RingBuffer" where
  "ring_default dflt = ring_new dflt 128"

definition is_empty :: "'a RingBuffer \<Rightarrow> bool" where
  "is_empty r \<longleftrightarrow> len r = 0"

definition is_full :: "'a RingBuffer \<Rightarrow> bool" where
  "is_full r \<longleftrightarrow> len r = capacity r"

definition ring_push_back :: "'a \<Rightarrow> 'a RingBuffer \<Rightarrow> ('a RingBuffer \<times> 'a option) BluefinResult" where
  "ring_push_back v r =
     (if is_full r then Ok (r, Some v)
      else if tail r \<ge> length (buffer r) \<or> capacity r = 0 then Panic
      else Ok (r\<lparr>buffer := (buffer r)[tail r := v], tail := (tail r + 1) mod capacity r, len := len r + 1\<rparr>,
               None))"

definition ring_push_front :: "'a \<Rightarrow> 'a RingBuffer \<Rightarrow> ('a RingBuffer \<times> 'a option) BluefinResult" where
  "ring_push_front v r =
     (if is_full r then Ok (r, Some v)
      else let h = (if head r = 0 then capacity r - 1 else head r - 1) in
        if h \<ge> length (buffer r) then Panic
        else Ok (r\<lparr>buffer := (buffer r)[h := v], head := h, len := len r + 1\<rparr>, None))"

definition ring_pop_front :: "'a \<Rightarrow> 'a RingBuffer \<Rightarrow> ('a RingBuffer \<times> 'a option) BluefinResult" where
  "ring_pop_front dflt r =
     (if is_empty r then Ok (r, None)
      else if head r \<ge> length (buffer r) \<or> capacity r = 0 then Panic
      else Ok (r\<lparr>buffer := (buffer r)[head r := dflt], head := (head r + 1) mod capacity r, len := len r - 1\<rparr>,
               Some (buffer r ! head r)))"

definition ring_front :: "'a RingBuffer \<Rightarrow> 'a option BluefinResult" where
  "ring_front r =
     (if is_empty r then Ok None
      else if head r \<ge> length (buffer r) then Panic else Ok (Some (buffer r ! head r)))"

text \<open>The \<open>while !self.is_empty()\<close> loop of \<open>clear\<close>; every iteration lowers \<open>len\<close>.\<close>

function ring_clear :: "'a \<Rightarrow> 'a RingBuffer \<Rightarrow> 'a RingBuffer BluefinResult" where
  "ring_clear dflt r =
     (if is_empty r then Ok r
      else (case ring_pop_front dflt r of
              Ok (r', _) \<Rightarrow> ring_clear dflt r' | Err e \<Rightarrow> Err e | Panic \<Rightarrow> Panic))"
  by pat_completeness auto
termination
  by (relation "measure (\<lambda>(_, r). len r)") (auto simp: ring_pop_front_def is_empty_def split: if_splits)

declare ring_clear.simps [simp del]

section \<open>Invariant and refinement\<close>

definition ring_wf :: "'a RingBuffer \<Rightarrow> bool" where
  "ring_wf r \<longleftrightarrow> length (buffer r) = capacity r \<and> len r \<le> capacity r \<and>
     (0 < capacity r \<longrightarrow> head r < capacity r \<and> tail r = (head r + len r) mod capacity r)"

definition ring_items :: "'a RingBuffer \<Rightarrow> 'a list" where
  "ring_items r = map (\<lambda>i. buffer r ! ((head r + i) mod capacity r)) [0..<len r]"

lemma length_ring_items [simp]: "length (ring_items r) = len r"
  by (simp add: ring_items_def)

lemma ring_new_wf [wf_keep]: "ring_wf (ring_new d n)" "ring_items (ring_new d n) = []"
  by (simp_all add: ring_wf_def ring_new_def ring_items_def)

lemma ring_push_back_room:
  assumes wf: "ring_wf r" and room: "len r < capacity r"
  shows "\<exists>r'. ring_push_back v r = Ok (r', None) \<and> ring_wf r' \<and> capacity r' = capacity r \<and>
    ring_items r' = ring_items r @ [v]"
proof -
  let ?r' = "r\<lparr>buffer := (buffer r)[tail r := v], tail := (tail r + 1) mod capacity r, len := len r + 1\<rparr>"
  have t: "tail r = (head r + len r) mod capacity r" "tail r < capacity r" "length (buffer r) = capacity r"
    using wf room by (auto simp: ring_wf_def)
  have "(buffer r)[tail r := v] ! ((head r + i) mod capacity r) = buffer r ! ((head r + i) mod capacity r)"
    if "i < len r" for i
    using that room t(1) mod_add_inj [of "head r" i "capacity r" "len r"]
    by (intro nth_list_update_neq) auto
  then have "ring_items ?r' = ring_items r @ [v]"
    using t by (simp add: ring_items_def)
  moreover have "ring_wf ?r'"
    using wf room by (simp add: ring_wf_def mod_Suc_eq)
  moreover have "ring_push_back v r = Ok (?r', None)"
    using t(2,3) room by (simp add: ring_push_back_def is_full_def)
  ultimately show ?thesis by auto
qed

lemma ring_push_front_room:
  assumes wf: "ring_wf r" and room: "len r < capacity r"
  shows "\<exists>r'. ring_push_front v r = Ok (r', None) \<and> ring_wf r' \<and> capacity r' = capacity r \<and>
    ring_items r' = v # ring_items r"
proof -
  define h where "h = (if head r = 0 then capacity r - 1 else head r - 1)"
  let ?r' = "r\<lparr>buffer := (buffer r)[h := v], head := h, len := len r + 1\<rparr>"
  have h: "h < capacity r" "length (buffer r) = capacity r" and hd: "head r < capacity r"
    using wf room by (auto simp: ring_wf_def h_def)
  have step: "(h + Suc i) mod capacity r = (head r + i) mod capacity r" for i
    using hd by (auto simp: h_def)
  have "(buffer r)[h := v] ! ((head r + i) mod capacity r) = buffer r ! ((head r + i) mod capacity r)"
    if "i < len r" for i
    using that room h mod_add_inj [of h "Suc i" "capacity r" 0] step [of i]
    by (intro nth_list_update_neq) auto
  then have "ring_items ?r' = v # ring_items r"
    using h step by (auto simp: ring_items_def upt_conv_Cons simp flip: map_Suc_upt simp del: upt_Suc)
  moreover have "ring_wf ?r'"
    using wf room h step [of "len r"] by (simp add: ring_wf_def)
  moreover have "ring_push_front v r = Ok (?r', None)"
    using h room by (simp add: ring_push_front_def is_full_def h_def Let_def)
  ultimately show ?thesis by auto
qed

lemma ring_pop_front_Cons:
  assumes wf: "ring_wf r" and it: "ring_items r = x # xs"
  shows "\<exists>r'. ring_pop_front d r = Ok (r', Some x) \<and> ring_wf r' \<and> capacity r' = capacity r \<and>
    ring_items r' = xs"
proof -
  let ?r' = "r\<lparr>buffer := (buffer r)[head r := d], head := (head r + 1) mod capacity r, len := len r - 1\<rparr>"
  have len: "len r = Suc (length xs)" using arg_cong [OF it, of length] by simp
  then have h: "head r < capacity r" "length (buffer r) = capacity r" "len r \<le> capacity r"
    using wf by (auto simp: ring_wf_def)
  have items: "x = buffer r ! head r" "xs = map (\<lambda>i. buffer r ! ((head r + Suc i) mod capacity r)) [0..<length xs]"
    using it len h
    by (auto simp: ring_items_def upt_conv_Cons comp_def simp flip: map_Suc_upt simp del: upt_Suc)
  have "(buffer r)[head r := d] ! ((head r + Suc i) mod capacity r) = buffer r ! ((head r + Suc i) mod capacity r)"
    if "i < length xs" for i
    using that len h mod_add_inj [of "head r" "Suc i" "capacity r" 0]
    by (intro nth_list_update_neq) auto
  then have "map (\<lambda>i. (buffer r)[head r := d] ! ((head r + Suc i) mod capacity r)) [0..<length xs]
      = map (\<lambda>i. buffer r ! ((head r + Suc i) mod capacity r)) [0..<length xs]" by simp
  then have "ring_items ?r' = xs"
    unfolding items(2) [symmetric] using len by (simp add: ring_items_def mod_simps)
  moreover have "ring_wf ?r'"
    using wf len h by (simp add: ring_wf_def mod_simps)
  moreover have "ring_pop_front d r = Ok (?r', Some x)"
    using h len items(1) by (auto simp: ring_pop_front_def is_empty_def)
  ultimately show ?thesis by auto
qed

interpretation ring: bounded_deque ring_wf ring_items capacity ring_push_back ring_push_front
  "ring_pop_front d"
proof unfold_locales
  show "ring_wf s \<Longrightarrow> length (ring_items s) \<le> capacity s" for s :: "'a RingBuffer"
    by (simp add: ring_wf_def)
  show "ring_pop_front d s = Ok (s, None)" if "ring_items s = []" for s :: "'a RingBuffer"
    using arg_cong [OF that, of length] by (simp add: ring_pop_front_def is_empty_def)
  show "ring_push_back v s = Ok (s, Some v)" "ring_push_front v s = Ok (s, Some v)"
    if "length (ring_items s) = capacity s" for s :: "'a RingBuffer" and v
    using that by (simp_all add: ring_push_back_def ring_push_front_def is_full_def)
qed (simp_all add: ring_push_back_room ring_push_front_room ring_pop_front_Cons)

lemma ring_clear_items: "ring_wf r \<Longrightarrow> \<exists>r'. ring_clear d r = Ok r' \<and> ring_wf r' \<and> capacity r' = capacity r \<and> ring_items r' = []"
proof (induction "ring_items r" arbitrary: r)
  case Nil
  then have "len r = 0" by (metis length_ring_items list.size(3))
  with Nil show ?case by (simp add: ring_clear.simps [of d r] is_empty_def)
next
  case (Cons x xs)
  then have "len r \<noteq> 0" by (metis length_ring_items list.size(3) neq_Nil_conv length_0_conv)
  moreover obtain r' where "ring_pop_front d r = Ok (r', Some x)" "ring_wf r'" "capacity r' = capacity r" "ring_items r' = xs"
    using ring_pop_front_Cons [OF Cons.prems Cons.hyps(2) [symmetric]] by blast
  ultimately show ?case using Cons.hyps(1) [of r'] by (simp add: ring_clear.simps [of d r] is_empty_def)
qed



end
