(* ===== verification/Header.thy ===== *)
theory Header
  imports Proto
begin

text \<open>
  \<open>bluefin/src/core/mod.rs\<close> and \<open>core/header.rs\<close>: the \<open>Serialisable\<close> trait as a locale, the packet
  types, the security byte and the 20-byte header with its two serialisers. A slice access out of
  range and the \<open>panic!\<close> of an unknown packet type are the value \<open>Panic\<close>.
\<close>

section \<open>The \<open>Serialisable\<close> trait\<close>

text \<open>
  The contract of the trait: on the valid values of the type, \<open>deserialise\<close> inverts \<open>serialise\<close>;
  it accepts no bytes but those of a valid value (with the bytes it was given as a prefix match,
  since the security byte is read from the front of its slice).
\<close>

locale serialisable =
  fixes serialise :: "'a \<Rightarrow> Bytes"
    and deserialise :: "Bytes \<Rightarrow> 'a BluefinResult"
    and valid :: "'a \<Rightarrow> bool"
  assumes deserialise_serialise: "valid x \<Longrightarrow> deserialise (serialise x) = Ok x"
    and deserialise_valid: "deserialise bs = Ok x \<Longrightarrow> valid x"
    and serialise_deserialise: "deserialise bs = Ok x \<Longrightarrow> take (length (serialise x)) bs = serialise x"
begin

lemma serialise_inj: "valid x \<Longrightarrow> valid y \<Longrightarrow> serialise x = serialise y \<Longrightarrow> x = y"
  by (metis BluefinResult.inject(1) deserialise_serialise)

lemma deserialise_image: "(\<exists>bs. deserialise bs = Ok x) \<longleftrightarrow> valid x"
  using deserialise_serialise deserialise_valid by blast

end

text \<open>A type whose encoding has one fixed width and is read only at that width.\<close>

locale fixed_width = serialisable +
  fixes width :: nat
  assumes length_serialise: "length (serialise x) = width"
    and deserialise_width: "deserialise bs = Ok x \<Longrightarrow> length bs = width"
begin

lemma deserialise_iff: "deserialise bs = Ok x \<longleftrightarrow> valid x \<and> bs = serialise x"
  using deserialise_serialise deserialise_valid serialise_deserialise [of bs x] deserialise_width [of bs x]
    length_serialise [of x] by auto

lemma take_frame: "take width (serialise x @ rest) = serialise x"
  by (simp add: length_serialise)

lemma drop_frame: "drop width (serialise x @ rest) = rest"
  by (simp add: length_serialise)

end

section \<open>Packet types\<close>

datatype PacketType =
    UnencryptedClientHello | UnencryptedServerHello | ClientAck | UnencryptedData | Ack | Fin | FinAck

text \<open>\<open>self.type_field as u8\<close>: the discriminants of the enum.\<close>

fun type_as_u8 :: "PacketType \<Rightarrow> u8" where
  "type_as_u8 UnencryptedClientHello = 0x00"
| "type_as_u8 UnencryptedServerHello = 0x01"
| "type_as_u8 ClientAck = 0x02"
| "type_as_u8 UnencryptedData = 0x03"
| "type_as_u8 Ack = 0x04"
| "type_as_u8 Fin = 0x05"
| "type_as_u8 FinAck = 0x06"

definition from_u8 :: "u8 \<Rightarrow> PacketType BluefinResult" where
  "from_u8 value =
     (if value = 0x00 then Ok UnencryptedClientHello
      else if value = 0x01 then Ok UnencryptedServerHello
      else if value = 0x02 then Ok ClientAck
      else if value = 0x03 then Ok UnencryptedData
      else if value = 0x04 then Ok Ack
      else if value = 0x05 then Ok Fin
      else if value = 0x06 then Ok FinAck
      else Panic)"

lemma from_u8_type_as_u8 [simp]: "from_u8 (type_as_u8 t) = Ok t"
  by (cases t) (simp_all add: from_u8_def)

lemma from_u8_Ok_iff: "from_u8 v = Ok t \<longleftrightarrow> v = type_as_u8 t"
  by (cases t) (auto simp: from_u8_def split: if_splits)

lemma from_u8_not_Err [simp]: "from_u8 v \<noteq> Err e"
  by (simp add: from_u8_def)

lemma type_as_u8_less: "type_as_u8 t < 16"
  by (cases t) simp_all

section \<open>The security byte\<close>

record BluefinSecurityFields =
  header_encrypted :: bool
  header_protection_mask :: u8

definition security_new :: "bool \<Rightarrow> u8 \<Rightarrow> BluefinSecurityFields BluefinResult" where
  "security_new encrypted m =
     (if m > 127 then Panic
      else Ok \<lparr>header_encrypted = encrypted, header_protection_mask = m\<rparr>)"

definition security_default :: BluefinSecurityFields where
  "security_default = \<lparr>header_encrypted = False, header_protection_mask = 0\<rparr>"

definition security_serialise :: "BluefinSecurityFields \<Rightarrow> Bytes" where
  "security_serialise s =
     (let byte = (0x0 :: u8);
          byte = (if header_encrypted s then byte OR 0x80 else byte);
          byte = byte OR header_protection_mask s
      in [byte])"

definition security_deserialise :: "Bytes \<Rightarrow> BluefinSecurityFields BluefinResult" where
  "security_deserialise bytes =
     (case bytes of
        [] \<Rightarrow> Err (DeserialiseError ''Bluefin security fields are one byte'')
      | byte # _ \<Rightarrow>
          Ok \<lparr>header_encrypted = (drop_bit 7 (byte AND 0x80) \<noteq> 0),
              header_protection_mask = byte AND 0x7f\<rparr>)"

definition security_valid :: "BluefinSecurityFields \<Rightarrow> bool" where
  "security_valid s = (header_protection_mask s < 128)"

lemma security_new_valid: "security_new e m = Ok s \<Longrightarrow> security_valid s"
  by (auto simp: security_new_def security_valid_def not_less split: if_splits)
    (simp add: word_le_nat_alt word_less_nat_alt)

lemma security_default_valid [simp]: "security_valid security_default"
  by (simp add: security_valid_def security_default_def)

lemma length_security_serialise [simp]: "length (security_serialise s) = 1"
  by (simp add: security_serialise_def Let_def)

text \<open>The two masks of the byte, bit by bit.\<close>

lemma bit_0x7f: "bit (0x7f :: u8) n \<longleftrightarrow> n < 7"
proof -
  have "(0x7f :: u8) = mask 7" by (simp add: mask_eq_exp_minus_1)
  then show ?thesis by (simp only: bit_mask_iff) (auto simp: possible_bit_def)
qed

lemma bit_0x80: "bit (0x80 :: u8) n \<longleftrightarrow> n = 7"
proof -
  have "(0x80 :: u8) = 2 ^ 7" by simp
  then show ?thesis by (simp only: bit_exp_iff) (auto simp: possible_bit_def)
qed

declare bit_numeral_word_iff [simp del]

lemmas byte_bits = bit_or_iff bit_and_iff bit_0x80 bit_0x7f

lemma high_bit: "drop_bit 7 (b AND 0x80 :: u8) \<noteq> 0 \<longleftrightarrow> bit b 7"
  by (simp add: bit_iff_odd_drop_bit and_one_eq mod_2_eq_odd)

lemma mask_field: "(m :: u8) < 128 \<longleftrightarrow> (\<forall>n. bit m n \<longrightarrow> n < 7)"
  using less_2p_iff_bits [of 7 m] by simp

lemma mask_byte:
  assumes "m < 128"
  shows "bit ((if e then 0x80 else 0) OR m :: u8) 7 \<longleftrightarrow> e"
    and "((if e then 0x80 else 0) OR m) AND 0x7f = (m :: u8)"
proof -
  have *: "bit m n \<Longrightarrow> n < 7" for n using assms by (simp add: mask_field)
  show "bit ((if e then 0x80 else 0) OR m :: u8) 7 \<longleftrightarrow> e"
    using * [of 7] by (auto simp: bit_or_iff bit_0x80)
  show "((if e then 0x80 else 0) OR m) AND 0x7f = (m :: u8)"
    by (rule bit_word_eqI) (auto simp: byte_bits dest: *)
qed

lemma byte_mask: "(if bit b 7 then 0x80 else 0) OR (b AND 0x7f) = (b :: u8)"
  by (rule bit_word_eqI) (auto simp: byte_bits less_Suc_eq eval_nat_numeral)

lemma security_serialise_eq:
  "security_serialise s = [(if header_encrypted s then 0x80 else 0) OR header_protection_mask s]"
  by (simp add: security_serialise_def Let_def)

lemma security_deserialise_Cons:
  "security_deserialise (b # bs) =
     Ok \<lparr>header_encrypted = bit b 7, header_protection_mask = b AND 0x7f\<rparr>"
  unfolding security_deserialise_def high_bit by simp

lemma security_deserialise_serialise:
  "security_valid s \<Longrightarrow> security_deserialise (security_serialise s) = Ok s"
  by (simp only: security_deserialise_Cons security_serialise_eq security_valid_def mask_byte) simp

lemma security_deserialise_valid: "security_deserialise bs = Ok s \<Longrightarrow> security_valid s"
proof -
  have "(b AND 0x7f :: u8) < 128" for b
    by (simp add: mask_field byte_bits)
  then show "security_deserialise bs = Ok s \<Longrightarrow> security_valid s"
    by (auto simp: security_deserialise_def security_valid_def split: list.splits)
qed

lemma security_serialise_deserialise:
  assumes "security_deserialise bs = Ok s"
  shows "take 1 bs = security_serialise s"
proof (cases bs)
  case (Cons b bs')
  with assms have "s = \<lparr>header_encrypted = bit b 7, header_protection_mask = b AND 0x7f\<rparr>"
    by (simp add: security_deserialise_Cons)
  with Cons byte_mask [of b] show ?thesis
    by (simp add: security_serialise_eq)
qed (use assms in \<open>simp add: security_deserialise_def\<close>)

interpretation security: serialisable security_serialise security_deserialise security_valid
proof unfold_locales
  show "security_valid s \<Longrightarrow> security_deserialise (security_serialise s) = Ok s" for s
    by (rule security_deserialise_serialise)
  show "security_deserialise bs = Ok s \<Longrightarrow> security_valid s" for bs s
    by (rule security_deserialise_valid)
  show "security_deserialise bs = Ok s \<Longrightarrow>
      take (length (security_serialise s)) bs = security_serialise s" for bs s
    using security_serialise_deserialise by simp
qed

section \<open>The header\<close>

record BluefinHeader =
  version :: u8
  type_field :: PacketType
  type_specific_payload :: u16
  security_fields :: BluefinSecurityFields
  source_connection_id :: u32
  destination_connection_id :: u32
  packet_number :: u64

definition header_new :: "u32 \<Rightarrow> u32 \<Rightarrow> PacketType \<Rightarrow> u16 \<Rightarrow> BluefinSecurityFields \<Rightarrow> BluefinHeader" where
  "header_new src dst ty payload sec =
     \<lparr>version = 0x0, type_field = ty, type_specific_payload = payload, security_fields = sec,
      source_connection_id = src, destination_connection_id = dst, packet_number = 0x0\<rparr>"

definition with_packet_number :: "u64 \<Rightarrow> BluefinHeader \<Rightarrow> BluefinHeader" where
  "with_packet_number pn h = h\<lparr>packet_number := pn\<rparr>"

definition header_default :: BluefinHeader where
  "header_default =
     \<lparr>version = 0, type_field = UnencryptedData, type_specific_payload = 0,
      security_fields = security_default, source_connection_id = 0, destination_connection_id = 0,
      packet_number = 0\<rparr>"

text \<open>\<open>serialise_into\<close> writes the six fields in place and returns 20; on a buffer under 20 bytes one
  of the slice accesses panics.\<close>

definition header_serialise_into :: "BluefinHeader \<Rightarrow> Bytes \<Rightarrow> (usize \<times> Bytes) BluefinResult" where
  "header_serialise_into h buf =
     (if length buf < 20 then Panic
      else
        let buf = write_at 0 [push_bit 4 (version h) OR type_as_u8 (type_field h)] buf;
            buf = write_at 1 (to_be_bytes 2 (type_specific_payload h)) buf;
            buf = write_at 3 [hd (security_serialise (security_fields h))] buf;
            buf = write_at 4 (to_be_bytes 4 (source_connection_id h)) buf;
            buf = write_at 8 (to_be_bytes 4 (destination_connection_id h)) buf;
            buf = write_at 12 (to_be_bytes 8 (packet_number h)) buf
        in Ok (20, buf))"

definition header_serialise :: "BluefinHeader \<Rightarrow> Bytes" where
  "header_serialise h =
     (let first_byte = push_bit 4 (version h) OR type_as_u8 (type_field h)
      in concat
          [to_be_bytes 1 first_byte,
           to_be_bytes 2 (type_specific_payload h),
           security_serialise (security_fields h),
           to_be_bytes 4 (source_connection_id h),
           to_be_bytes 4 (destination_connection_id h),
           to_be_bytes 8 (packet_number h)])"

definition header_deserialise :: "Bytes \<Rightarrow> BluefinHeader BluefinResult" where
  "header_deserialise bytes =
     (if length bytes \<noteq> 20 then Err (DeserialiseError ''Bluefin header must be exactly 20 bytes'')
      else
        bind_res (security_deserialise [bytes ! 3]) (\<lambda>sec.
        bind_res (from_u8 (bytes ! 0 AND 0x0f)) (\<lambda>ty.
          Ok \<lparr>version = drop_bit 4 (bytes ! 0 AND 0xf0),
              type_field = ty,
              type_specific_payload = from_be_bytes (subslice 1 3 bytes),
              security_fields = sec,
              source_connection_id = from_be_bytes (subslice 4 8 bytes),
              destination_connection_id = from_be_bytes (subslice 8 12 bytes),
              packet_number = from_be_bytes (subslice 12 20 bytes)\<rparr>)))"

definition header_valid :: "BluefinHeader \<Rightarrow> bool" where
  "header_valid h \<longleftrightarrow> version h < 16 \<and> security_valid (security_fields h)"

subsection \<open>The first byte\<close>

lemma bit_0x0f: "bit (0x0f :: u8) n \<longleftrightarrow> n < 4"
proof -
  have "(0x0f :: u8) = mask 4" by (simp add: mask_eq_exp_minus_1)
  then show ?thesis by (simp only: bit_mask_iff) (auto simp: possible_bit_def)
qed

lemma bit_0xf0: "bit (0xf0 :: u8) n \<longleftrightarrow> 4 \<le> n \<and> n < 8"
proof -
  have "(0xf0 :: u8) = push_bit 4 (mask 4)" by (simp add: mask_eq_exp_minus_1)
  then show ?thesis
    by (simp only: bit_push_bit_iff bit_mask_iff) (auto simp: possible_bit_def)
qed

lemmas nibble_bits = bit_or_iff bit_and_iff bit_push_bit_iff bit_drop_bit_eq bit_0x0f bit_0xf0

lemma nibble_less: "(v :: u8) < 16 \<longleftrightarrow> (\<forall>n. bit v n \<longrightarrow> n < 4)"
  using less_2p_iff_bits [of 4 v] by simp

lemma nibbles_split:
  assumes "v < 16" and "t < 16"
  shows "(push_bit 4 v OR t) AND 0x0f = (t :: u8)"
    and "drop_bit 4 ((push_bit 4 v OR t) AND 0xf0) = (v :: u8)"
proof -
  have v: "bit v n \<Longrightarrow> n < 4" and t: "bit t n \<Longrightarrow> n < 4" for n
    using assms by (auto simp: nibble_less)
  show "(push_bit 4 v OR t) AND 0x0f = t"
    by (rule bit_word_eqI) (auto simp: nibble_bits dest: t)
  show "drop_bit 4 ((push_bit 4 v OR t) AND 0xf0) = v"
    by (rule bit_word_eqI) (auto simp: nibble_bits simp del: drop_bit_and dest: v t)
qed

lemma nibbles_join: "push_bit 4 (drop_bit 4 (b AND 0xf0)) OR (b AND 0x0f) = (b :: u8)"
  by (rule bit_word_eqI) (auto simp: nibble_bits simp del: drop_bit_and)

lemma nibble_high_less: "drop_bit 4 (b AND 0xf0 :: u8) < 16"
  unfolding nibble_less by (auto simp: nibble_bits simp del: drop_bit_and)

subsection \<open>Layout\<close>

lemma to_be_bytes_1 [simp]: "to_be_bytes (Suc 0) (b :: u8) = [b]"
  by simp

lemma header_serialise_layout [wire]:
  "header_serialise h =
     (push_bit 4 (version h) OR type_as_u8 (type_field h)) #
     to_be_bytes 2 (type_specific_payload h) @ security_serialise (security_fields h) @
     to_be_bytes 4 (source_connection_id h) @ to_be_bytes 4 (destination_connection_id h) @
     to_be_bytes 8 (packet_number h)"
  by (simp add: header_serialise_def Let_def)

lemma length_header_serialise [simp]: "length (header_serialise h) = 20"
  by (simp add: header_serialise_layout)

lemma layout_fields:
  assumes "length a = 2" and "length s = 1" and "length b = 4" and "length c = 4" and "length d = 8"
  shows "(f # a @ s @ b @ c @ d) ! 0 = f" and "[(f # a @ s @ b @ c @ d) ! 3] = s"
    and "subslice 1 3 (f # a @ s @ b @ c @ d) = a" and "subslice 4 8 (f # a @ s @ b @ c @ d) = b"
    and "subslice 8 12 (f # a @ s @ b @ c @ d) = c" and "subslice 12 20 (f # a @ s @ b @ c @ d) = d"
  using assms by (auto simp: subslice_def nth_append length_Suc_conv eval_nat_numeral)

lemma layout_split:
  assumes "length bs = 20"
  shows "bs = bs ! 0 # subslice 1 3 bs @ [bs ! 3] @ subslice 4 8 bs @ subslice 8 12 bs @ subslice 12 20 bs"
proof -
  have "bs = take 1 bs @ subslice 1 3 bs @ subslice 3 4 bs @ subslice 4 8 bs @ subslice 8 12 bs @ subslice 12 20 bs"
    using append_take_drop_id [of 1 bs] append_take_drop_id [of 2 "drop 1 bs"]
      append_take_drop_id [of 1 "drop 3 bs"] append_take_drop_id [of 4 "drop 4 bs"]
      append_take_drop_id [of 4 "drop 8 bs"] assms
    by (simp add: subslice_def)
  moreover have "take 1 bs = [bs ! 0]" "subslice 3 4 bs = [bs ! 3]"
    using assms by (simp_all add: subslice_def take_Suc_conv_app_nth numeral_eq_Suc hd_drop_conv_nth
        hd_conv_nth take_Suc)
  ultimately show ?thesis by simp
qed

subsection \<open>Round trips\<close>

lemma header_fields:
  "header_serialise h ! 0 = push_bit 4 (version h) OR type_as_u8 (type_field h)"
  "[header_serialise h ! 3] = security_serialise (security_fields h)"
  "subslice 1 3 (header_serialise h) = to_be_bytes 2 (type_specific_payload h)"
  "subslice 4 8 (header_serialise h) = to_be_bytes 4 (source_connection_id h)"
  "subslice 8 12 (header_serialise h) = to_be_bytes 4 (destination_connection_id h)"
  "subslice 12 20 (header_serialise h) = to_be_bytes 8 (packet_number h)"
  by (simp_all only: header_serialise_layout layout_fields length_to_be_bytes length_security_serialise)

lemma header_deserialise_serialise:
  assumes "header_valid h"
  shows "header_deserialise (header_serialise h) = Ok h"
proof -
  have "version h < 16" and sec: "security_valid (security_fields h)"
    using assms by (auto simp: header_valid_def)
  note first = nibbles_split [OF this(1) type_as_u8_less]
  show ?thesis
    unfolding header_deserialise_def header_fields first
    by (simp add: from_to_be_bytes security_deserialise_serialise [OF sec])
qed

lemma header_deserialise_OkD:
  assumes "header_deserialise bs = Ok h"
  shows "header_valid h \<and> header_serialise h = bs"
proof -
  have len: "length bs = 20" using assms by (auto simp: header_deserialise_def split: if_splits)
  from assms len obtain sec ty where sec: "security_deserialise [bs ! 3] = Ok sec"
    and ty: "from_u8 (bs ! 0 AND 0x0f) = Ok ty"
    and h: "h = \<lparr>version = drop_bit 4 (bs ! 0 AND 0xf0), type_field = ty,
       type_specific_payload = from_be_bytes (subslice 1 3 bs), security_fields = sec,
       source_connection_id = from_be_bytes (subslice 4 8 bs),
       destination_connection_id = from_be_bytes (subslice 8 12 bs),
       packet_number = from_be_bytes (subslice 12 20 bs)\<rparr>"
    by (auto simp: header_deserialise_def bind_res_Ok_iff simp del: drop_bit_and)
  have first: "push_bit 4 (version h) OR type_as_u8 (type_field h) = bs ! 0"
    using ty nibbles_join [of "bs ! 0"] by (simp add: h from_u8_Ok_iff del: drop_bit_and)
  have sec': "security_serialise sec = [bs ! 3]"
    using security_serialise_deserialise [OF sec] by simp
  have "header_serialise h = bs ! 0 # subslice 1 3 bs @ [bs ! 3] @ subslice 4 8 bs @ subslice 8 12 bs @ subslice 12 20 bs"
    unfolding header_serialise_layout first using len
    by (simp add: h sec' to_be_bytes_of_from)
  also have "\<dots> = bs" by (rule layout_split [OF len, symmetric])
  finally show ?thesis
    using security_deserialise_valid [OF sec] nibble_high_less by (simp add: header_valid_def h)
qed

interpretation header: fixed_width header_serialise header_deserialise header_valid 20
proof unfold_locales
  show "header_valid h \<Longrightarrow> header_deserialise (header_serialise h) = Ok h" for h
    by (rule header_deserialise_serialise)
  show "header_deserialise bs = Ok h \<Longrightarrow> header_valid h" for bs h
    using header_deserialise_OkD by blast
  show "header_deserialise bs = Ok h \<Longrightarrow> take (length (header_serialise h)) bs = header_serialise h"
    for bs h
    using header_deserialise_OkD [of bs h] by auto
  show "length (header_serialise h) = 20" for h by simp
  show "header_deserialise bs = Ok h \<Longrightarrow> length bs = 20" for bs h
    using header_deserialise_OkD [of bs h] by auto
qed

text \<open>C5. The header codec is a bijection between the valid headers (4-bit version, 7-bit mask) and
  the 20-byte strings that \<open>deserialise\<close> accepts: bytes decode to \<open>h\<close> exactly when \<open>h\<close> is valid and
  they are its encoding.\<close>

theorem header_codec_bijection:
  "header_deserialise bs = Ok h \<longleftrightarrow> header_valid h \<and> bs = header_serialise h"
  by (rule header.deserialise_iff)

text \<open>C27. Decoding a header fails with an error exactly when the slice is not 20 bytes long, and
  panics exactly when it is 20 bytes long and the low nibble of the first byte is one of the reserved
  packet types 7 to 15.\<close>

theorem header_deserialise_failures:
  "(\<exists>e. header_deserialise bs = Err e) = (length bs \<noteq> 20) \<and>
   (header_deserialise bs = Panic) = (length bs = 20 \<and> 6 < unat (bs ! 0 AND 0x0f))"
proof -
  have small: "(v :: u8) = 0 \<or> v = 1 \<or> v = 2 \<or> v = 3 \<or> v = 4 \<or> v = 5 \<or> v = 6 \<longleftrightarrow> unat v \<le> 6" for v
    by (simp add: word_unat_eq_iff) arith
  have panics: "6 < unat v \<longleftrightarrow> from_u8 v = Panic" for v
    using small [of v] by (auto simp: from_u8_def split: if_splits)
  show ?thesis
    unfolding panics
    by (cases "from_u8 (bs ! 0 AND 0x0f)")
      (auto simp: header_deserialise_def security_deserialise_Cons)
qed

text \<open>The in-place serialiser agrees with the allocating one.\<close>

lemma header_serialise_into_eq [wire]:
  "header_serialise_into h buf =
     (if length buf < 20 then Panic else Ok (20, header_serialise h @ drop 20 buf))"
proof (cases "length buf < 20")
  case False
  let ?f = "[push_bit 4 (version h) OR type_as_u8 (type_field h)]"
  let ?a = "to_be_bytes 2 (type_specific_payload h)" and ?s = "security_serialise (security_fields h)"
  let ?b = "to_be_bytes 4 (source_connection_id h)" and ?c = "to_be_bytes 4 (destination_connection_id h)"
  let ?d = "to_be_bytes 8 (packet_number h)"
  have s: "[hd ?s] = ?s" by (simp add: security_serialise_eq)
  have "write_at 0 ?f buf = ?f @ drop 1 buf" by (simp add: write_at_0)
  moreover have "write_at 1 ?a (?f @ drop 1 buf) = (?f @ ?a) @ drop 3 buf"
    using write_at_write_at [of ?f 1 ?a buf] False by (simp add: numeral_3_eq_3)
  moreover have "write_at 3 ?s ((?f @ ?a) @ drop 3 buf) = ((?f @ ?a) @ ?s) @ drop 4 buf"
    using write_at_write_at [of "?f @ ?a" 3 ?s buf] False by simp
  moreover have "write_at 4 ?b (((?f @ ?a) @ ?s) @ drop 4 buf) = (((?f @ ?a) @ ?s) @ ?b) @ drop 8 buf"
    using write_at_write_at [of "(?f @ ?a) @ ?s" 4 ?b buf] False by simp
  moreover have "write_at 8 ?c ((((?f @ ?a) @ ?s) @ ?b) @ drop 8 buf) =
      ((((?f @ ?a) @ ?s) @ ?b) @ ?c) @ drop 12 buf"
    using write_at_write_at [of "((?f @ ?a) @ ?s) @ ?b" 8 ?c buf] False by simp
  moreover have "write_at 12 ?d (((((?f @ ?a) @ ?s) @ ?b) @ ?c) @ drop 12 buf) =
      (((((?f @ ?a) @ ?s) @ ?b) @ ?c) @ ?d) @ drop 20 buf"
    using write_at_write_at [of "(((?f @ ?a) @ ?s) @ ?b) @ ?c" 12 ?d buf] False by simp
  ultimately show ?thesis
    using False unfolding header_serialise_into_def Let_def s header_serialise_layout
    by (simp only: if_False append_assoc append_Cons append_Nil)
qed (simp add: header_serialise_into_def)

end
