(* ===== verification/Packet.thy ===== *)
theory Packet
  imports Header
begin

text \<open>
  \<open>bluefin/src/core/packet.rs\<close>: packets, their codec, the builder, and the two datagram parsers:
  \<open>from_bytes\<close> (allocating, cold path) and \<open>from_bytes_into\<close> (hot path, appends to a carrier vector,
  which keeps what was pushed before an error). \<open>Bytes\<close> values are byte lists: a refcounted view and
  a copy have the same contents.
\<close>

record BluefinPacket =
  header :: BluefinHeader
  payload :: Bytes

definition packet_serialise :: "BluefinPacket \<Rightarrow> Bytes" where
  "packet_serialise p = header_serialise (header p) @ payload p"

definition packet_deserialise :: "Bytes \<Rightarrow> BluefinPacket BluefinResult" where
  "packet_deserialise bytes =
     (if length bytes < 20
      then Err (DeserialiseError ''Cannot deserialise into Bluefin packet with less than 20 bytes'')
      else bind_res (header_deserialise (take 20 bytes)) (\<lambda>h.
        Ok \<lparr>header = h, payload = drop 20 bytes\<rparr>))"

definition packet_default :: BluefinPacket where
  "packet_default = \<lparr>header = header_default, payload = []\<rparr>"

definition packet_len :: "BluefinPacket \<Rightarrow> usize" where
  "packet_len p = length (payload p) + 20"

definition packet_serialise_into :: "BluefinPacket \<Rightarrow> Bytes \<Rightarrow> (usize \<times> Bytes) BluefinResult" where
  "packet_serialise_into p buf =
     (let total_len = 20 + length (payload p) in
      if length buf < 20 then Panic
      else bind_res (header_serialise_into (header p) (take 20 buf)) (\<lambda>(_, front).
        let buf = front @ drop 20 buf in
        if length buf < total_len then Panic
        else Ok (total_len, write_at 20 (payload p) buf)))"

section \<open>The builder\<close>

record BluefinPacketBuilder =
  b_header :: "BluefinHeader option"
  b_payload :: "Bytes option"

definition packet_builder :: BluefinPacketBuilder where
  "packet_builder = \<lparr>b_header = None, b_payload = None\<rparr>"

definition builder_header :: "BluefinHeader \<Rightarrow> BluefinPacketBuilder \<Rightarrow> BluefinPacketBuilder" where
  "builder_header h b = b\<lparr>b_header := Some h\<rparr>"

definition builder_payload :: "Bytes \<Rightarrow> BluefinPacketBuilder \<Rightarrow> BluefinPacketBuilder" where
  "builder_payload bs b = b\<lparr>b_payload := Some bs\<rparr>"

definition builder_build :: "BluefinPacketBuilder \<Rightarrow> BluefinPacket BluefinResult" where
  "builder_build b = (case b_header b of
      None \<Rightarrow> Panic
    | Some h \<Rightarrow> Ok \<lparr>header = h, payload = (case b_payload b of None \<Rightarrow> [] | Some bs \<Rightarrow> bs)\<rparr>)"

section \<open>Datagram parsers\<close>

text \<open>The arm of the \<open>match\<close> on \<open>header.type_field\<close> that reads no payload.\<close>

definition header_only :: "PacketType \<Rightarrow> bool" where
  "header_only ty \<longleftrightarrow> ty = Ack \<or> ty = UnencryptedClientHello \<or> ty = UnencryptedServerHello \<or>
     ty = ClientAck \<or> ty = Fin \<or> ty = FinAck"

text \<open>The loop of \<open>from_bytes\<close>: the packets read so far and the final cursor, or the early return.\<close>

function from_bytes_loop ::
    "Bytes \<Rightarrow> nat \<Rightarrow> BluefinPacket list \<Rightarrow> (BluefinPacket list \<times> nat) BluefinResult" where
  "from_bytes_loop bytes cursor packets =
     (if cursor < length bytes \<and> cursor + 20 \<le> length bytes then
        (case header_deserialise (subslice cursor (cursor + 20) bytes) of
           Err e \<Rightarrow> Err e
         | Panic \<Rightarrow> Panic
         | Ok h \<Rightarrow>
             (if header_only (type_field h) then
                from_bytes_loop bytes (cursor + 20) (packets @ [\<lparr>header = h, payload = []\<rparr>])
              else
                let payload_len = unat (type_specific_payload h) in
                if cursor + 20 \<ge> length bytes \<or> cursor + 19 + payload_len \<ge> length bytes
                then Err (ReadError ''Cannot read all bytes specified by header'')
                else from_bytes_loop bytes (cursor + 20 + payload_len)
                  (packets @ [\<lparr>header = h,
                     payload = subslice (cursor + 20) (cursor + 20 + payload_len) bytes\<rparr>])))
      else Ok (packets, cursor))"
  by pat_completeness auto
termination
  by (relation "measure (\<lambda>(bytes, cursor, _). length bytes - cursor)") auto

definition from_bytes :: "Bytes \<Rightarrow> BluefinPacket list BluefinResult" where
  "from_bytes bytes =
     (if length bytes < 20 then Err (ReadError ''Array must be at least 20 bytes'')
      else bind_res (from_bytes_loop bytes 0 []) (\<lambda>(packets, cursor).
        if cursor \<noteq> length bytes
        then Err (ReadError ''Was not able to read all bytes into bluefin packets'')
        else Ok packets))"

text \<open>The loop of \<open>from_bytes_into\<close>: the carrier vector is the caller's, so it is returned on every
  path.\<close>

function from_bytes_into_loop ::
    "Bytes \<Rightarrow> nat \<Rightarrow> BluefinPacket list \<Rightarrow> BluefinPacket list \<times> nat BluefinResult" where
  "from_bytes_into_loop buf cursor packets =
     (if cursor < length buf \<and> cursor + 20 \<le> length buf then
        (case header_deserialise (subslice cursor (cursor + 20) buf) of
           Err e \<Rightarrow> (packets, Err e)
         | Panic \<Rightarrow> (packets, Panic)
         | Ok h \<Rightarrow>
             (if header_only (type_field h) then
                from_bytes_into_loop buf (cursor + 20) (packets @ [\<lparr>header = h, payload = []\<rparr>])
              else
                let payload_len = unat (type_specific_payload h) in
                if cursor + 20 \<ge> length buf \<or> cursor + 19 + payload_len \<ge> length buf
                then (packets, Err (ReadError ''Cannot read all bytes specified by header''))
                else from_bytes_into_loop buf (cursor + 20 + payload_len)
                  (packets @ [\<lparr>header = h,
                     payload = subslice (cursor + 20) (cursor + 20 + payload_len) buf\<rparr>])))
      else (packets, Ok cursor))"
  by pat_completeness auto
termination
  by (relation "measure (\<lambda>(buf, cursor, _). length buf - cursor)") auto

definition from_bytes_into ::
    "Bytes \<Rightarrow> BluefinPacket list \<Rightarrow> BluefinPacket list \<times> usize BluefinResult" where
  "from_bytes_into buf packets =
     (if length buf < 20 then (packets, Err (ReadError ''Array must be at least 20 bytes''))
      else let initial_len = length packets in
        (case from_bytes_into_loop buf 0 packets of
           (packets', Ok cursor) \<Rightarrow>
             (if cursor \<noteq> length buf
              then (packets', Err (ReadError ''Was not able to read all bytes into bluefin packets''))
              else (packets', Ok (length packets' - initial_len)))
         | (packets', Err e) \<Rightarrow> (packets', Err e)
         | (packets', Panic) \<Rightarrow> (packets', Panic)))"

declare from_bytes_loop.simps [simp del] from_bytes_into_loop.simps [simp del]

section \<open>The packet codec\<close>

definition packet_valid :: "BluefinPacket \<Rightarrow> bool" where
  "packet_valid p \<longleftrightarrow> header_valid (header p)"

lemma packet_deserialise_iff:
  "packet_deserialise bs = Ok p \<longleftrightarrow> packet_valid p \<and> bs = packet_serialise p"
proof
  assume a: "packet_deserialise bs = Ok p"
  then have "header_deserialise (take 20 bs) = Ok (header p)" and "payload p = drop 20 bs"
    by (auto simp: packet_deserialise_def bind_res_Ok_iff split: if_splits)
  then show "packet_valid p \<and> bs = packet_serialise p"
    by (simp add: header.deserialise_iff packet_valid_def packet_serialise_def)
      (metis append_take_drop_id)
next
  assume "packet_valid p \<and> bs = packet_serialise p"
  then show "packet_deserialise bs = Ok p"
    by (simp add: packet_deserialise_def packet_serialise_def packet_valid_def
        header.deserialise_serialise)
qed

interpretation packet: serialisable packet_serialise packet_deserialise packet_valid
  by unfold_locales (simp_all add: packet_deserialise_iff)

lemma length_packet_serialise [simp]: "length (packet_serialise p) = packet_len p"
  by (simp add: packet_serialise_def packet_len_def)

lemma packet_serialise_into_eq [wire]:
  "packet_serialise_into p buf =
     (if length buf < packet_len p then Panic
      else Ok (packet_len p, packet_serialise p @ drop (packet_len p) buf))"
  by (simp add: packet_serialise_into_def header_serialise_into_eq packet_serialise_def packet_len_def
      Let_def write_at_def add.commute min_def)

section \<open>What the parsers accept\<close>

text \<open>A packet as it travels: a valid header, and a payload only for the data type, of the length the
  header announces.\<close>

definition wire_packet :: "BluefinPacket \<Rightarrow> bool" where
  "wire_packet p \<longleftrightarrow> packet_valid p \<and>
     (if header_only (type_field (header p)) then payload p = []
      else length (payload p) = unat (type_specific_payload (header p)))"

definition empty_data :: "BluefinPacket \<Rightarrow> bool" where
  "empty_data p \<longleftrightarrow> \<not> header_only (type_field (header p)) \<and> payload p = []"

definition frames :: "BluefinPacket list \<Rightarrow> Bytes" where
  "frames ps = concat (map packet_serialise ps)"

lemma frames_simps [simp]:
  "frames [] = []" "frames (p # ps) = packet_serialise p @ frames ps"
  "frames (ps @ qs) = frames ps @ frames qs"
  by (simp_all add: frames_def)

lemma frames_eq_Nil [simp]: "frames ps = [] \<longleftrightarrow> ps = []"
  by (cases ps) (auto simp: packet_serialise_def simp flip: length_0_conv)

lemma frames_pos: "ps \<noteq> [] \<Longrightarrow> 20 \<le> length (frames ps)"
  by (cases ps) (simp_all add: packet_len_def)

lemma drop_frame_at:
  assumes "header_deserialise (subslice c (c + 20) bs) = Ok h" and "c + 20 + n \<le> length bs"
  shows "drop c bs = packet_serialise \<lparr>header = h, payload = subslice (c + 20) (c + 20 + n) bs\<rparr>
    @ drop (c + 20 + n) bs"
proof -
  have "drop c bs = take 20 (drop c bs) @ take n (drop (c + 20) bs) @ drop (c + 20 + n) bs"
    using append_take_drop_id [of 20 "drop c bs"] append_take_drop_id [of n "drop (c + 20) bs"]
    by (simp add: add.commute add.left_commute)
  moreover have "take 20 (drop c bs) = header_serialise h"
    using assms(1) by (simp add: header.deserialise_iff)
  ultimately show ?thesis by (simp add: packet_serialise_def)
qed

lemma from_bytes_loop_sound:
  "from_bytes_loop bs c acc = Ok (out, c') \<Longrightarrow> c \<le> length bs \<Longrightarrow>
   \<exists>ps. out = acc @ ps \<and> drop c bs = frames ps @ drop c' bs \<and> list_all wire_packet ps \<and>
     c' \<le> length bs \<and> (ps \<noteq> [] \<and> c' = length bs \<longrightarrow> \<not> empty_data (last ps))"
proof (induction bs c acc rule: from_bytes_loop.induct)
  case (1 bs c acc)
  show ?case
  proof (cases "c < length bs \<and> c + 20 \<le> length bs")
    case False
    with "1.prems" show ?thesis by (auto simp: from_bytes_loop.simps [of bs c acc])
  next
    case more: True
    with "1.prems" obtain h where h: "header_deserialise (subslice c (c + 20) bs) = Ok h"
      by (auto simp: from_bytes_loop.simps [of bs c acc] split: BluefinResult.splits)
    have hv: "header_valid h" using h by (simp add: header.deserialise_iff)
    show ?thesis
    proof (cases "header_only (type_field h)")
      case True
      let ?p = "\<lparr>header = h, payload = []\<rparr>"
      have rec: "from_bytes_loop bs (c + 20) (acc @ [?p]) = Ok (out, c')"
        using "1.prems" more h True by (simp add: from_bytes_loop.simps [of bs c acc])
      from "1.IH"(1) [OF more h True rec] more obtain ps where
        ps: "out = (acc @ [?p]) @ ps" "drop (c + 20) bs = frames ps @ drop c' bs"
          "list_all wire_packet ps" "c' \<le> length bs"
          "ps \<noteq> [] \<and> c' = length bs \<longrightarrow> \<not> empty_data (last ps)" by auto
      have "drop c bs = packet_serialise ?p @ drop (c + 20) bs"
        using drop_frame_at [OF h, of 0] more by (simp add: subslice_def)
      moreover have "wire_packet ?p" "\<not> empty_data ?p"
        using hv True by (auto simp: wire_packet_def packet_valid_def empty_data_def)
      ultimately show ?thesis
        using ps by (intro exI [of _ "?p # ps"]) auto
    next
      case False
      let ?n = "unat (type_specific_payload h)"
      let ?p = "\<lparr>header = h, payload = subslice (c + 20) (c + 20 + ?n) bs\<rparr>"
      have room: "\<not> (length bs \<le> c + 20 \<or> length bs \<le> c + 19 + ?n)"
        using "1.prems" more h False
        by (auto simp: from_bytes_loop.simps [of bs c acc] Let_def split: if_splits)
      have rec: "from_bytes_loop bs (c + 20 + ?n) (acc @ [?p]) = Ok (out, c')"
        using "1.prems" more h False room by (simp add: from_bytes_loop.simps [of bs c acc] Let_def)
      from "1.IH"(2) [OF more h False refl room rec] room obtain ps where
        ps: "out = (acc @ [?p]) @ ps" "drop (c + 20 + ?n) bs = frames ps @ drop c' bs"
          "list_all wire_packet ps" "c' \<le> length bs"
          "ps \<noteq> [] \<and> c' = length bs \<longrightarrow> \<not> empty_data (last ps)" by auto
      have "drop c bs = packet_serialise ?p @ drop (c + 20 + ?n) bs"
        using drop_frame_at [OF h, of ?n] room by simp
      moreover have "wire_packet ?p"
        using hv False room by (auto simp: wire_packet_def packet_valid_def)
      moreover have "ps = [] \<and> c' = length bs \<longrightarrow> \<not> empty_data ?p"
      proof (intro impI)
        assume a: "ps = [] \<and> c' = length bs"
        then have "length bs \<le> c + 20 + ?n" using ps(2) by simp
        then have "0 < ?n" using room by simp
        then show "\<not> empty_data ?p" using room by (simp add: empty_data_def flip: length_greater_0_conv)
      qed
      ultimately show ?thesis
        using ps by (intro exI [of _ "?p # ps"]) auto
    qed
  qed
qed

lemma take_packet_serialise [simp]: "take 20 (packet_serialise p) = header_serialise (header p)"
  by (simp add: packet_serialise_def)

lemma drop_packet_serialise [simp]: "drop 20 (packet_serialise p) = payload p"
  by (simp add: packet_serialise_def)

lemma subslice_frame_payload [simp]:
  "subslice (length pre + 20) (length pre + 20 + length (payload p)) (pre @ packet_serialise p @ rest)
   = payload p"
  by (simp add: subslice_def packet_serialise_def)

lemma bare_packet_eq: "payload p = [] \<Longrightarrow> \<lparr>header = header p, payload = []\<rparr> = p"
  by (cases p) simp

lemma from_bytes_loop_complete:
  "list_all wire_packet ps \<Longrightarrow> (ps \<noteq> [] \<longrightarrow> \<not> empty_data (last ps)) \<Longrightarrow>
   from_bytes_loop (pre @ frames ps) (length pre) acc = Ok (acc @ ps, length (pre @ frames ps))"
proof (induction ps arbitrary: pre acc)
  case Nil
  then show ?case by (simp add: from_bytes_loop.simps)
next
  case (Cons p ps)
  let ?bs = "pre @ packet_serialise p @ frames ps"
  have p: "wire_packet p" and h: "header_deserialise (header_serialise (header p)) = Ok (header p)"
    using Cons.prems by (simp_all add: wire_packet_def packet_valid_def header.deserialise_serialise)
  have IH: "from_bytes_loop ?bs (length (pre @ packet_serialise p)) (acc @ [p])
      = Ok ((acc @ [p]) @ ps, length ?bs)"
    using Cons.IH [of "pre @ packet_serialise p" "acc @ [p]"] Cons.prems by (auto split: if_splits)
  have pos: "empty_data p \<Longrightarrow> 20 \<le> length (frames ps)"
    using Cons.prems by (intro frames_pos) auto
  show ?case
  proof (cases "header_only (type_field (header p))")
    case True
    then have "payload p = []"
      using p by (simp add: wire_packet_def)
    with True h IH show ?thesis
      by (simp add: bare_packet_eq from_bytes_loop.simps [of ?bs "length pre"] packet_len_def)
  next
    case False
    then have "unat (type_specific_payload (header p)) = length (payload p)"
      using p by (simp add: wire_packet_def)
    moreover have "0 < length (payload p) \<or> 20 \<le> length (frames ps)"
      using pos False by (auto simp: empty_data_def)
    moreover have "\<lparr>header = header p, payload = subslice (length pre + 20)
        (length pre + (length (payload p) + 20)) ?bs\<rparr> = p"
      using subslice_frame_payload [of pre p "frames ps"] by (simp add: add.commute add.left_commute)
    ultimately show ?thesis
      using False h IH by (auto simp: from_bytes_loop.simps [of ?bs "length pre"] packet_len_def
        Let_def add.assoc add.commute add.left_commute)
  qed
qed

lemma from_bytes_iff:
  "from_bytes bs = Ok ps \<longleftrightarrow>
     bs = frames ps \<and> ps \<noteq> [] \<and> list_all wire_packet ps \<and> \<not> empty_data (last ps)"
proof
  assume a: "from_bytes bs = Ok ps"
  then have len: "20 \<le> length bs" and "from_bytes_loop bs 0 [] = Ok (ps, length bs)"
    by (auto simp: from_bytes_def bind_res_Ok_iff split: if_splits)
  from from_bytes_loop_sound [OF this(2)] len
  show "bs = frames ps \<and> ps \<noteq> [] \<and> list_all wire_packet ps \<and> \<not> empty_data (last ps)" by auto
next
  assume a: "bs = frames ps \<and> ps \<noteq> [] \<and> list_all wire_packet ps \<and> \<not> empty_data (last ps)"
  then have "from_bytes_loop bs 0 [] = Ok (ps, length bs)"
    using from_bytes_loop_complete [of ps "[]" "[]"] by simp
  moreover have "20 \<le> length bs" using a frames_pos by simp
  ultimately show "from_bytes bs = Ok ps" by (simp add: from_bytes_def)
qed

section \<open>The two parsers agree\<close>

lemma from_bytes_into_loop_sim:
  "(case from_bytes_loop bs c acc of
      Ok (out, c') \<Rightarrow> \<exists>ps. out = acc @ ps \<and> from_bytes_into_loop bs c carrier = (carrier @ ps, Ok c')
    | Err e \<Rightarrow> \<exists>ps. from_bytes_into_loop bs c carrier = (carrier @ ps, Err e)
    | Panic \<Rightarrow> \<exists>ps. from_bytes_into_loop bs c carrier = (carrier @ ps, Panic))"
proof (induction bs c acc arbitrary: carrier rule: from_bytes_loop.induct)
  case (1 bs c acc)
  note unfold = from_bytes_loop.simps [of bs c acc] from_bytes_into_loop.simps [of bs c carrier]
  show ?case
  proof (cases "c < length bs \<and> c + 20 \<le> length bs")
    case False
    then show ?thesis by (auto simp: unfold)
  next
    case more: True
    show ?thesis
    proof (cases "header_deserialise (subslice c (c + 20) bs)")
      case (Ok h)
      let ?n = "unat (type_specific_payload h)"
      let ?p = "\<lparr>header = h, payload = subslice (c + 20) (c + 20 + ?n) bs\<rparr>"
      consider (bare) "header_only (type_field h)"
        | (short) "\<not> header_only (type_field h)" "length bs \<le> c + 20 \<or> length bs \<le> c + 19 + ?n"
        | (data) "\<not> header_only (type_field h)" "\<not> (length bs \<le> c + 20 \<or> length bs \<le> c + 19 + ?n)"
        by blast
      then show ?thesis
      proof cases
        case bare
        with "1.IH"(1) [OF more Ok bare, of "carrier @ [\<lparr>header = h, payload = []\<rparr>]"] more Ok
        show ?thesis by (auto simp: unfold split: BluefinResult.splits)
      next
        case short
        with more Ok show ?thesis by (auto simp: unfold)
      next
        case data
        with "1.IH"(2) [OF more Ok data(1) refl data(2), of "carrier @ [?p]"] more Ok
        show ?thesis by (auto simp: unfold Let_def split: BluefinResult.splits)
      qed
    qed (use more in \<open>auto simp: unfold\<close>)
  qed
qed

lemma from_bytes_into_eq:
  "(case from_bytes bs of
      Ok ps \<Rightarrow> from_bytes_into bs carrier = (carrier @ ps, Ok (length ps))
    | Err e \<Rightarrow> \<exists>ps. from_bytes_into bs carrier = (carrier @ ps, Err e)
    | Panic \<Rightarrow> \<exists>ps. from_bytes_into bs carrier = (carrier @ ps, Panic))"
  using from_bytes_into_loop_sim [where bs = bs and c = 0 and acc = "[]" and carrier = carrier]
  by (auto simp: from_bytes_def from_bytes_into_def Let_def split: BluefinResult.splits if_splits)

text \<open>C4. The datagram parser accepts exactly the concatenations of well-formed packet frames whose last
  packet is not an empty data packet, and returns the packets of that (hence unique) decomposition.\<close>

theorem from_bytes_characterisation:
  "from_bytes bs = Ok ps \<longleftrightarrow>
     bs = frames ps \<and> ps \<noteq> [] \<and> list_all wire_packet ps \<and> \<not> empty_data (last ps)"
  by (rule from_bytes_iff)

text \<open>C13. The hot-path parser \<open>from_bytes_into\<close> is equivalent to \<open>from_bytes\<close>: it appends the same packets to
  the carrier and returns their number, or fails with the same error (or panic), leaving what the carrier
  held in place.\<close>

theorem from_bytes_into_equiv:
  "(case from_bytes bs of
      Ok ps \<Rightarrow> from_bytes_into bs carrier = (carrier @ ps, Ok (length ps))
    | Err e \<Rightarrow> \<exists>ps. from_bytes_into bs carrier = (carrier @ ps, Err e)
    | Panic \<Rightarrow> \<exists>ps. from_bytes_into bs carrier = (carrier @ ps, Panic))"
  by (rule from_bytes_into_eq)

end
