(* ===== verification/Ordered_Bytes.thy ===== *)
theory Ordered_Bytes
  imports Packet "HOL-Library.Multiset"
begin

text \<open>
  \<open>bluefin/src/net/ordered_bytes.rs\<close>: the reassembly buffer, a circular array of 2000 optional packets,
  the index and the packet number of its first slot, and the carry-over of a partially read payload.
  \<open>view\<close> is the array read from the first slot on, \<open>stream\<close> the bytes a reader can take: the carry-over and
  the payloads up to the first gap. The locale \<open>byte_source\<close> is the contract of a source that hands out a
  stream in pieces; \<open>consume\<close> implements it.
\<close>

section \<open>A source of bytes\<close>

fun read_all :: "(usize \<Rightarrow> 's \<Rightarrow> 's \<times> Bytes) \<Rightarrow> usize list \<Rightarrow> 's \<Rightarrow> 's \<times> Bytes" where
  "read_all rd [] s = (s, [])"
| "read_all rd (n # ns) s = (case rd n s of (s', a) \<Rightarrow> (case read_all rd ns s' of (s'', b) \<Rightarrow> (s'', a @ b)))"

locale byte_source =
  fixes inv :: "'s \<Rightarrow> bool" and avail :: "'s \<Rightarrow> Bytes" and rd :: "usize \<Rightarrow> 's \<Rightarrow> 's \<times> Bytes"
  assumes rd_inv: "inv s \<Longrightarrow> 0 < n \<Longrightarrow> inv (fst (rd n s))"
    and rd_out: "inv s \<Longrightarrow> 0 < n \<Longrightarrow> snd (rd n s) = take n (avail s)"
    and rd_avail: "inv s \<Longrightarrow> 0 < n \<Longrightarrow> avail (fst (rd n s)) = drop n (avail s)"
begin

lemma read_all_prefix:
  "inv s \<Longrightarrow> 0 \<notin> set ns \<Longrightarrow>
   inv (fst (read_all rd ns s)) \<and> snd (read_all rd ns s) = take (sum_list ns) (avail s) \<and>
   avail (fst (read_all rd ns s)) = drop (sum_list ns) (avail s)"
proof (induction ns arbitrary: s)
  case (Cons n ns)
  then have "0 < n" by simp
  note 1 = rd_inv [OF Cons.prems(1) this] rd_out [OF Cons.prems(1) this] rd_avail [OF Cons.prems(1) this]
  show ?case
    using Cons.IH [OF 1(1)] Cons.prems(2) 1(2,3)
    by (simp add: split_beta take_add add.commute)
qed simp

end

section \<open>The buffer\<close>

definition MAX_BUFFER_SIZE :: usize where
  "MAX_BUFFER_SIZE = 2000"

lemma MAX_BUFFER_SIZE_pos [simp]: "0 < MAX_BUFFER_SIZE"
  by (simp add: MAX_BUFFER_SIZE_def)

definition wrap_index :: "usize \<Rightarrow> usize \<Rightarrow> usize" where
  "wrap_index base offset =
     (let raw = base + offset in if raw \<ge> MAX_BUFFER_SIZE then raw - MAX_BUFFER_SIZE else raw)"

record OrderedBytes =
  conn_id :: u32
  packets :: "BluefinPacket option list"
  smallest_packet_number_index :: usize
  smallest_packet_number :: u64
  carry_over_bytes :: "Bytes option"

record ConsumeResult =
  num_packets_consumed :: usize
  base_packet_number :: u64
  bytes_consumed :: u64

definition ordered_bytes_new :: "u32 \<Rightarrow> u64 \<Rightarrow> OrderedBytes" where
  "ordered_bytes_new cid start_packet_number =
     \<lparr>conn_id = cid, packets = replicate MAX_BUFFER_SIZE None, smallest_packet_number_index = 0,
      smallest_packet_number = start_packet_number, carry_over_bytes = None\<rparr>"

definition set_start_packet_number :: "u64 \<Rightarrow> OrderedBytes \<Rightarrow> OrderedBytes" where
  "set_start_packet_number n ob = ob\<lparr>smallest_packet_number := n\<rparr>"

definition buffer_in_packet :: "BluefinPacket \<Rightarrow> OrderedBytes \<Rightarrow> OrderedBytes \<times> unit BluefinResult" where
  "buffer_in_packet p ob =
     (let packet_num = packet_number (header p) in
      if packet_num < smallest_packet_number ob then (ob, Err UnexpectedPacketNumberError)
      else let offset = unat (packet_num - smallest_packet_number ob) in
        if offset \<ge> MAX_BUFFER_SIZE then (ob, Err (BufferFullError ''Ordered bytes buffer full''))
        else let index = wrap_index (smallest_packet_number_index ob) offset in
          if index \<ge> length (packets ob) then (ob, Panic)
          else if packets ob ! index \<noteq> None
          then (ob, Err (Unexpected ''Already buffered in packet with packet number''))
          else (ob\<lparr>packets := (packets ob)[index := Some p]\<rparr>, Ok ()))"

definition ordered_bytes_peek :: "OrderedBytes \<Rightarrow> unit BluefinResult" where
  "ordered_bytes_peek ob =
     (if carry_over_bytes ob \<noteq> None then Ok ()
      else if smallest_packet_number_index ob \<ge> length (packets ob) then Panic
      else if packets ob ! smallest_packet_number_index ob \<noteq> None then Ok ()
      else Err BufferEmptyError)"

text \<open>The end of one loop iteration of both consumers: the slot is vacated and the next number expected.\<close>

definition retire_slot :: "usize \<Rightarrow> u64 \<Rightarrow> OrderedBytes \<Rightarrow> OrderedBytes" where
  "retire_slot slot packet_num ob =
     ob\<lparr>packets := (packets ob)[slot := None], smallest_packet_number := packet_num + 1,
        smallest_packet_number_index := wrap_index (smallest_packet_number_index ob) 1\<rparr>"

text \<open>The loop of \<open>consume\<close> from iteration \<open>ix\<close> on: the buffer, the caller's slice, and the final \<open>ix\<close> and
  \<open>num_bytes\<close>. Copying into a slice that is too short panics.\<close>

function consume_loop :: "usize \<Rightarrow> usize \<Rightarrow> usize \<Rightarrow> usize \<Rightarrow> usize \<Rightarrow> Bytes \<Rightarrow> OrderedBytes \<Rightarrow>
    OrderedBytes \<times> Bytes \<times> (usize \<times> usize) BluefinResult" where
  "consume_loop len base ix num_bytes writer_ix buf ob =
     (if ix < MAX_BUFFER_SIZE then
        let slot = wrap_index base ix in
        if slot \<ge> length (packets ob) then (ob, buf, Panic)
        else case packets ob ! slot of
            None \<Rightarrow> (ob, buf, Ok (ix, num_bytes))
          | Some packet \<Rightarrow>
              if num_bytes < len then
                let packet_num = packet_number (header packet);
                    bytes_remaining = len - num_bytes;
                    payload_len = length (payload packet) in
                if payload_len > bytes_remaining then
                  if writer_ix + bytes_remaining > length buf then (ob, buf, Panic)
                  else consume_loop len base (ix + 1) (num_bytes + bytes_remaining) (writer_ix + bytes_remaining)
                    (write_at writer_ix (take bytes_remaining (payload packet)) buf)
                    (retire_slot slot packet_num
                      (ob\<lparr>carry_over_bytes := Some (drop bytes_remaining (payload packet))\<rparr>))
                else
                  if writer_ix + payload_len > length buf then (ob, buf, Panic)
                  else consume_loop len base (ix + 1) (num_bytes + payload_len) (writer_ix + payload_len)
                    (write_at writer_ix (payload packet) buf) (retire_slot slot packet_num ob)
              else (ob, buf, Ok (ix, num_bytes))
      else (ob, buf, Ok (ix, num_bytes)))"
  by pat_completeness auto
termination
  by (relation "measure (\<lambda>(_, _, ix, _). MAX_BUFFER_SIZE - ix)") auto

declare consume_loop.simps [simp del]

definition first_packet_number :: "OrderedBytes \<Rightarrow> u64" where
  "first_packet_number ob = (case packets ob ! smallest_packet_number_index ob of
      Some p \<Rightarrow> packet_number (header p) | None \<Rightarrow> 0)"

definition consume_packets :: "usize \<Rightarrow> usize \<Rightarrow> usize \<Rightarrow> Bytes \<Rightarrow> OrderedBytes \<Rightarrow>
    OrderedBytes \<times> Bytes \<times> ConsumeResult BluefinResult" where
  "consume_packets len num_bytes writer_ix buf ob =
     (let base = smallest_packet_number_index ob in
      if base \<ge> length (packets ob) then (ob, buf, Panic)
      else let base_num = first_packet_number ob in
        (case consume_loop len base 0 num_bytes writer_ix buf ob of
           (ob', buf', Ok (ix, num_bytes')) \<Rightarrow>
             (if num_bytes' = 0 then (ob', buf', Err BufferEmptyError)
              else (ob', buf', Ok \<lparr>num_packets_consumed = ix, base_packet_number = base_num,
                                  bytes_consumed = of_nat num_bytes'\<rparr>))
         | (ob', buf', Err e) \<Rightarrow> (ob', buf', Err e)
         | (ob', buf', Panic) \<Rightarrow> (ob', buf', Panic)))"

definition consume :: "usize \<Rightarrow> Bytes \<Rightarrow> OrderedBytes \<Rightarrow> OrderedBytes \<times> Bytes \<times> ConsumeResult BluefinResult" where
  "consume len buf ob = (case carry_over_bytes ob of
      None \<Rightarrow> consume_packets len 0 0 buf ob
    | Some c_bytes \<Rightarrow>
        if length c_bytes \<le> len then
          if length c_bytes > length buf then (ob, buf, Panic)
          else consume_packets len (length c_bytes) (length c_bytes) (write_at 0 c_bytes buf)
            (ob\<lparr>carry_over_bytes := None\<rparr>)
        else if len > length buf then (ob, buf, Panic)
        else (ob\<lparr>carry_over_bytes := Some (drop len c_bytes)\<rparr>, write_at 0 (take len c_bytes) buf,
              Ok \<lparr>num_packets_consumed = 0, base_packet_number = 0, bytes_consumed = of_nat len\<rparr>))"

text \<open>The loop of \<open>consume_bytes\<close>: \<open>total_bytes\<close> is the \<open>u64\<close> byte count.\<close>

function consume_bytes_loop :: "usize \<Rightarrow> usize \<Rightarrow> usize \<Rightarrow> usize \<Rightarrow> u64 \<Rightarrow> Bytes list \<Rightarrow> OrderedBytes \<Rightarrow>
    OrderedBytes \<times> Bytes list \<times> (usize \<times> u64) BluefinResult" where
  "consume_bytes_loop initial_len max_packets base ix total_bytes out ob =
     (if ix < MAX_BUFFER_SIZE \<and> length out - initial_len < max_packets then
        let slot = wrap_index base ix in
        if slot \<ge> length (packets ob) then (ob, out, Panic)
        else case packets ob ! slot of
            None \<Rightarrow> (ob, out, Ok (ix, total_bytes))
          | Some packet \<Rightarrow> consume_bytes_loop initial_len max_packets base (ix + 1)
              (total_bytes + of_nat (length (payload packet))) (out @ [payload packet])
              (retire_slot slot (packet_number (header packet)) ob)
      else (ob, out, Ok (ix, total_bytes)))"
  by pat_completeness auto
termination
  by (relation "measure (\<lambda>(_, _, _, ix, _). MAX_BUFFER_SIZE - ix)") auto

declare consume_bytes_loop.simps [simp del]

definition consume_bytes :: "Bytes list \<Rightarrow> usize \<Rightarrow> OrderedBytes \<Rightarrow>
    OrderedBytes \<times> Bytes list \<times> ConsumeResult BluefinResult" where
  "consume_bytes out max_packets ob =
     (let initial_len = length out;
          (total_bytes, out1) = (case carry_over_bytes ob of
              Some c \<Rightarrow> (of_nat (length c), out @ [c]) | None \<Rightarrow> (0, out));
          ob1 = ob\<lparr>carry_over_bytes := None\<rparr>;
          base = smallest_packet_number_index ob1 in
      if base \<ge> length (packets ob1) then (ob1, out1, Panic)
      else let base_num = first_packet_number ob1 in
        (case consume_bytes_loop initial_len max_packets base 0 total_bytes out1 ob1 of
           (ob', out', Ok (ix, total_bytes')) \<Rightarrow>
             (if length out' = initial_len then (ob', out', Err BufferEmptyError)
              else (ob', out', Ok \<lparr>num_packets_consumed = ix, base_packet_number = base_num,
                                  bytes_consumed = total_bytes'\<rparr>))
         | (ob', out', Err e) \<Rightarrow> (ob', out', Err e)
         | (ob', out', Panic) \<Rightarrow> (ob', out', Panic)))"

section \<open>The view from the first slot\<close>

definition view :: "OrderedBytes \<Rightarrow> BluefinPacket option list" where
  "view ob = rotate (smallest_packet_number_index ob) (packets ob)"

definition contiguous :: "OrderedBytes \<Rightarrow> BluefinPacket list" where
  "contiguous ob = map the (takeWhile (\<lambda>x. x \<noteq> None) (view ob))"

definition carried :: "OrderedBytes \<Rightarrow> Bytes" where
  "carried ob = (case carry_over_bytes ob of None \<Rightarrow> [] | Some c \<Rightarrow> c)"

definition stream :: "OrderedBytes \<Rightarrow> Bytes" where
  "stream ob = carried ob @ concat (map payload (contiguous ob))"

text \<open>Slot \<open>off\<close> of the view holds the packet numbered \<open>off\<close> above the smallest number, if any; the sum does not
  pass \<open>u64::MAX\<close>. A carry-over is never empty.\<close>

definition ob_wf :: "OrderedBytes \<Rightarrow> bool" where
  "ob_wf ob \<longleftrightarrow> length (packets ob) = MAX_BUFFER_SIZE \<and> smallest_packet_number_index ob < MAX_BUFFER_SIZE \<and>
     carry_over_bytes ob \<noteq> Some [] \<and>
     (\<forall>off p. off < MAX_BUFFER_SIZE \<longrightarrow> view ob ! off = Some p \<longrightarrow>
        unat (packet_number (header p)) = unat (smallest_packet_number ob) + off)"

lemma wrap_index_mod: "base < MAX_BUFFER_SIZE \<Longrightarrow> off < MAX_BUFFER_SIZE \<Longrightarrow>
    wrap_index base off = (base + off) mod MAX_BUFFER_SIZE"
  by (simp add: wrap_index_def Let_def mod_if)

lemma length_view [simp]: "length (view ob) = length (packets ob)"
  by (simp add: view_def)

lemma view_nth: "off < length (packets ob) \<Longrightarrow>
    view ob ! off = packets ob ! ((smallest_packet_number_index ob + off) mod length (packets ob))"
  by (simp add: view_def nth_rotate)

lemma view_at: "ob_wf ob \<Longrightarrow> off < MAX_BUFFER_SIZE \<Longrightarrow>
    view ob ! off = packets ob ! wrap_index (smallest_packet_number_index ob) off"
  by (simp add: view_nth wrap_index_mod ob_wf_def)

lemma view_Cons: "ob_wf ob \<Longrightarrow> view ob = packets ob ! smallest_packet_number_index ob # tl (view ob)"
  using view_at [of ob 0]
  by (cases "view ob") (auto simp: ob_wf_def wrap_index_def Let_def simp flip: length_0_conv)

lemma ordered_bytes_new_wf [wf_keep]: "ob_wf (ordered_bytes_new cid n)"
  "view (ordered_bytes_new cid n) = replicate MAX_BUFFER_SIZE None" "stream (ordered_bytes_new cid n) = []"
  by (simp_all add: ob_wf_def ordered_bytes_new_def view_def stream_def carried_def contiguous_def
      takeWhile_replicate)

lemma set_start_packet_number_wf [wf_keep]:
  "ob_wf ob \<Longrightarrow> view ob = replicate MAX_BUFFER_SIZE None \<Longrightarrow> ob_wf (set_start_packet_number n ob)"
  by (simp add: ob_wf_def set_start_packet_number_def view_def)

lemma view_carry [simp]: "view (ob\<lparr>carry_over_bytes := c\<rparr>) = view ob"
  by (simp add: view_def)

lemma contiguous_carry [simp]: "contiguous (ob\<lparr>carry_over_bytes := c\<rparr>) = contiguous ob"
  by (simp add: contiguous_def)

lemma ob_wf_carry: "ob_wf ob \<Longrightarrow> c \<noteq> Some [] \<Longrightarrow> ob_wf (ob\<lparr>carry_over_bytes := c\<rparr>)"
  by (simp add: ob_wf_def)

section \<open>Buffering a packet\<close>

text \<open>The circular array updated at the wrapped index is the view updated at the offset.\<close>

lemma view_update:
  assumes wf: "ob_wf ob" and off: "off < MAX_BUFFER_SIZE"
  shows "view (ob\<lparr>packets := (packets ob)[wrap_index (smallest_packet_number_index ob) off := x]\<rparr>) = (view ob)[off := x]"
proof (rule nth_equalityI)
  fix i assume "i < length (view (ob\<lparr>packets := (packets ob)[wrap_index (smallest_packet_number_index ob) off := x]\<rparr>))"
  with wf have i: "i < MAX_BUFFER_SIZE" and b: "smallest_packet_number_index ob < MAX_BUFFER_SIZE"
    "length (packets ob) = MAX_BUFFER_SIZE" by (auto simp: ob_wf_def)
  have "(smallest_packet_number_index ob + i) mod MAX_BUFFER_SIZE = (smallest_packet_number_index ob + off) mod MAX_BUFFER_SIZE
      \<longleftrightarrow> i = off"
    using i off mod_add_inj by metis
  with i off b show "view (ob\<lparr>packets := (packets ob)[wrap_index (smallest_packet_number_index ob) off := x]\<rparr>) ! i
      = (view ob)[off := x] ! i"
    by (auto simp: view_nth wrap_index_mod nth_list_update)
qed simp

text \<open>What buffering does to the view.\<close>

lemma buffer_in_packet_ref:
  fixes p :: BluefinPacket
  assumes wf: "ob_wf ob"
  defines "off \<equiv> unat (packet_number (header p) - smallest_packet_number ob)"
  shows "buffer_in_packet p ob =
    (if packet_number (header p) < smallest_packet_number ob then (ob, Err UnexpectedPacketNumberError)
     else if off \<ge> MAX_BUFFER_SIZE then (ob, Err (BufferFullError ''Ordered bytes buffer full''))
     else if view ob ! off \<noteq> None
     then (ob, Err (Unexpected ''Already buffered in packet with packet number''))
     else (ob\<lparr>packets := (packets ob)[wrap_index (smallest_packet_number_index ob) off := Some p]\<rparr>, Ok ()))"
proof -
  have "wrap_index (smallest_packet_number_index ob) off < length (packets ob)" if "off < MAX_BUFFER_SIZE"
    using wf that by (simp add: ob_wf_def wrap_index_mod)
  with view_at [OF wf, of off] show ?thesis
    unfolding buffer_in_packet_def Let_def off_def [symmetric]
    by (cases "off < MAX_BUFFER_SIZE") (simp_all add: not_le)
qed

lemma buffer_in_packet_view:
  assumes "ob_wf ob" and "buffer_in_packet p ob = (ob', r)"
  shows "view ob' = (if r = Ok () then (view ob)[unat (packet_number (header p) - smallest_packet_number ob) := Some p] else view ob)"
    and "smallest_packet_number ob' = smallest_packet_number ob" and "carry_over_bytes ob' = carry_over_bytes ob"
    and "r = Ok () \<longleftrightarrow> smallest_packet_number ob \<le> packet_number (header p) \<and>
      unat (packet_number (header p) - smallest_packet_number ob) < MAX_BUFFER_SIZE \<and>
      view ob ! unat (packet_number (header p) - smallest_packet_number ob) = None"
    and "r \<noteq> Panic"
  using assms(2) view_update [OF assms(1)] unfolding buffer_in_packet_ref [OF assms(1)]
  by (auto simp: not_less not_le split: if_splits)

lemma buffer_in_packet_wf [wf_keep]:
  assumes "ob_wf ob" and "buffer_in_packet p ob = (ob', r)"
  shows "ob_wf ob'"
proof (cases "r = Ok ()")
  case False
  then have "ob' = ob" using assms(2) unfolding buffer_in_packet_ref [OF assms(1)] by (auto split: if_splits)
  with assms show ?thesis by simp
next
  case True
  note b = buffer_in_packet_view [OF assms]
  have "unat (packet_number (header p)) = unat (smallest_packet_number ob) + unat (packet_number (header p) - smallest_packet_number ob)"
    using b(4) True by (simp add: unat_sub word_le_nat_alt)
  moreover have "length (packets ob') = length (packets ob)" "smallest_packet_number_index ob' = smallest_packet_number_index ob"
    using assms(2) unfolding buffer_in_packet_ref [OF assms(1)] by (auto split: if_splits)
  moreover have "view ob' ! off = (if unat (packet_number (header p) - smallest_packet_number ob) = off
      then Some p else view ob ! off)" if "off < MAX_BUFFER_SIZE" for off
    using that b(1) True assms(1) by (simp add: ob_wf_def nth_list_update)
  ultimately show ?thesis
    using assms(1) b(2,3) by (auto simp: ob_wf_def split: if_splits)
qed

section \<open>Retiring the first slot\<close>

lemma retire_slot_view:
  assumes wf: "ob_wf ob"
  shows "view (retire_slot (smallest_packet_number_index ob) n ob) = tl (view ob) @ [None]"
proof -
  let ?i = "smallest_packet_number_index ob" and ?ps = "(packets ob)[smallest_packet_number_index ob := None]"
  have i: "?i < MAX_BUFFER_SIZE" "length (packets ob) = MAX_BUFFER_SIZE" using wf by (auto simp: ob_wf_def)
  have "1 < MAX_BUFFER_SIZE" by (simp add: MAX_BUFFER_SIZE_def)
  then have "view (retire_slot ?i n ob) = rotate ((?i + 1) mod length ?ps) ?ps"
    using i by (simp add: view_def retire_slot_def wrap_index_mod)
  also have "\<dots> = rotate1 (rotate ?i ?ps)"
    using rotate_conv_mod [of "Suc ?i" ?ps] by simp
  also have "rotate ?i ?ps = (view ob)[0 := None]"
    using view_update [OF wf, of 0 None] i by (simp add: view_def wrap_index_def Let_def)
  also have "\<dots> = None # tl (view ob)" by (subst view_Cons [OF wf]) simp
  finally show ?thesis by simp
qed

lemma retire_slot_carry [simp]: "carry_over_bytes (retire_slot i n ob) = carry_over_bytes ob"
  by (simp add: retire_slot_def)

lemma first_packet_wf:
  "ob_wf ob \<Longrightarrow> packets ob ! smallest_packet_number_index ob = Some p \<Longrightarrow> packet_number (header p) = smallest_packet_number ob"
  using view_at [of ob 0]
  by (force simp: ob_wf_def wrap_index_def Let_def intro: unsigned_word_eqI)

lemma takeWhile_snoc_False: "\<not> P x \<Longrightarrow> takeWhile P (xs @ [x]) = takeWhile P xs"
  by (induction xs) auto

lemma retire_slot_wf [wf_keep]:
  assumes wf: "ob_wf ob" and p: "packets ob ! smallest_packet_number_index ob = Some p"
  defines "ob1 \<equiv> retire_slot (smallest_packet_number_index ob) (packet_number (header p)) ob"
  shows "ob_wf ob1" and "smallest_packet_number ob1 = smallest_packet_number ob + 1"
    and "contiguous ob = p # contiguous ob1"
proof -
  have num: "packet_number (header p) = smallest_packet_number ob" by (rule first_packet_wf [OF wf p])
  then show s1: "smallest_packet_number ob1 = smallest_packet_number ob + 1" by (simp add: ob1_def retire_slot_def)
  have v: "view ob1 = tl (view ob) @ [None]" unfolding ob1_def by (rule retire_slot_view [OF wf])
  show "contiguous ob = p # contiguous ob1"
    unfolding contiguous_def v by (subst view_Cons [OF wf]) (simp add: p takeWhile_snoc_False)
  have "unat (packet_number (header q)) = unat (smallest_packet_number ob1) + off"
    if off: "off < MAX_BUFFER_SIZE" and q: "view ob1 ! off = Some q" for off q
  proof -
    have len: "length (view ob) = MAX_BUFFER_SIZE" using wf by (simp add: ob_wf_def)
    have "off < length (tl (view ob))" using q off len v by (auto simp: nth_append split: if_splits)
    then have "Suc off < MAX_BUFFER_SIZE" "view ob ! Suc off = Some q"
      using q v len by (auto simp: nth_append nth_tl)
    then have *: "unat (packet_number (header q)) = unat (smallest_packet_number ob) + Suc off"
      using wf unfolding ob_wf_def by blast
    then have "unat (smallest_packet_number ob) + 1 < 2 ^ 64"
      using unat_bound [of "packet_number (header q)"] by simp
    then have "unat (smallest_packet_number ob1) = unat (smallest_packet_number ob) + 1"
      by (simp add: s1 unat_word_ariths)
    with * show ?thesis by simp
  qed
  moreover have "wrap_index (smallest_packet_number_index ob) 1 < MAX_BUFFER_SIZE"
    using wf by (auto simp: ob_wf_def wrap_index_def Let_def)
  ultimately show "ob_wf ob1"
    using wf by (simp add: ob_wf_def) (simp add: ob1_def retire_slot_def)
qed

section \<open>Reading into a slice\<close>

lemma write_at_append:
  "i + length a + length b \<le> length buf \<Longrightarrow> write_at (i + length a) b (write_at i a buf) = write_at i (a @ b) buf"
  by (simp add: write_at_def ac_simps)

lemma stream_no_carry: "carry_over_bytes ob = None \<Longrightarrow> stream ob = concat (map payload (contiguous ob))"
  by (simp add: stream_def carried_def)

text \<open>One iteration of the loop of \<open>consume\<close>, the two arms of its \<open>if\<close> taken together: \<open>m\<close> bytes are written.\<close>

lemma consume_loop_step:
  assumes wf: "ob_wf ob" and ix: "ix < MAX_BUFFER_SIZE" and slot: "smallest_packet_number_index ob = wrap_index base ix"
    and p: "packets ob ! smallest_packet_number_index ob = Some p" and more: "num < len" "len \<le> length buf"
    and nc: "carry_over_bytes ob = None"
  defines "m \<equiv> min (len - num) (length (payload p))"
  defines "ob1 \<equiv> retire_slot (smallest_packet_number_index ob) (packet_number (header p))
    (ob\<lparr>carry_over_bytes := if len - num < length (payload p) then Some (drop (len - num) (payload p)) else None\<rparr>)"
  shows "consume_loop len base ix num num buf ob =
      consume_loop len base (Suc ix) (num + m) (num + m) (write_at num (take m (payload p)) buf) ob1"
    and "ob_wf ob1" and "stream ob1 = drop m (stream ob)" and "take m (payload p) = take m (stream ob)"
    and "m \<le> length (stream ob)" and "contiguous ob = p # contiguous ob1"
    and "view ob1 = tl (view ob) @ [None]" and "smallest_packet_number ob1 = smallest_packet_number ob + 1"
    and "carry_over_bytes ob1 = None \<or> num + m = len"
proof -
  let ?c = "if len - num < length (payload p) then Some (drop (len - num) (payload p)) else None"
  let ?ob = "ob\<lparr>carry_over_bytes := ?c\<rparr>"
  have in_range: "smallest_packet_number_index ob < length (packets ob)" using wf by (simp add: ob_wf_def)
  have same: "ob\<lparr>carry_over_bytes := None\<rparr> = ob" using nc by simp
  show "consume_loop len base ix num num buf ob =
      consume_loop len base (Suc ix) (num + m) (num + m) (write_at num (take m (payload p)) buf) ob1"
    unfolding consume_loop.simps [of len base ix num num buf ob] slot [symmetric]
    using ix in_range p more
    by (cases "len - num < length (payload p)") (auto simp: m_def ob1_def Let_def same)
  have wf': "ob_wf ?ob" using wf by (auto intro: ob_wf_carry)
  have p': "packets ?ob ! smallest_packet_number_index ?ob = Some p" using p by simp
  note r = retire_slot_wf [OF wf' p'] retire_slot_view [OF wf', of "packet_number (header p)"]
  show "ob_wf ob1" "contiguous ob = p # contiguous ob1" "view ob1 = tl (view ob) @ [None]"
    "smallest_packet_number ob1 = smallest_packet_number ob + 1"
    using r by (simp_all add: ob1_def)
  then have S: "stream ob = payload p @ concat (map payload (contiguous ob1))"
    by (simp add: stream_no_carry nc)
  then show "take m (payload p) = take m (stream ob)" "m \<le> length (stream ob)" by (simp_all add: m_def)
  show "stream ob1 = drop m (stream ob)"
    by (simp add: S) (simp add: stream_def carried_def ob1_def m_def)
  show "carry_over_bytes ob1 = None \<or> num + m = len"
    using more by (simp add: ob1_def m_def)
qed

lemma consume_loop_spec:
  assumes "ob_wf ob" and "view ob = w @ replicate ix None" and "base < MAX_BUFFER_SIZE"
    and "ix < MAX_BUFFER_SIZE \<longrightarrow> smallest_packet_number_index ob = wrap_index base ix"
    and "num \<le> len" and "len \<le> length buf" and "carry_over_bytes ob = None \<or> num = len"
  shows "\<exists>ob' k. consume_loop len base ix num num buf ob =
      (ob', write_at num (take (len - num) (stream ob)) buf, Ok (ix + k, num + min (len - num) (length (stream ob)))) \<and>
    ob_wf ob' \<and> stream ob' = drop (len - num) (stream ob) \<and> k \<le> length (contiguous ob) \<and>
    contiguous ob' = drop k (contiguous ob) \<and>
    view ob' = drop k (view ob) @ replicate k None \<and> smallest_packet_number ob' = smallest_packet_number ob + of_nat k"
  using assms
proof (induction "MAX_BUFFER_SIZE - ix" arbitrary: ix num buf ob w rule: less_induct)
  case less
  note wf = less.prems(1)
  have len: "length (view ob) = MAX_BUFFER_SIZE" using wf by (simp add: ob_wf_def)
  define slot where "slot = wrap_index base ix"
  have stop: ?case if "consume_loop len base ix num num buf ob = (ob, buf, Ok (ix, num))"
      and "len = num \<or> stream ob = []"
    using that wf by (intro exI [of _ ob] exI [of _ 0]) (auto simp: write_at_def)
  show ?case
  proof (cases "ix < MAX_BUFFER_SIZE")
    case False
    then have "w = []" using less.prems(2) len by (auto simp flip: length_0_conv)
    then have "contiguous ob = []" using less.prems(2) by (simp add: contiguous_def takeWhile_replicate)
    with less.prems(7) have "len = num \<or> stream ob = []" by (auto simp: stream_def carried_def)
    with False stop show ?thesis by (simp add: consume_loop.simps [of len base ix])
  next
    case True
    then have slot: "smallest_packet_number_index ob = slot" using less.prems(4) by (simp add: slot_def)
    have in_range: "slot < length (packets ob)" using wf slot by (simp add: ob_wf_def)
    note step = consume_loop.simps [of len base ix num num buf ob, folded slot_def]
    show ?thesis
    proof (cases "packets ob ! slot")
      case None
      then have "contiguous ob = []"
        unfolding contiguous_def by (subst view_Cons [OF wf]) (simp add: slot)
      with less.prems(7) have "len = num \<or> stream ob = []" by (auto simp: stream_def carried_def)
      with None True in_range stop show ?thesis by (simp add: step)
    next
      case (Some p)
      show ?thesis
      proof (cases "num < len")
        case False
        with Some True in_range have "consume_loop len base ix num num buf ob = (ob, buf, Ok (ix, num))"
          by (simp add: step)
        then show ?thesis by (rule stop) (use False less.prems(5) in simp)
      next
        case more: True
        then have nc: "carry_over_bytes ob = None" using less.prems(7) by simp
        define m where "m = min (len - num) (length (payload p))"
        define ob1 where "ob1 = retire_slot (smallest_packet_number_index ob) (packet_number (header p))
          (ob\<lparr>carry_over_bytes := if len - num < length (payload p) then Some (drop (len - num) (payload p)) else None\<rparr>)"
        note st = consume_loop_step [OF wf True, of base p num len buf, folded m_def ob1_def]
        note st = st [OF _ _ more less.prems(6) nc, unfolded slot, OF slot_def Some]
        obtain x w' where w: "w = x # w'" using True less.prems(2) len by (cases w) auto
        have ix1: "Suc ix < MAX_BUFFER_SIZE \<longrightarrow> smallest_packet_number_index ob1 = wrap_index base (Suc ix)"
          using less.prems(3) slot by (auto simp: ob1_def retire_slot_def slot_def wrap_index_mod mod_simps)
        have v1: "view ob1 = w' @ replicate (Suc ix) None"
          using st(7) less.prems(2) w by (simp add: replicate_append_same)
        have fits: "num + m \<le> len" "num + m \<le> length buf" using more less.prems(6) by (auto simp: m_def)
        have lb: "len \<le> length (write_at num (take m (payload p)) buf)"
          using fits less.prems(6) by (subst length_write_at) (auto simp: m_def)
        have dec: "MAX_BUFFER_SIZE - Suc ix < MAX_BUFFER_SIZE - ix" using True by simp
        obtain ob' k where IH: "consume_loop len base (Suc ix) (num + m) (num + m) (write_at num (take m (payload p)) buf) ob1 =
            (ob', write_at (num + m) (take (len - (num + m)) (stream ob1)) (write_at num (take m (payload p)) buf),
             Ok (Suc ix + k, num + m + min (len - (num + m)) (length (stream ob1))))"
          "ob_wf ob'" "stream ob' = drop (len - (num + m)) (stream ob1)" "k \<le> length (contiguous ob1)"
          "contiguous ob' = drop k (contiguous ob1)" "view ob' = drop k (view ob1) @ replicate k None"
          "smallest_packet_number ob' = smallest_packet_number ob1 + of_nat k"
          using less.hyps [OF dec st(2) v1 less.prems(3) ix1 fits(1) lb st(9)] by auto
        have "write_at (num + m) (take (len - (num + m)) (stream ob1)) (write_at num (take m (payload p)) buf)
            = write_at num (take (len - num) (stream ob)) buf"
          using write_at_append [of num "take m (stream ob)" "take (len - (num + m)) (drop m (stream ob))" buf]
            fits less.prems(6) st(5) take_add [of m "len - (num + m)" "stream ob"]
          by (simp add: st(3,4))
        moreover have "num + m + min (len - (num + m)) (length (stream ob1)) = num + min (len - num) (length (stream ob))"
          using fits st(5) by (simp add: st(3))
        ultimately have "consume_loop len base ix num num buf ob = (ob', write_at num (take (len - num) (stream ob)) buf,
            Ok (ix + Suc k, num + min (len - num) (length (stream ob))))"
          using st(1) IH(1) by simp
        moreover have "stream ob' = drop (len - num) (stream ob)" using IH(3) st(3) fits by simp
        moreover have "view ob' = drop (Suc k) (view ob) @ replicate (Suc k) None"
        proof -
          have "length (contiguous ob1) \<le> length (tl (view ob))"
            unfolding contiguous_def st(7) length_map by (subst takeWhile_snoc_False) (simp_all only: length_takeWhile_le, simp)
          then have "k \<le> length (tl (view ob))" using IH(4) by simp
          then show ?thesis using IH(6) st(7) by (simp add: drop_Suc replicate_app_Cons_same)
        qed
        ultimately show ?thesis
          using IH(2,4,5,7) st(6,8) by (intro exI [of _ ob'] exI [of _ "Suc k"]) (simp add: add.assoc)
      qed
    qed
  qed
qed

lemma consume_packets_spec:
  assumes wf: "ob_wf ob" and nc: "carry_over_bytes ob = None" and len: "num \<le> len" "len \<le> length buf"
  shows "\<exists>ob' k. consume_packets len num num buf ob =
      (ob', write_at num (take (len - num) (stream ob)) buf,
       if num + min (len - num) (length (stream ob)) = 0 then Err BufferEmptyError
       else Ok \<lparr>num_packets_consumed = k, base_packet_number = first_packet_number ob,
               bytes_consumed = of_nat (num + min (len - num) (length (stream ob)))\<rparr>) \<and>
    ob_wf ob' \<and> stream ob' = drop (len - num) (stream ob) \<and> k \<le> length (contiguous ob) \<and>
    contiguous ob' = drop k (contiguous ob) \<and> view ob' = drop k (view ob) @ replicate k None \<and>
    smallest_packet_number ob' = smallest_packet_number ob + of_nat k"
proof -
  have b: "smallest_packet_number_index ob < MAX_BUFFER_SIZE" "length (packets ob) = MAX_BUFFER_SIZE"
    using wf by (auto simp: ob_wf_def)
  have "0 < MAX_BUFFER_SIZE \<longrightarrow> smallest_packet_number_index ob = wrap_index (smallest_packet_number_index ob) 0"
    using b by (simp add: wrap_index_def Let_def)
  from consume_loop_spec [OF wf _ b(1) this len, of "view ob"] nc obtain ob' k where
    *: "consume_loop len (smallest_packet_number_index ob) 0 num num buf ob =
      (ob', write_at num (take (len - num) (stream ob)) buf, Ok (k, num + min (len - num) (length (stream ob))))"
      "ob_wf ob' \<and> stream ob' = drop (len - num) (stream ob) \<and> k \<le> length (contiguous ob) \<and>
       contiguous ob' = drop k (contiguous ob) \<and> view ob' = drop k (view ob) @ replicate k None \<and>
       smallest_packet_number ob' = smallest_packet_number ob + of_nat k"
    by auto
  define t where "t = num + min (len - num) (length (stream ob))"
  have "consume_packets len num num buf ob =
      (ob', write_at num (take (len - num) (stream ob)) buf,
       if t = 0 then Err BufferEmptyError
       else Ok \<lparr>num_packets_consumed = k, base_packet_number = first_packet_number ob, bytes_consumed = of_nat t\<rparr>)"
    using *(1) b unfolding t_def [symmetric] by (simp add: consume_packets_def Let_def)
  with *(2) show ?thesis unfolding t_def by blast
qed

lemma first_packet_number_wf:
  assumes "ob_wf ob" and "0 < k" and "k \<le> length (contiguous ob)"
  shows "first_packet_number ob = smallest_packet_number ob"
proof -
  have "contiguous ob \<noteq> []" using assms(2,3) by auto
  then obtain p where "packets ob ! smallest_packet_number_index ob = Some p"
    unfolding contiguous_def by (subst (asm) view_Cons [OF assms(1)]) (auto split: if_splits)
  with first_packet_wf [OF assms(1)] show ?thesis by (simp add: first_packet_number_def)
qed

lemma consume_spec:
  assumes wf: "ob_wf ob" and len: "0 < len" "len \<le> length buf"
  shows "\<exists>ob' k b. consume len buf ob =
      (ob', write_at 0 (take len (stream ob)) buf,
       if stream ob = [] then Err BufferEmptyError
       else Ok \<lparr>num_packets_consumed = k, base_packet_number = b,
               bytes_consumed = of_nat (min len (length (stream ob)))\<rparr>) \<and>
    ob_wf ob' \<and> stream ob' = drop len (stream ob) \<and> k \<le> length (contiguous ob) \<and>
    contiguous ob' = drop k (contiguous ob) \<and> view ob' = drop k (view ob) @ replicate k None \<and>
    smallest_packet_number ob' = smallest_packet_number ob + of_nat k \<and> (0 < k \<longrightarrow> b = smallest_packet_number ob)"
proof (cases "carry_over_bytes ob")
  case None
  have z: "min len (length (stream ob)) = 0 \<longleftrightarrow> stream ob = []" using len by (auto simp: min_def)
  from consume_packets_spec [OF wf None le0 len(2), unfolded add_0 diff_zero] obtain ob' k where
    *: "consume_packets len 0 0 buf ob = (ob', write_at 0 (take len (stream ob)) buf,
         if min len (length (stream ob)) = 0 then Err BufferEmptyError
         else Ok \<lparr>num_packets_consumed = k, base_packet_number = first_packet_number ob,
                 bytes_consumed = of_nat (min len (length (stream ob)))\<rparr>)"
      "ob_wf ob' \<and> stream ob' = drop len (stream ob) \<and> k \<le> length (contiguous ob) \<and>
       contiguous ob' = drop k (contiguous ob) \<and> view ob' = drop k (view ob) @ replicate k None \<and>
       smallest_packet_number ob' = smallest_packet_number ob + of_nat k"
    by blast
  have "0 < k \<longrightarrow> first_packet_number ob = smallest_packet_number ob"
    using first_packet_number_wf [OF wf] *(2) by blast
  with * z show ?thesis by (auto simp: consume_def None)
next
  case (Some c)
  have c: "c \<noteq> []" using wf Some by (auto simp: ob_wf_def)
  let ?ob = "ob\<lparr>carry_over_bytes := None\<rparr>"
  have S: "stream ob = c @ stream ?ob" by (simp add: stream_def carried_def Some)
  show ?thesis
  proof (cases "length c \<le> len")
    case True
    have lb: "len \<le> length (write_at 0 c buf)" using len True by (subst length_write_at) auto
    have wf': "ob_wf ?ob" using wf by (simp add: ob_wf_carry)
    from consume_packets_spec [OF wf' _ True lb] c obtain ob' k where
      *: "consume_packets len (length c) (length c) (write_at 0 c buf) ?ob =
          (ob', write_at (length c) (take (len - length c) (stream ?ob)) (write_at 0 c buf),
           Ok \<lparr>num_packets_consumed = k, base_packet_number = first_packet_number ?ob,
              bytes_consumed = of_nat (length c + min (len - length c) (length (stream ?ob)))\<rparr>)"
        "ob_wf ob' \<and> stream ob' = drop (len - length c) (stream ?ob) \<and> k \<le> length (contiguous ob) \<and>
         contiguous ob' = drop k (contiguous ob) \<and> view ob' = drop k (view ob) @ replicate k None \<and>
         smallest_packet_number ob' = smallest_packet_number ob + of_nat k"
      by auto
    have "write_at (length c) (take (len - length c) (stream ?ob)) (write_at 0 c buf)
        = write_at 0 (take len (stream ob)) buf"
      using write_at_append [of 0 c "take (len - length c) (stream ?ob)" buf] True len by (simp add: S)
    moreover have "length c + min (len - length c) (length (stream ?ob)) = min len (length (stream ob))"
      using True by (simp add: S)
    moreover have "0 < k \<longrightarrow> first_packet_number ?ob = smallest_packet_number ob"
      using first_packet_number_wf [OF wf'] *(2) by simp
    ultimately show ?thesis
      using * True len c by (auto simp: consume_def Some S)
  next
    case False
    then have "take len (stream ob) = take len c" "min len (length (stream ob)) = len" by (simp_all add: S)
    moreover have "stream (ob\<lparr>carry_over_bytes := Some (drop len c)\<rparr>) = drop len (stream ob)"
      using False by (simp add: stream_def carried_def Some)
    ultimately show ?thesis
      using False len c wf S
      by (intro exI [of _ "ob\<lparr>carry_over_bytes := Some (drop len c)\<rparr>"] exI [of _ 0] exI [of _ 0])
        (simp add: consume_def Some ob_wf_carry)
  qed
qed

section \<open>Reading whole payloads\<close>

lemma consume_bytes_loop_spec:
  assumes "ob_wf ob" and "view ob = w @ replicate ix None" and "base < MAX_BUFFER_SIZE"
    and "ix < MAX_BUFFER_SIZE \<longrightarrow> smallest_packet_number_index ob = wrap_index base ix"
    and "initial \<le> length out" and "k = min (mx - (length out - initial)) (length (contiguous ob))"
  shows "\<exists>ob'. consume_bytes_loop initial mx base ix tot out ob =
      (ob', out @ map payload (take k (contiguous ob)),
       Ok (ix + k, tot + of_nat (length (concat (map payload (take k (contiguous ob))))))) \<and>
    ob_wf ob' \<and> carry_over_bytes ob' = carry_over_bytes ob \<and> contiguous ob' = drop k (contiguous ob) \<and>
    smallest_packet_number ob' = smallest_packet_number ob + of_nat k"
  using assms
proof (induction "MAX_BUFFER_SIZE - ix" arbitrary: ix tot out ob w k rule: less_induct)
  case less
  note wf = less.prems(1)
  have len: "length (view ob) = MAX_BUFFER_SIZE" using wf by (simp add: ob_wf_def)
  note step = consume_bytes_loop.simps [of initial mx base ix tot out ob]
  have stop: ?case if "consume_bytes_loop initial mx base ix tot out ob = (ob, out, Ok (ix, tot))" and "k = 0"
    using that wf by simp
  show ?case
  proof (cases "ix < MAX_BUFFER_SIZE \<and> length out - initial < mx")
    case False
    have "k = 0"
    proof (cases "ix < MAX_BUFFER_SIZE")
      case True
      with False less.prems(6) show ?thesis by simp
    next
      case F: False
      then have "w = []" using less.prems(2) len by (auto simp flip: length_0_conv)
      then show ?thesis using less.prems(2,6) by (simp add: contiguous_def takeWhile_replicate)
    qed
    moreover have "consume_bytes_loop initial mx base ix tot out ob = (ob, out, Ok (ix, tot))"
      unfolding step if_not_P [OF False] by simp
    ultimately show ?thesis using stop by blast
  next
    case True
    then have slot: "smallest_packet_number_index ob = wrap_index base ix" using less.prems(4) by simp
    have in_range: "smallest_packet_number_index ob < length (packets ob)" using wf by (simp add: ob_wf_def)
    show ?thesis
    proof (cases "packets ob ! smallest_packet_number_index ob")
      case None
      then have "contiguous ob = []" unfolding contiguous_def by (subst view_Cons [OF wf]) simp
      then have "k = 0" using less.prems(6) by simp
      with stop True in_range None show ?thesis by (simp add: step slot [symmetric])
    next
      case (Some p)
      define ob1 where "ob1 = retire_slot (smallest_packet_number_index ob) (packet_number (header p)) ob"
      note st = retire_slot_wf [OF wf Some, folded ob1_def]
      obtain x w' where w: "w = x # w'" using True less.prems(2) len by (cases w) auto
      have v1: "view ob1 = w' @ replicate (Suc ix) None"
        using retire_slot_view [OF wf, of "packet_number (header p)", folded ob1_def] less.prems(2) w
        by (simp add: replicate_append_same)
      have ix1: "Suc ix < MAX_BUFFER_SIZE \<longrightarrow> smallest_packet_number_index ob1 = wrap_index base (Suc ix)"
        using less.prems(3) slot by (auto simp: ob1_def retire_slot_def wrap_index_mod mod_simps)
      have dec: "MAX_BUFFER_SIZE - Suc ix < MAX_BUFFER_SIZE - ix" using True by (intro diff_less_mono2) auto
      have k1: "k - 1 = min (mx - (length (out @ [payload p]) - initial)) (length (contiguous ob1))"
        and k: "k = Suc (k - 1)" using less.prems(5,6) True st(3) by auto
      have init: "initial \<le> length (out @ [payload p])" using less.prems(5) by simp
      from less.hyps [OF dec st(1) v1 less.prems(3) ix1 init k1, of "tot + of_nat (length (payload p))"]
      obtain ob' where IH: "consume_bytes_loop initial mx base (Suc ix) (tot + of_nat (length (payload p))) (out @ [payload p]) ob1 =
          (ob', (out @ [payload p]) @ map payload (take (k - 1) (contiguous ob1)), Ok (Suc ix + (k - 1),
            tot + of_nat (length (payload p)) + of_nat (length (concat (map payload (take (k - 1) (contiguous ob1)))))))"
        "ob_wf ob'" "carry_over_bytes ob' = carry_over_bytes ob1" "contiguous ob' = drop (k - 1) (contiguous ob1)"
        "smallest_packet_number ob' = smallest_packet_number ob1 + of_nat (k - 1)" by blast
      have "consume_bytes_loop initial mx base ix tot out ob = consume_bytes_loop initial mx base (Suc ix)
          (tot + of_nat (length (payload p))) (out @ [payload p]) ob1"
        using True in_range Some by (simp add: step slot [symmetric] ob1_def)
      with IH st show ?thesis
        by (subst (1 2 3 4 5) k) (auto simp: ob1_def add.assoc)
    qed
  qed
qed

lemma consume_bytes_spec:
  fixes ob :: OrderedBytes and mx :: usize
  assumes wf: "ob_wf ob"
  defines "carry \<equiv> (case carry_over_bytes ob of None \<Rightarrow> [] | Some c \<Rightarrow> [c])"
  defines "k \<equiv> min (mx - length carry) (length (contiguous ob))"
  defines "chunks \<equiv> carry @ map payload (take k (contiguous ob))"
  shows "\<exists>ob'. consume_bytes out mx ob = (ob', out @ chunks,
      if chunks = [] then Err BufferEmptyError
      else Ok \<lparr>num_packets_consumed = k, base_packet_number = first_packet_number ob,
              bytes_consumed = of_nat (length (concat chunks))\<rparr>) \<and>
    ob_wf ob' \<and> stream ob = concat chunks @ stream ob' \<and> contiguous ob' = drop k (contiguous ob) \<and>
    carry_over_bytes ob' = None \<and> smallest_packet_number ob' = smallest_packet_number ob + of_nat k"
proof -
  let ?ob = "ob\<lparr>carry_over_bytes := None\<rparr>"
  have wf': "ob_wf ?ob" using wf by (simp add: ob_wf_carry)
  have b: "smallest_packet_number_index ?ob < MAX_BUFFER_SIZE" "length (packets ob) = MAX_BUFFER_SIZE"
    using wf by (auto simp: ob_wf_def)
  have "0 < MAX_BUFFER_SIZE \<longrightarrow> smallest_packet_number_index ?ob = wrap_index (smallest_packet_number_index ?ob) 0"
    using b by (simp add: wrap_index_def Let_def)
  moreover have "length out \<le> length (out @ carry)"
    "k = min (mx - (length (out @ carry) - length out)) (length (contiguous ?ob))" by (simp_all add: k_def)
  ultimately obtain ob' where L: "consume_bytes_loop (length out) mx (smallest_packet_number_index ?ob) 0
        (of_nat (length (concat carry))) (out @ carry) ?ob =
      (ob', (out @ carry) @ map payload (take k (contiguous ob)),
       Ok (k, of_nat (length (concat carry)) + of_nat (length (concat (map payload (take k (contiguous ob)))))))"
    "ob_wf ob'" "carry_over_bytes ob' = None" "contiguous ob' = drop k (contiguous ob)"
    "smallest_packet_number ob' = smallest_packet_number ob + of_nat k"
    using consume_bytes_loop_spec [OF wf' _ b(1), of "view ob" 0 "length out" "out @ carry" k mx] by fastforce
  have "(case carry_over_bytes ob of Some c \<Rightarrow> (of_nat (length c) :: u64, out @ [c]) | None \<Rightarrow> (0, out))
      = (of_nat (length (concat carry)), out @ carry)"
    by (simp add: carry_def split: option.splits)
  moreover have "first_packet_number ?ob = first_packet_number ob" by (simp add: first_packet_number_def)
  ultimately have "consume_bytes out mx ob = (ob', out @ chunks,
      if chunks = [] then Err BufferEmptyError
      else Ok \<lparr>num_packets_consumed = k, base_packet_number = first_packet_number ob,
              bytes_consumed = of_nat (length (concat chunks))\<rparr>)"
    using L(1) b by (simp add: consume_bytes_def Let_def chunks_def)
  moreover have "stream ob = concat chunks @ stream ob'"
    by (simp add: stream_def carried_def L(3,4) chunks_def carry_def split: option.splits
        flip: concat_append map_append)
  ultimately show ?thesis using L(2-5) by blast
qed

section \<open>Buffering many packets\<close>

text \<open>A receive worker hands packets over one by one and drops the errors.\<close>

definition buffer_all :: "BluefinPacket list \<Rightarrow> OrderedBytes \<Rightarrow> OrderedBytes" where
  "buffer_all ps ob = fold (\<lambda>p ob. fst (buffer_in_packet p ob)) ps ob"

definition pnum :: "BluefinPacket \<Rightarrow> u64" where
  "pnum p = packet_number (header p)"

lemma buffer_in_packet_frame:
  assumes "ob_wf ob"
  shows "conn_id (fst (buffer_in_packet p ob)) = conn_id ob \<and>
    smallest_packet_number_index (fst (buffer_in_packet p ob)) = smallest_packet_number_index ob"
  unfolding buffer_in_packet_ref [OF assms] by simp

lemma buffer_all_frame:
  "ob_wf ob \<Longrightarrow> ob_wf (buffer_all ps ob) \<and> conn_id (buffer_all ps ob) = conn_id ob \<and>
   smallest_packet_number_index (buffer_all ps ob) = smallest_packet_number_index ob \<and>
   smallest_packet_number (buffer_all ps ob) = smallest_packet_number ob \<and>
   carry_over_bytes (buffer_all ps ob) = carry_over_bytes ob"
proof (induction ps arbitrary: ob)
  case (Cons p ps)
  obtain ob1 r where 1: "buffer_in_packet p ob = (ob1, r)" by fastforce
  have "buffer_all (p # ps) ob = buffer_all ps ob1" by (simp add: buffer_all_def 1)
  with Cons.IH [OF buffer_in_packet_wf [OF Cons.prems 1]] buffer_in_packet_view(2,3) [OF Cons.prems 1]
    buffer_in_packet_frame [OF Cons.prems, of p] 1
  show ?case by simp
qed (simp add: buffer_all_def)

lemma offset_iff:
  "s \<le> n \<and> unat (n - s) = off \<longleftrightarrow> unat n = unat s + off" for n s :: u64
  by (auto simp: word_le_nat_alt unat_sub)

lemma buffer_all_view:
  "ob_wf ob \<Longrightarrow> distinct (map pnum ps) \<Longrightarrow> off < MAX_BUFFER_SIZE \<Longrightarrow>
   view (buffer_all ps ob) ! off = Some x \<longleftrightarrow>
     view ob ! off = Some x \<or>
     (view ob ! off = None \<and> x \<in> set ps \<and> unat (pnum x) = unat (smallest_packet_number ob) + off)"
proof (induction ps arbitrary: ob)
  case Nil
  then show ?case by (simp add: buffer_all_def)
next
  case (Cons p ps)
  obtain ob1 r where 1: "buffer_in_packet p ob = (ob1, r)" by fastforce
  note b = buffer_in_packet_view [OF Cons.prems(1) 1, folded pnum_def]
  have IH: "view (buffer_all (p # ps) ob) ! off = Some x \<longleftrightarrow> view ob1 ! off = Some x \<or>
      (view ob1 ! off = None \<and> x \<in> set ps \<and> unat (pnum x) = unat (smallest_packet_number ob) + off)"
    using Cons.IH [OF buffer_in_packet_wf [OF Cons.prems(1) 1]] Cons.prems b(2) by (simp add: buffer_all_def 1)
  let ?o = "unat (pnum p - smallest_packet_number ob)"
  note off = offset_iff [of "smallest_packet_number ob" "pnum p" off]
  have len: "length (view ob) = MAX_BUFFER_SIZE" using Cons.prems(1) by (simp add: ob_wf_def)
  show ?case
  proof (cases "r = Ok ()")
    case True
    then have v: "view ob1 ! off = (if ?o = off then Some p else view ob ! off)"
      using b(1) len Cons.prems(3) by (simp add: nth_list_update)
    have "view ob ! ?o = None" "smallest_packet_number ob \<le> pnum p" using b(4) True by auto
    moreover have "unat (pnum x) \<noteq> unat (pnum p)" if "x \<in> set ps"
      using Cons.prems(2) imageI [OF that, of pnum] by (auto simp flip: word_unat_eq_iff)
    ultimately show ?thesis
      using off v by (cases "?o = off") (auto simp: IH)
  next
    case False
    then have "view ob1 = view ob" using b(1) by simp
    moreover have "view ob ! off \<noteq> None" if "unat (pnum p) = unat (smallest_packet_number ob) + off"
      using False b(4) off that Cons.prems(3) by auto
    ultimately show ?thesis by (auto simp: IH)
  qed
qed

lemma rotate1_inject: "rotate1 xs = rotate1 ys \<Longrightarrow> xs = ys"
  by (cases xs; cases ys) auto

lemma rotate_inject: "rotate n xs = rotate n ys \<Longrightarrow> xs = ys"
  by (induction n) (auto dest: rotate1_inject)

lemma ob_eqI:
  assumes "ob_wf a" and "ob_wf b" and "conn_id a = conn_id b"
    and "smallest_packet_number_index a = smallest_packet_number_index b"
    and "smallest_packet_number a = smallest_packet_number b" and "carry_over_bytes a = carry_over_bytes b"
    and "\<And>off x. off < MAX_BUFFER_SIZE \<Longrightarrow> view a ! off = Some x \<longleftrightarrow> view b ! off = Some x"
  shows "a = b"
proof -
  have "view a = view b"
  proof (rule nth_equalityI)
    show "length (view a) = length (view b)" using assms(1,2) by (simp add: ob_wf_def)
    fix i assume "i < length (view a)"
    then have "i < MAX_BUFFER_SIZE" using assms(1) by (simp add: ob_wf_def)
    with assms(7) [of i] show "view a ! i = view b ! i" by (metis not_None_eq)
  qed
  then have "packets a = packets b" using assms(4) by (auto simp: view_def dest: rotate_inject)
  with assms(3-6) show ?thesis by simp
qed

lemma buffer_all_perm:
  assumes wf: "ob_wf ob" and "distinct (map pnum ps)" and "mset ps = mset qs"
  shows "buffer_all ps ob = buffer_all qs ob"
proof -
  have "distinct (map pnum qs)" "set ps = set qs"
    using assms(2,3) by (metis mset_eq_imp_distinct_iff mset_map) (metis assms(3) mset_eq_setD)
  with assms(2) buffer_all_frame [OF wf] show ?thesis
    by (intro ob_eqI) (simp_all add: buffer_all_view [OF wf])
qed

text \<open>Consecutive packets from the expected number on, buffered in any order into an empty array, are what the
  reader finds.\<close>

lemma buffer_all_consecutive:
  assumes wf: "ob_wf ob" and empty: "view ob = replicate MAX_BUFFER_SIZE None"
    and len: "length ps \<le> MAX_BUFFER_SIZE"
    and nums: "\<And>i. i < length ps \<Longrightarrow> unat (pnum (ps ! i)) = unat (smallest_packet_number ob) + i"
    and perm: "mset qs = mset ps"
  shows "contiguous (buffer_all qs ob) = ps"
proof -
  have "pnum (ps ! i) \<noteq> pnum (ps ! j)" if "i < length ps" "j < length ps" "i \<noteq> j" for i j
    using nums [OF that(1)] nums [OF that(2)] that(3) by (metis add_left_cancel)
  then have "distinct (map pnum ps)" by (simp add: distinct_conv_nth)
  note v = buffer_all_view [OF wf this]
  let ?v = "view (buffer_all ps ob)"
  have lv: "length ?v = MAX_BUFFER_SIZE" using buffer_all_frame [OF wf, of ps] by (simp add: ob_wf_def)
  have v_eq: "?v = map Some ps @ replicate (MAX_BUFFER_SIZE - length ps) None"
  proof (rule nth_equalityI)
    show "length ?v = length (map Some ps @ replicate (MAX_BUFFER_SIZE - length ps) None)"
      using lv len by simp
    fix i assume "i < length ?v"
    then have i: "i < MAX_BUFFER_SIZE" using lv by simp
    show "?v ! i = (map Some ps @ replicate (MAX_BUFFER_SIZE - length ps) None) ! i"
    proof (cases "i < length ps")
      case True
      then have "?v ! i = Some (ps ! i)" using v [OF i] i nums [OF True] by (simp add: empty)
      with True show ?thesis by (simp add: nth_append)
    next
      case False
      have "?v ! i = None"
      proof (rule ccontr)
        assume "?v ! i \<noteq> None"
        then obtain x where "x \<in> set ps" "unat (pnum x) = unat (smallest_packet_number ob) + i"
          using v [OF i] i by (auto simp: empty)
        then show False using nums False by (auto simp: in_set_conv_nth)
      qed
      with False i len show ?thesis by (simp add: nth_append)
    qed
  qed
  have "contiguous (buffer_all ps ob) = ps"
    unfolding contiguous_def v_eq by (subst takeWhile_append2) (auto simp: takeWhile_replicate comp_def)
  moreover have "buffer_all qs ob = buffer_all ps ob"
    using buffer_all_perm [OF wf \<open>distinct (map pnum ps)\<close>, of qs] perm by simp
  ultimately show ?thesis by simp
qed

section \<open>The buffer as a byte source\<close>

text \<open>One read of up to \<open>n\<close> bytes into a fresh slice.\<close>

definition consume_vec :: "usize \<Rightarrow> OrderedBytes \<Rightarrow> OrderedBytes \<times> Bytes" where
  "consume_vec n ob = (case consume n (replicate n 0) ob of
      (ob', buf, Ok r) \<Rightarrow> (ob', take (unat (bytes_consumed r)) buf)
    | (ob', _, _) \<Rightarrow> (ob', []))"

definition source_inv :: "OrderedBytes \<Rightarrow> bool" where
  "source_inv ob \<longleftrightarrow> ob_wf ob \<and> length (stream ob) < 2 ^ 64"

lemma consume_vec_spec:
  assumes "source_inv ob" and "0 < n"
  shows "\<exists>ob'. consume_vec n ob = (ob', take n (stream ob)) \<and> ob_wf ob' \<and> stream ob' = drop n (stream ob)"
proof -
  have wf: "ob_wf ob" and short: "length (stream ob) < 2 ^ 64" using assms(1) by (simp_all add: source_inv_def)
  obtain ob' k b where c: "consume n (replicate n 0) ob = (ob', write_at 0 (take n (stream ob)) (replicate n 0),
       if stream ob = [] then Err BufferEmptyError
       else Ok \<lparr>num_packets_consumed = k, base_packet_number = b,
               bytes_consumed = of_nat (min n (length (stream ob)))\<rparr>)"
    "ob_wf ob'" "stream ob' = drop n (stream ob)"
    using consume_spec [OF wf assms(2), of "replicate n 0"] by auto
  have "unat (of_nat (min n (length (stream ob))) :: u64) = min n (length (stream ob))"
    using short by (simp add: unat_of_nat)
  then have "consume_vec n ob = (ob', take n (stream ob))"
    using c(1) by (auto simp: consume_vec_def write_at_0 min_def)
  with c(2,3) show ?thesis by blast
qed

interpretation reassembly: byte_source source_inv stream consume_vec
proof unfold_locales
  fix s n assume "source_inv s" "(0::nat) < n"
  from consume_vec_spec [OF this] this(1) show "source_inv (fst (consume_vec n s))"
    "snd (consume_vec n s) = take n (stream s)" "stream (fst (consume_vec n s)) = drop n (stream s)"
    by (auto simp: source_inv_def)
qed

section \<open>Properties\<close>

text \<open>The order in which packets arrive does not matter: buffering packets with distinct packet numbers in
  any two orders leaves the same reassembly buffer.\<close>

lemma buffering_order_insensitive:
  assumes "ob_wf ob" and "distinct (map pnum ps)" and "mset ps = mset qs"
  shows "buffer_all ps ob = buffer_all qs ob"
  using assms by (rule buffer_all_perm)

definition sample_packet :: "u64 \<Rightarrow> Bytes \<Rightarrow> BluefinPacket" where
  "sample_packet n bs = \<lparr>header = header_default\<lparr>packet_number := n\<rparr>, payload = bs\<rparr>"

lemma pnum_sample [simp]: "pnum (sample_packet n bs) = n" "payload (sample_packet n bs) = bs"
  by (simp_all add: pnum_def sample_packet_def)

text \<open>Reading from the reassembly buffer into a slice of at least \<open>len\<close> bytes never panics: it copies the
  next \<open>len\<close> bytes of the in-order stream (fewer when the stream is shorter) to the front of the slice and
  leaves the rest of the slice alone, keeps exactly the rest of the stream, advances the expected packet
  number by the number of packets it reports, and fails with \<open>BufferEmptyError\<close> exactly when there is no
  byte to read.\<close>

lemma consume_delivers_stream:
  assumes "ob_wf ob" and "0 < len" and "len \<le> length buf"
  shows "\<exists>ob' k b. consume len buf ob =
      (ob', take len (stream ob) @ drop (length (take len (stream ob))) buf,
       if stream ob = [] then Err BufferEmptyError
       else Ok \<lparr>num_packets_consumed = k, base_packet_number = b,
               bytes_consumed = of_nat (min len (length (stream ob)))\<rparr>) \<and>
    ob_wf ob' \<and> stream ob' = drop len (stream ob) \<and>
    smallest_packet_number ob' = smallest_packet_number ob + of_nat k \<and>
    (0 < k \<longrightarrow> b = smallest_packet_number ob)"
  using consume_spec [OF assms] unfolding write_at_0 by blast

text \<open>The zero-copy reader delivers the same byte stream: what it pushes, followed by what it leaves, is
  the stream; it pushes at most \<open>max_packets\<close> chunks plus the carry-over, reports the packets it retired from
  the expected number on, and fails with \<open>BufferEmptyError\<close> exactly when it pushes nothing.\<close>

lemma consume_bytes_delivers_stream:
  assumes "ob_wf ob"
  shows "\<exists>ob' chunks k b. consume_bytes out max_packets ob =
      (ob', out @ chunks,
       if chunks = [] then Err BufferEmptyError
       else Ok \<lparr>num_packets_consumed = k, base_packet_number = b, bytes_consumed = of_nat (length (concat chunks))\<rparr>) \<and>
    ob_wf ob' \<and> stream ob = concat chunks @ stream ob' \<and> length chunks \<le> max 1 max_packets \<and>
    (max_packets < length chunks \<longrightarrow> max_packets = 0 \<and> carry_over_bytes ob \<noteq> None) \<and>
    smallest_packet_number ob' = smallest_packet_number ob + of_nat k \<and>
    (0 < k \<longrightarrow> b = smallest_packet_number ob)"
proof -
  define carry where "carry = (case carry_over_bytes ob of None \<Rightarrow> [] | Some c \<Rightarrow> [c])"
  define k where "k = min (max_packets - length carry) (length (contiguous ob))"
  define chunks where "chunks = carry @ map payload (take k (contiguous ob))"
  have "0 < k \<longrightarrow> first_packet_number ob = smallest_packet_number ob"
    using first_packet_number_wf [OF assms, of k] by (simp add: k_def)
  moreover have "length chunks \<le> max 1 max_packets" "max_packets < length chunks \<longrightarrow> max_packets = 0 \<and> carry_over_bytes ob \<noteq> None"
    by (auto simp: chunks_def k_def carry_def split: option.splits)
  moreover note consume_bytes_spec [OF assms, of out max_packets, folded carry_def, folded k_def, folded chunks_def]
  ultimately show ?thesis by blast
qed



text \<open>C2. Reassembly: packets with consecutive numbers from the expected one on, at most 2000 of them, that
  arrive in any order at a buffer with no packet in it, are delivered as their payloads in number order,
  however the reader splits its reads.\<close>

theorem reassembly_any_order:
  assumes "source_inv ob" and "view ob = replicate MAX_BUFFER_SIZE None" and "carry_over_bytes ob = None"
    and "length ps \<le> MAX_BUFFER_SIZE"
    and "\<forall>i < length ps. unat (pnum (ps ! i)) = unat (smallest_packet_number ob) + i"
    and "length (concat (map payload ps)) < 2 ^ 64"
    and "mset qs = mset ps" and "0 \<notin> set ns"
  shows "snd (read_all consume_vec ns (buffer_all qs ob)) = take (sum_list ns) (concat (map payload ps))"
proof -
  have wf: "ob_wf ob" using assms(1) by (simp add: source_inv_def)
  have "contiguous (buffer_all qs ob) = ps"
    using buffer_all_consecutive [OF wf assms(2,4) _ assms(7)] assms(5) by blast
  with buffer_all_frame [OF wf, of qs] assms(3) have "stream (buffer_all qs ob) = concat (map payload ps)" "source_inv (buffer_all qs ob)"
    using assms(6) by (simp_all add: stream_def carried_def source_inv_def)
  with reassembly.read_all_prefix [of "buffer_all qs ob" ns] assms(8) show ?thesis by simp
qed

theorem reassembly_any_order_witness:
  "snd (read_all consume_vec [1, 5] (buffer_all [sample_packet 8 [3], sample_packet 7 [1, 2]] (ordered_bytes_new 0 7))) = [1, 2, 3]"
proof -
  have "source_inv (ordered_bytes_new 0 7)"
    by (simp add: source_inv_def ordered_bytes_new_wf)
  moreover have "\<forall>i < length [sample_packet 7 [1, 2], sample_packet 8 [3]].
      unat (pnum ([sample_packet 7 [1, 2], sample_packet 8 [3]] ! i)) = unat (smallest_packet_number (ordered_bytes_new 0 7)) + i"
    by (auto simp: less_Suc_eq ordered_bytes_new_def)
  moreover have "length [sample_packet 7 [1, 2], sample_packet 8 [3]] \<le> MAX_BUFFER_SIZE" by (simp add: MAX_BUFFER_SIZE_def)
  moreover have "carry_over_bytes (ordered_bytes_new 0 7) = None" by (simp add: ordered_bytes_new_def)
  ultimately show ?thesis
    using reassembly_any_order [of "ordered_bytes_new 0 7" "[sample_packet 7 [1, 2], sample_packet 8 [3]]"
        "[sample_packet 8 [3], sample_packet 7 [1, 2]]" "[1, 5]"] ordered_bytes_new_wf(2) [of 0 7]
    by simp
qed

end
