(* ===== verification/Net.thy ===== *)
theory Net
  imports Packet
begin

text \<open>
  \<open>bluefin/src/net/mod.rs\<close>: the size constants, the diagnostic events, the state shared between
  \<open>accept()\<close> and the receive workers, the handshake packet tests, and the trait \<open>Wakeable\<close>.
  A \<open>Waker\<close> of the standard library is the identity of the task it wakes; \<open>will_wake\<close> compares them.
  The locale \<open>wakeable\<close> states the buffer-with-waker contract: a poll that is pending leaves the polling
  task's waker in the buffer, and no producer operation removes it.
\<close>

section \<open>Constants and shared state\<close>

definition BLUEFIN_HEADER_SIZE_BYTES :: usize where
  "BLUEFIN_HEADER_SIZE_BYTES = 20"

definition MAX_BLUEFIN_PAYLOAD_SIZE_BYTES :: usize where
  "MAX_BLUEFIN_PAYLOAD_SIZE_BYTES = 1500"

definition MAX_BLUEFIN_PACKETS_IN_UDP_DATAGRAM :: usize where
  "MAX_BLUEFIN_PACKETS_IN_UDP_DATAGRAM = 10"

definition MAX_BLUEFIN_BYTES_IN_UDP_DATAGRAM :: usize where
  "MAX_BLUEFIN_BYTES_IN_UDP_DATAGRAM = MAX_BLUEFIN_PACKETS_IN_UDP_DATAGRAM *
     (BLUEFIN_HEADER_SIZE_BYTES + MAX_BLUEFIN_PAYLOAD_SIZE_BYTES)"

definition MAX_QUEUED_HELLOS :: usize where
  "MAX_QUEUED_HELLOS = 64"

lemmas net_sizes = BLUEFIN_HEADER_SIZE_BYTES_def MAX_BLUEFIN_PAYLOAD_SIZE_BYTES_def
  MAX_BLUEFIN_PACKETS_IN_UDP_DATAGRAM_def MAX_BLUEFIN_BYTES_IN_UDP_DATAGRAM_def

datatype SocketAddr = SocketAddr (ip: Bytes) (port: u16)

record HelloState =
  pending_accept_ids :: "u32 list"
  hello_queue :: "(BluefinPacket \<times> SocketAddr) list"

definition hello_state_new :: HelloState where
  "hello_state_new = \<lparr>pending_accept_ids = [], hello_queue = []\<rparr>"

datatype DiagnosticEvent =
    AckReceived (ev_base: u64) (ev_count: usize)
  | AckSent (ev_base: u64) (ev_count: usize)
  | DataSent (ev_start: u64) (ev_num_packets: u64) (ev_num_bytes: usize)
  | DataReceived (ev_base: u64) (ev_packets: usize) (ev_num_bytes: usize)
  | FinSent (ev_packet_num: u64)
  | FinAckSent (ev_packet_num: u64)
  | FinReceived (ev_packet_num: u64)
  | FinAckReceived (ev_packet_num: u64)

text \<open>A bounded channel as its contents. \<open>try_send\<close> drops the message when the channel is full; the
  diagnostic channel is optional. \<open>open\<close> says whether a receiver is left.\<close>

record 'a channel =
  chan_bound :: "usize option"
  chan_open :: bool
  chan_queue :: "'a list"

definition chan_has_room :: "'a channel \<Rightarrow> bool" where
  "chan_has_room c \<longleftrightarrow> chan_open c \<and>
     (case chan_bound c of None \<Rightarrow> True | Some n \<Rightarrow> length (chan_queue c) < n)"

definition chan_try_send :: "'a \<Rightarrow> 'a channel \<Rightarrow> 'a channel \<times> bool" where
  "chan_try_send x c =
     (if chan_has_room c then (c\<lparr>chan_queue := chan_queue c @ [x]\<rparr>, True) else (c, False))"

definition diag_try_send ::
    "DiagnosticEvent channel option \<Rightarrow> DiagnosticEvent \<Rightarrow> DiagnosticEvent channel option" where
  "diag_try_send tx ev = map_option (\<lambda>c. fst (chan_try_send ev c)) tx"

section \<open>Handshake packets\<close>

definition is_hello_packet :: "BluefinHost \<Rightarrow> BluefinPacket \<Rightarrow> bool" where
  "is_hello_packet host_type packet =
     (let other_id = source_connection_id (header packet);
          this_id = destination_connection_id (header packet) in
      if host_type = PackLeader \<and> type_field (header packet) \<noteq> UnencryptedClientHello then False
      else if host_type = Client \<and> type_field (header packet) \<noteq> UnencryptedServerHello then False
      else if host_type = Client \<and> (other_id = 0 \<or> this_id = 0) then False
      else if host_type = PackLeader \<and> other_id = 0 then False
      else if host_type = PackLeader \<and> this_id \<noteq> 0 then False
      else True)"

definition is_client_ack_packet :: "BluefinHost \<Rightarrow> BluefinPacket \<Rightarrow> bool" where
  "is_client_ack_packet host_type packet =
     (let other_id = source_connection_id (header packet);
          this_id = destination_connection_id (header packet) in
      host_type = PackLeader \<and> type_field (header packet) = ClientAck \<and> other_id \<noteq> 0 \<and> this_id \<noteq> 0)"

definition build_empty_encrypted_packet ::
    "u32 \<Rightarrow> u32 \<Rightarrow> u64 \<Rightarrow> PacketType \<Rightarrow> BluefinPacket BluefinResult" where
  "build_empty_encrypted_packet src_conn_id dst_conn_id pn packet_type =
     bind_res (security_new False 0) (\<lambda>security_fields.
       let h = header_new src_conn_id dst_conn_id packet_type 0 security_fields in
       builder_build (builder_header (with_packet_number pn h) packet_builder))"

lemma build_empty_encrypted_packet_Ok:
  "build_empty_encrypted_packet s d n t = Ok \<lparr>header = \<lparr>version = 0, type_field = t,
     type_specific_payload = 0, security_fields = \<lparr>header_encrypted = False, header_protection_mask = 0\<rparr>,
     source_connection_id = s, destination_connection_id = d, packet_number = n\<rparr>, payload = []\<rparr>"
  by (simp add: build_empty_encrypted_packet_def builder_build_def builder_header_def packet_builder_def
      security_new_def header_new_def with_packet_number_def)

lemma is_hello_packet_iff:
  "is_hello_packet PackLeader p \<longleftrightarrow> type_field (header p) = UnencryptedClientHello \<and>
     source_connection_id (header p) \<noteq> 0 \<and> destination_connection_id (header p) = 0"
  "is_hello_packet Client p \<longleftrightarrow> type_field (header p) = UnencryptedServerHello \<and>
     source_connection_id (header p) \<noteq> 0 \<and> destination_connection_id (header p) \<noteq> 0"
  by (simp_all add: is_hello_packet_def Let_def)

lemma hello_not_client_ack: "is_hello_packet PackLeader p \<Longrightarrow> \<not> is_client_ack_packet host p"
  by (simp add: is_hello_packet_iff is_client_ack_packet_def Let_def)

section \<open>Buffers with a waker\<close>

type_synonym Waker = nat

definition set_waker_if_changed :: "Waker \<Rightarrow> Waker option \<Rightarrow> Waker option" where
  "set_waker_if_changed new_waker waker = (case waker of
      Some existing \<Rightarrow> if existing = new_waker then waker else Some new_waker
    | None \<Rightarrow> Some new_waker)"

lemma set_waker_if_changed_eq [simp]: "set_waker_if_changed w wk = Some w"
  by (simp add: set_waker_if_changed_def split: option.splits)

text \<open>\<open>poll\<close> returns \<open>None\<close> for \<open>Poll::Pending\<close>.\<close>

locale wakeable =
  fixes poll :: "Waker \<Rightarrow> 's \<Rightarrow> 's \<times> 'r option" and produce :: "'op \<Rightarrow> 's \<Rightarrow> 's"
    and take_waker_clone :: "'s \<Rightarrow> Waker option"
  assumes pending_registers: "poll w s = (s', None) \<Longrightarrow> take_waker_clone s' = Some w"
    and produce_keeps: "take_waker_clone (produce op s) = take_waker_clone s"
begin

lemma no_lost_wakeup:
  "poll w s = (s', None) \<Longrightarrow> take_waker_clone (fold produce ops s') = Some w"
proof (induction ops rule: rev_induct)
  case Nil
  then show ?case by (simp add: pending_registers)
qed (simp add: produce_keeps)

end

end
