(* ===== verification/Connection_Buffer.thy ===== *)
theory Connection_Buffer
  imports Ordered_Bytes Net
begin

text \<open>
  \<open>bluefin/src/net/connection.rs\<close>, first half: the per-connection buffer shared by the receive workers and the
  connection (reassembly buffer, peer address, waker, handshake slot), and the future
  \<open>HandshakeConnectionBuffer\<close> that waits for a handshake packet. Every operation runs under the buffer's
  mutex and is one atomic step. \<open>conn_wf\<close> is the buffer's invariant; the two futures that park on the buffer
  meet the contract \<open>wakeable\<close>.
\<close>

record ConnectionBuffer =
  ordered_bytes :: OrderedBytes
  cb_addr :: "SocketAddr option"
  cb_waker :: "Waker option"
  cb_packet :: "BluefinPacket option"
  cb_dst_conn_id :: u32
  cb_host_type :: BluefinHost
  start_packet_number_set :: bool

definition connection_buffer_new :: "u32 \<Rightarrow> BluefinHost \<Rightarrow> ConnectionBuffer" where
  "connection_buffer_new src_conn_id host =
     \<lparr>ordered_bytes = ordered_bytes_new src_conn_id 0, cb_addr = None, cb_waker = None, cb_packet = None,
      cb_dst_conn_id = 0, cb_host_type = host, start_packet_number_set = False\<rparr>"

definition set_dst_conn_id :: "u32 \<Rightarrow> ConnectionBuffer \<Rightarrow> ConnectionBuffer" where
  "set_dst_conn_id i cb = cb\<lparr>cb_dst_conn_id := i\<rparr>"

definition buffer_in_addr :: "SocketAddr \<Rightarrow> ConnectionBuffer \<Rightarrow> ConnectionBuffer \<times> unit BluefinResult" where
  "buffer_in_addr a cb =
     (if cb_addr cb \<noteq> None then (cb, Err (Unexpected ''Address already exists''))
      else (cb\<lparr>cb_addr := Some a\<rparr>, Ok ()))"

definition buffer_in_bytes :: "BluefinPacket \<Rightarrow> ConnectionBuffer \<Rightarrow> ConnectionBuffer \<times> unit BluefinResult" where
  "buffer_in_bytes p cb = (case buffer_in_packet p (ordered_bytes cb) of
      (ob, r) \<Rightarrow> (cb\<lparr>ordered_bytes := ob\<rparr>, r))"

definition conn_buffer_in_packet :: "BluefinPacket \<Rightarrow> ConnectionBuffer \<Rightarrow> ConnectionBuffer \<times> unit BluefinResult" where
  "conn_buffer_in_packet p cb =
     (if cb_packet cb \<noteq> None
      then (cb, Err (BufferFullError ''Buffer already contains a packet. Could not buffer another packet.''))
      else
        (let packet_num = packet_number (header p);
             cb1 = cb\<lparr>cb_packet := Some p\<rparr> in
         if \<not> start_packet_number_set cb1 then
           (let cb2 =
              (if cb_host_type cb1 = PackLeader
               then cb1\<lparr>ordered_bytes := set_start_packet_number (packet_num + 2) (ordered_bytes cb1)\<rparr>
               else if cb_host_type cb1 = Client
               then cb1\<lparr>ordered_bytes := set_start_packet_number (packet_num + 1) (ordered_bytes cb1)\<rparr>
               else cb1) in
            (cb2\<lparr>start_packet_number_set := True\<rparr>, Ok ()))
         else (cb1, Ok ())))"

definition conn_consume :: "usize \<Rightarrow> Bytes \<Rightarrow> ConnectionBuffer \<Rightarrow>
    ConnectionBuffer \<times> Bytes \<times> (ConsumeResult \<times> SocketAddr) BluefinResult" where
  "conn_consume bytes_to_read buf cb = (case cb_addr cb of
      None \<Rightarrow> (cb, buf, Err (Unexpected ''Cannot consume buffer because addr is field is none''))
    | Some a \<Rightarrow>
        (case consume bytes_to_read buf (ordered_bytes cb) of
           (ob, buf', r) \<Rightarrow> (cb\<lparr>ordered_bytes := ob\<rparr>, buf', bind_res r (\<lambda>res. Ok (res, a)))))"

definition conn_consume_bytes :: "Bytes list \<Rightarrow> usize \<Rightarrow> ConnectionBuffer \<Rightarrow>
    ConnectionBuffer \<times> Bytes list \<times> (ConsumeResult \<times> SocketAddr) BluefinResult" where
  "conn_consume_bytes out max_packets cb = (case cb_addr cb of
      None \<Rightarrow> (cb, out, Err (Unexpected ''Cannot consume buffer because addr is field is none''))
    | Some a \<Rightarrow>
        (case consume_bytes out max_packets (ordered_bytes cb) of
           (ob, out', r) \<Rightarrow> (cb\<lparr>ordered_bytes := ob\<rparr>, out', bind_res r (\<lambda>res. Ok (res, a)))))"

definition conn_peek :: "ConnectionBuffer \<Rightarrow> unit BluefinResult" where
  "conn_peek cb =
     (if cb_addr cb = None then Err (Unexpected ''Cannot consume buffer because addr is field is none'')
      else ordered_bytes_peek (ordered_bytes cb))"

definition get_waker :: "ConnectionBuffer \<Rightarrow> Waker option" where
  "get_waker cb = cb_waker cb"

definition set_waker :: "Waker \<Rightarrow> ConnectionBuffer \<Rightarrow> ConnectionBuffer" where
  "set_waker w cb = cb\<lparr>cb_waker := Some w\<rparr>"

definition conn_set_waker_if_changed :: "Waker \<Rightarrow> ConnectionBuffer \<Rightarrow> ConnectionBuffer" where
  "conn_set_waker_if_changed new_waker cb = (case cb_waker cb of
      Some existing \<Rightarrow> if existing = new_waker then cb else cb\<lparr>cb_waker := Some new_waker\<rparr>
    | None \<Rightarrow> cb\<lparr>cb_waker := Some new_waker\<rparr>)"

definition conn_take_waker_clone :: "ConnectionBuffer \<Rightarrow> Waker option" where
  "conn_take_waker_clone cb = cb_waker cb"

section \<open>The handshake future\<close>

text \<open>\<open>poll\<close> takes the packet out of its slot before it looks at the address.\<close>

definition handshake_poll :: "Waker \<Rightarrow> ConnectionBuffer \<Rightarrow> ConnectionBuffer \<times> (BluefinPacket \<times> SocketAddr) option" where
  "handshake_poll cx cb =
     (let taken_packet = cb_packet cb; cb1 = cb\<lparr>cb_packet := None\<rparr> in
      case (taken_packet, cb_addr cb1) of
        (Some p, Some a) \<Rightarrow> (cb1, Some (p, a))
      | _ \<Rightarrow> (conn_set_waker_if_changed cx cb1, None))"

text \<open>\<open>read_with_timeout\<close>: \<open>res\<close> is what the future yielded before the timer fired, if anything.\<close>

definition read_with_timeout :: "(BluefinPacket \<times> SocketAddr) option \<Rightarrow> (BluefinPacket \<times> SocketAddr) BluefinResult" where
  "read_with_timeout res = (case res of
      Some x \<Rightarrow> Ok x
    | None \<Rightarrow> Err (TimedOut ''Failed to read from handshake connection buffer''))"

section \<open>Invariant\<close>

text \<open>The reassembly buffer is well-formed, and holds no packet while its start number is not set.\<close>

definition conn_wf :: "ConnectionBuffer \<Rightarrow> bool" where
  "conn_wf cb \<longleftrightarrow> ob_wf (ordered_bytes cb) \<and>
     (\<not> start_packet_number_set cb \<longrightarrow> view (ordered_bytes cb) = replicate MAX_BUFFER_SIZE None)"

lemma view_set_start [simp]: "view (set_start_packet_number n ob) = view ob"
  by (simp add: view_def set_start_packet_number_def)

lemma stream_set_start [simp]: "stream (set_start_packet_number n ob) = stream ob"
  by (simp add: stream_def carried_def contiguous_def) (simp add: set_start_packet_number_def)

lemma connection_buffer_new_wf [wf_keep]: "conn_wf (connection_buffer_new i h)"
  by (simp add: conn_wf_def connection_buffer_new_def ordered_bytes_new_wf)

lemma buffer_in_addr_wf [wf_keep]: "conn_wf cb \<Longrightarrow> conn_wf (fst (buffer_in_addr a cb))"
  by (simp add: conn_wf_def buffer_in_addr_def)

lemma set_dst_conn_id_wf [wf_keep]: "conn_wf cb \<Longrightarrow> conn_wf (set_dst_conn_id i cb)"
  by (simp add: conn_wf_def set_dst_conn_id_def)

lemma conn_set_waker_fields [simp]:
  "ordered_bytes (conn_set_waker_if_changed w cb) = ordered_bytes cb"
  "start_packet_number_set (conn_set_waker_if_changed w cb) = start_packet_number_set cb"
  "cb_packet (conn_set_waker_if_changed w cb) = cb_packet cb"
  "cb_addr (conn_set_waker_if_changed w cb) = cb_addr cb"
  "cb_host_type (conn_set_waker_if_changed w cb) = cb_host_type cb"
  "cb_waker (conn_set_waker_if_changed w cb) = Some w"
  by (auto simp: conn_set_waker_if_changed_def split: option.splits)

lemma handshake_poll_frame:
  "handshake_poll w cb = (cb', r) \<Longrightarrow>
   ordered_bytes cb' = ordered_bytes cb \<and> start_packet_number_set cb' = start_packet_number_set cb \<and>
   cb_addr cb' = cb_addr cb \<and> cb_host_type cb' = cb_host_type cb \<and> cb_packet cb' = None"
  by (auto simp: handshake_poll_def Let_def split: option.splits)

lemma handshake_poll_wf [wf_keep]: "conn_wf cb \<Longrightarrow> handshake_poll w cb = (cb', r) \<Longrightarrow> conn_wf cb'"
  by (drule handshake_poll_frame) (simp add: conn_wf_def)

lemma conn_buffer_in_packet_wf [wf_keep]:
  assumes "conn_wf cb"
  shows "conn_wf (fst (conn_buffer_in_packet p cb))"
  using assms by (simp add: conn_buffer_in_packet_def conn_wf_def Let_def set_start_packet_number_wf)

lemma buffer_in_bytes_wf [wf_keep]:
  assumes "conn_wf cb" and "start_packet_number_set cb"
  shows "conn_wf (fst (buffer_in_bytes p cb))" and "snd (buffer_in_bytes p cb) \<noteq> Panic"
    and "start_packet_number_set (fst (buffer_in_bytes p cb))"
proof -
  obtain ob r where 1: "buffer_in_packet p (ordered_bytes cb) = (ob, r)" by fastforce
  have wf: "ob_wf (ordered_bytes cb)" using assms by (simp add: conn_wf_def)
  show "conn_wf (fst (buffer_in_bytes p cb))" "snd (buffer_in_bytes p cb) \<noteq> Panic"
    "start_packet_number_set (fst (buffer_in_bytes p cb))"
    using buffer_in_packet_wf [OF wf 1] buffer_in_packet_view(5) [OF wf 1] assms(2)
    by (simp_all add: buffer_in_bytes_def 1 conn_wf_def)
qed

text \<open>A failed or empty read of the reassembly buffer, for any \<open>len\<close>: the zero-length read included.\<close>

lemma consume_zero:
  assumes "ob_wf ob"
  shows "consume 0 buf ob =
    (ob, buf, if carry_over_bytes ob = None then Err BufferEmptyError
              else Ok \<lparr>num_packets_consumed = 0, base_packet_number = 0, bytes_consumed = 0\<rparr>)"
proof (cases "carry_over_bytes ob")
  case None
  have i: "smallest_packet_number_index ob < MAX_BUFFER_SIZE" "length (packets ob) = MAX_BUFFER_SIZE"
    using assms by (simp_all add: ob_wf_def)
  have "consume_loop 0 (smallest_packet_number_index ob) 0 0 0 buf ob = (ob, buf, Ok (0, 0))"
    using i by (subst consume_loop.simps) (simp add: Let_def wrap_index_def split: option.split)
  then have "consume_packets 0 0 0 buf ob = (ob, buf, Err BufferEmptyError)"
    using i by (simp add: consume_packets_def Let_def)
  with None show ?thesis by (simp add: consume_def)
next
  case (Some c)
  then have "c \<noteq> []" using assms by (auto simp: ob_wf_def)
  with Some show ?thesis by (simp add: consume_def write_at_0)
qed

lemma consume_wf:
  assumes "ob_wf ob" and "len \<le> length buf" and "consume len buf ob = (ob', buf', r)"
  shows "ob_wf ob' \<and> r \<noteq> Panic \<and> (view ob = replicate MAX_BUFFER_SIZE None \<longrightarrow> view ob' = view ob)"
proof (cases "len = 0")
  case True
  with consume_zero [OF assms(1), of buf] assms show ?thesis by (auto split: if_splits)
next
  case False
  then have pos: "0 < len" by simp
  obtain ob1 k b where c: "consume len buf ob = (ob1, write_at 0 (take len (stream ob)) buf,
       if stream ob = [] then Err BufferEmptyError
       else Ok \<lparr>num_packets_consumed = k, base_packet_number = b, bytes_consumed = of_nat (min len (length (stream ob)))\<rparr>)"
    "ob_wf ob1" "k \<le> length (contiguous ob)" "view ob1 = drop k (view ob) @ replicate k None"
    using consume_spec [OF assms(1) pos assms(2)] by blast
  have "view ob1 = view ob" if "view ob = replicate MAX_BUFFER_SIZE None"
  proof -
    have "contiguous ob = []" using that by (simp add: contiguous_def takeWhile_replicate)
    with c(3,4) show ?thesis by simp
  qed
  moreover have "ob' = ob1" "r \<noteq> Panic" using c(1) assms(3) by (auto split: if_splits)
  ultimately show ?thesis using c(2) by blast
qed

lemma consume_bytes_wf:
  assumes "ob_wf ob" and "consume_bytes out mx ob = (ob', out', r)"
  shows "ob_wf ob' \<and> r \<noteq> Panic \<and> (view ob = replicate MAX_BUFFER_SIZE None \<longrightarrow> view ob' = view ob)"
proof -
  define carry where "carry = (case carry_over_bytes ob of None \<Rightarrow> [] | Some c \<Rightarrow> [c])"
  define k where "k = min (mx - length carry) (length (contiguous ob))"
  define chunks where "chunks = carry @ map payload (take k (contiguous ob))"
  obtain ob1 where c: "consume_bytes out mx ob = (ob1, out @ chunks, if chunks = [] then Err BufferEmptyError
      else Ok \<lparr>num_packets_consumed = k, base_packet_number = first_packet_number ob,
              bytes_consumed = of_nat (length (concat chunks))\<rparr>)" "ob_wf ob1"
    using consume_bytes_spec [OF assms(1), of out mx, folded carry_def, folded k_def, folded chunks_def] by blast
  have e: "ob' = ob1" "r \<noteq> Panic" using c(1) assms(2) by (auto split: if_splits)
  have "view ob' = view ob" if v: "view ob = replicate MAX_BUFFER_SIZE None"
  proof -
    have i: "smallest_packet_number_index ob < MAX_BUFFER_SIZE" "length (packets ob) = MAX_BUFFER_SIZE"
      using assms(1) by (simp_all add: ob_wf_def)
    have "packets ob ! smallest_packet_number_index ob = None"
      using view_at [OF assms(1), of 0] v i by (simp add: wrap_index_def Let_def)
    then have "consume_bytes_loop (length out) mx (smallest_packet_number_index ob) 0 t o1 (ob\<lparr>carry_over_bytes := None\<rparr>)
        = (ob\<lparr>carry_over_bytes := None\<rparr>, o1, Ok (0, t))" for t o1
      using i by (subst consume_bytes_loop.simps) (simp add: Let_def wrap_index_def)
    then have "ob' = ob\<lparr>carry_over_bytes := None\<rparr>"
      using assms(2) i by (simp add: consume_bytes_def Let_def split: option.splits if_splits)
    then show ?thesis by simp
  qed
  with e c(2) show ?thesis by blast
qed

section \<open>Executions\<close>

text \<open>What the receive workers do to a buffer.\<close>

datatype conn_op = BufferAddr SocketAddr | BufferHandshake BluefinPacket | BufferData BluefinPacket | SetDst u32

fun conn_produce :: "conn_op \<Rightarrow> ConnectionBuffer \<Rightarrow> ConnectionBuffer" where
  "conn_produce (BufferAddr a) cb = fst (buffer_in_addr a cb)"
| "conn_produce (BufferHandshake p) cb = fst (conn_buffer_in_packet p cb)"
| "conn_produce (BufferData p) cb = fst (buffer_in_bytes p cb)"
| "conn_produce (SetDst i) cb = set_dst_conn_id i cb"

lemma conn_produce_waker: "cb_waker (conn_produce op cb) = cb_waker cb"
  by (cases op) (simp_all add: buffer_in_addr_def conn_buffer_in_packet_def buffer_in_bytes_def set_dst_conn_id_def
      Let_def split: prod.splits)

interpretation handshake_buffer: wakeable handshake_poll conn_produce conn_take_waker_clone
proof unfold_locales
  show "conn_take_waker_clone cb' = Some w" if "handshake_poll w cb = (cb', None)" for w cb cb'
    using that by (auto simp: handshake_poll_def conn_take_waker_clone_def Let_def split: option.splits)
qed (simp add: conn_take_waker_clone_def conn_produce_waker)

text \<open>A buffer in use: data packets reach it only after a handshake packet has set its start number.\<close>

inductive conn_run :: "BluefinHost \<Rightarrow> ConnectionBuffer \<Rightarrow> bool" for host where
  new: "conn_run host (connection_buffer_new i host)"
| produce: "conn_run host cb \<Longrightarrow> (\<forall>p. op = BufferData p \<longrightarrow> start_packet_number_set cb) \<Longrightarrow> conn_run host (conn_produce op cb)"
| poll: "conn_run host cb \<Longrightarrow> handshake_poll w cb = (cb', r) \<Longrightarrow> conn_run host cb'"
| park: "conn_run host cb \<Longrightarrow> conn_run host (conn_set_waker_if_changed w cb)"
| read: "conn_run host cb \<Longrightarrow> len \<le> length buf \<Longrightarrow> conn_consume len buf cb = (cb', buf', r) \<Longrightarrow> conn_run host cb'"
| read_bytes: "conn_run host cb \<Longrightarrow> conn_consume_bytes out mx cb = (cb', out', r2) \<Longrightarrow> conn_run host cb'"

lemma conn_consume_wf:
  assumes "conn_wf cb" and "len \<le> length buf" and "conn_consume len buf cb = (cb', buf', r)"
  shows "conn_wf cb' \<and> r \<noteq> Panic \<and> cb_host_type cb' = cb_host_type cb"
proof (cases "cb_addr cb")
  case None
  with assms show ?thesis by (auto simp: conn_consume_def)
next
  case (Some a)
  obtain ob b1 r1 where c: "consume len buf (ordered_bytes cb) = (ob, b1, r1)" using prod_cases3 by blast
  have "cb' = cb\<lparr>ordered_bytes := ob\<rparr>" "r = bind_res r1 (\<lambda>res. Ok (res, a))"
    using assms(3) by (simp_all add: conn_consume_def Some c)
  with consume_wf [OF _ assms(2) c] assms(1) show ?thesis by (auto simp: conn_wf_def bind_res_Panic_iff)
qed

lemma conn_consume_bytes_wf:
  assumes "conn_wf cb" and "conn_consume_bytes out mx cb = (cb', out', r)"
  shows "conn_wf cb' \<and> r \<noteq> Panic \<and> cb_host_type cb' = cb_host_type cb"
proof (cases "cb_addr cb")
  case None
  with assms show ?thesis by (auto simp: conn_consume_bytes_def)
next
  case (Some a)
  obtain ob o1 r1 where c: "consume_bytes out mx (ordered_bytes cb) = (ob, o1, r1)" using prod_cases3 by blast
  have "cb' = cb\<lparr>ordered_bytes := ob\<rparr>" "r = bind_res r1 (\<lambda>res. Ok (res, a))"
    using assms(2) by (simp_all add: conn_consume_bytes_def Some c)
  with consume_bytes_wf [OF _ c] assms(1) show ?thesis by (auto simp: conn_wf_def bind_res_Panic_iff)
qed

lemma conn_produce_wf:
  assumes "conn_wf cb" and "\<forall>p. op = BufferData p \<longrightarrow> start_packet_number_set cb"
  shows "conn_wf (conn_produce op cb)"
  using assms by (cases op) (simp_all add: wf_keep)

lemma conn_produce_host: "cb_host_type (conn_produce op cb) = cb_host_type cb"
  by (cases op) (simp_all add: buffer_in_addr_def conn_buffer_in_packet_def buffer_in_bytes_def set_dst_conn_id_def
      Let_def split: prod.splits)

lemma conn_run_wf: "conn_run host cb \<Longrightarrow> conn_wf cb \<and> cb_host_type cb = host"
proof (induction rule: conn_run.induct)
  case (new i)
  then show ?case by (simp add: connection_buffer_new_wf) (simp add: connection_buffer_new_def)
next
  case (produce cb op)
  then show ?case by (simp add: conn_produce_wf conn_produce_host)
next
  case (poll cb w cb' r)
  then show ?case using handshake_poll_wf handshake_poll_frame by blast
next
  case (park cb w)
  then show ?case by (simp add: conn_wf_def)
next
  case (read cb len buf cb' buf' r)
  then show ?case using conn_consume_wf by metis
next
  case (read_bytes cb out mx cb' out' r)
  then show ?case using conn_consume_bytes_wf by metis
qed

lemma conn_peek_wf:
  assumes "conn_wf cb"
  shows "conn_peek cb \<noteq> Panic"
  using assms by (simp add: conn_peek_def ordered_bytes_peek_def conn_wf_def ob_wf_def)



end
