(* ===== verification/Sliding_Window.thy ===== *)
theory Sliding_Window
  imports Proto
begin

text \<open>
  \<open>bluefin/src/utils/window.rs\<close>: the window of received packet numbers. The deque is a list of words, so
  the additions and subtractions wrap as in a release build. \<open>VecDeque::binary_search\<close> is modelled by its
  documented result on a sorted deque, and the invariant \<open>window_inv\<close> shows that the deque is sorted.
  The locale \<open>packet_window\<close> is what the acknowledgement buffer relies on: insertion adds at most the
  range it is given, and consumption removes a gap-free run that starts at the smallest expected number.
\<close>

section \<open>Ranges of packet numbers\<close>

text \<open>\<open>base..=last\<close>, empty when \<open>last < base\<close>.\<close>

definition packet_range :: "u64 \<Rightarrow> u64 \<Rightarrow> u64 list" where
  "packet_range base lst = map of_nat [unat base..<Suc (unat lst)]"

text \<open>The numbers an acknowledgement \<open>(base, count)\<close> covers.\<close>

definition acked_range :: "u64 \<Rightarrow> u16 \<Rightarrow> u64 list" where
  "acked_range base count = (if count = 0 then [] else packet_range base (base + ucast count - 1))"

lemma set_packet_range [simp]: "set (packet_range b l) = {b..l}"
proof -
  have "x \<in> of_nat ` {unat b..<Suc (unat l)}" if "b \<le> x" "x \<le> l" for x
    using that by (intro image_eqI [of _ _ "unat x"]) (auto simp: word_le_nat_alt)
  moreover have "b \<le> of_nat n \<and> (of_nat n :: u64) \<le> l" if "unat b \<le> n" "n < Suc (unat l)" for n
  proof -
    have "n < 2 ^ 64" using that unat_bound [of l] by simp
    then have "unat (of_nat n :: u64) = n" by (simp add: unat_of_nat)
    then show ?thesis using that by (simp add: word_le_nat_alt)
  qed
  ultimately show ?thesis by (auto simp: packet_range_def simp del: upt_Suc)
qed

lemma sorted_packet_range: "sorted_wrt (<) (packet_range b l)"
proof -
  have "(of_nat i :: u64) < of_nat j" if "i < j" "j < Suc (unat l)" for i j
  proof -
    have "j < 2 ^ 64" using that unat_bound [of l] by simp
    then show ?thesis using that by (simp add: word_less_nat_alt unat_of_nat)
  qed
  then show ?thesis
    unfolding packet_range_def sorted_wrt_map
    by (intro sorted_wrt_mono_rel [OF _ sorted_wrt_upt]) (simp del: upt_Suc)
qed

section \<open>The window\<close>

definition MAX_SLIDING_WINDOW_SIZE :: u64 where
  "MAX_SLIDING_WINDOW_SIZE = 40000"

record SlidingWindow =
  smallest_expected_packet_number :: u64
  ordered_packet_numbers :: "u64 list"

record SlidingWindowConsumeResult =
  largest_packet_number :: u64
  num_acks_consumed :: u64

definition window_new :: "u64 \<Rightarrow> SlidingWindow" where
  "window_new s = \<lparr>smallest_expected_packet_number = s, ordered_packet_numbers = []\<rparr>"

datatype search_result = FoundAt usize | InsertAt usize

definition binary_search :: "u64 list \<Rightarrow> u64 \<Rightarrow> search_result" where
  "binary_search xs x =
     (let i = length (takeWhile (\<lambda>y. y < x) xs) in
      if i < length xs \<and> xs ! i = x then FoundAt i else InsertAt i)"

definition insert_packet_number :: "u64 \<Rightarrow> SlidingWindow \<Rightarrow> SlidingWindow \<times> unit BluefinResult" where
  "insert_packet_number n w =
     (let s = smallest_expected_packet_number w; ns = ordered_packet_numbers w in
      if n < s then (w, Err UnexpectedPacketNumberError)
      else if MAX_SLIDING_WINDOW_SIZE \<le> n - s
      then (w, Err (BufferFullError ''Sliding window buffer is full''))
      else if ns = [] then (w\<lparr>ordered_packet_numbers := ns @ [n]\<rparr>, Ok ())
      else if last ns < n then (w\<lparr>ordered_packet_numbers := ns @ [n]\<rparr>, Ok ())
      else if n = last ns then (w, Err UnexpectedPacketNumberError)
      else (case binary_search ns n of
          FoundAt _ \<Rightarrow> (w, Err UnexpectedPacketNumberError)
        | InsertAt i \<Rightarrow> (w\<lparr>ordered_packet_numbers := take i ns @ [n] @ drop i ns\<rparr>, Ok ())))"

text \<open>The slow path of \<open>insert_range\<close>: one insertion per number, stopping at the first error.\<close>

fun insert_each :: "u64 list \<Rightarrow> SlidingWindow \<Rightarrow> SlidingWindow \<times> unit BluefinResult" where
  "insert_each [] w = (w, Ok ())"
| "insert_each (n # ns) w = (case insert_packet_number n w of
      (w', Ok _) \<Rightarrow> insert_each ns w'
    | (w', Err e) \<Rightarrow> (w', Err e)
    | (w', Panic) \<Rightarrow> (w', Panic))"

definition insert_range :: "u64 \<Rightarrow> u16 \<Rightarrow> SlidingWindow \<Rightarrow> SlidingWindow \<times> unit BluefinResult" where
  "insert_range base count w =
     (if count = 0 then (w, Ok ())
      else if base < smallest_expected_packet_number w then (w, Err UnexpectedPacketNumberError)
      else let lst = base + ucast count - 1 in
        if MAX_SLIDING_WINDOW_SIZE \<le> lst - smallest_expected_packet_number w
        then (w, Err (BufferFullError ''Sliding window buffer is full''))
        else if ordered_packet_numbers w = [] \<or> last (ordered_packet_numbers w) < base
        then (w\<lparr>ordered_packet_numbers := ordered_packet_numbers w @ packet_range base lst\<rparr>, Ok ())
        else insert_each (packet_range base lst) w)"

text \<open>The \<open>while\<close> loop of \<open>consume\<close>: pops while the next number is contiguous.\<close>

fun consume_run :: "u64 \<Rightarrow> u64 list \<Rightarrow> u64 \<times> u64 list" where
  "consume_run lst [] = (lst, [])"
| "consume_run lst (p # ps) = (if p = lst + 1 then consume_run p ps else (lst, p # ps))"

definition window_consume :: "SlidingWindow \<Rightarrow> SlidingWindow \<times> SlidingWindowConsumeResult option" where
  "window_consume w = (case ordered_packet_numbers w of
      [] \<Rightarrow> (w, None)
    | p # ps \<Rightarrow>
        if smallest_expected_packet_number w < p then (w, None)
        else let (lst, rest) = consume_run p ps; prev = smallest_expected_packet_number w in
          (\<lparr>smallest_expected_packet_number = lst + 1, ordered_packet_numbers = rest\<rparr>,
           Some \<lparr>largest_packet_number = lst, num_acks_consumed = lst - prev + 1\<rparr>))"

section \<open>Invariant\<close>

definition window_inv :: "SlidingWindow \<Rightarrow> bool" where
  "window_inv w \<longleftrightarrow> sorted_wrt (<) (ordered_packet_numbers w) \<and>
     (\<forall>n \<in> set (ordered_packet_numbers w). smallest_expected_packet_number w \<le> n \<and>
        n - smallest_expected_packet_number w < MAX_SLIDING_WINDOW_SIZE)"

definition pending :: "SlidingWindow \<Rightarrow> u64 set" where
  "pending w = set (ordered_packet_numbers w)"

lemma window_new_inv [wf_keep]: "window_inv (window_new s)" "pending (window_new s) = {}"
  by (simp_all add: window_inv_def window_new_def pending_def)

text \<open>On a sorted deque, the search finds the element or the place \<open>insort\<close> puts it.\<close>

lemma insort_takeWhile:
  "sorted_wrt (<) xs \<Longrightarrow> x \<notin> set xs \<Longrightarrow>
   insort x xs = takeWhile (\<lambda>y. y < x) xs @ [x] @ drop (length (takeWhile (\<lambda>y. y < x) xs)) xs"
  for xs :: "'a::linorder list"
  by (induction xs) (auto simp: insort_is_Cons not_less)

lemma takeWhile_hit:
  "sorted_wrt (<) xs \<Longrightarrow> length (takeWhile (\<lambda>y. y < x) xs) < length xs \<and> xs ! length (takeWhile (\<lambda>y. y < x) xs) = x
     \<longleftrightarrow> x \<in> set xs" for xs :: "'a::linorder list"
  by (induction xs) auto

lemma sorted_wrt_le_last: "sorted_wrt (<) xs \<Longrightarrow> y \<in> set xs \<Longrightarrow> y \<le> last xs" for xs :: "'a::linorder list"
  by (induction xs) (auto intro: less_imp_le)

lemma insert_packet_number_ref:
  assumes "window_inv w"
  shows "insert_packet_number n w =
    (if n < smallest_expected_packet_number w then (w, Err UnexpectedPacketNumberError)
     else if MAX_SLIDING_WINDOW_SIZE \<le> n - smallest_expected_packet_number w
     then (w, Err (BufferFullError ''Sliding window buffer is full''))
     else if n \<in> pending w then (w, Err UnexpectedPacketNumberError)
     else (w\<lparr>ordered_packet_numbers := insort n (ordered_packet_numbers w)\<rparr>, Ok ()))"
proof -
  let ?ns = "ordered_packet_numbers w"
  have sorted: "sorted_wrt (<) ?ns" using assms by (simp add: window_inv_def)
  have app: "n \<notin> set ?ns \<and> insort n ?ns = ?ns @ [n]" if "last ?ns < n"
  proof -
    have less: "y < n" if "y \<in> set ?ns" for y
      using sorted_wrt_le_last [OF sorted that] \<open>last ?ns < n\<close> by (rule le_less_trans)
    moreover have "sorted ?ns" using sorted by (simp add: strict_sorted_iff)
    ultimately show ?thesis by (auto intro: sorted_insort_is_snoc less_imp_le dest: less)
  qed
  have slow: "binary_search ?ns n = (if n \<in> set ?ns then FoundAt (length (takeWhile (\<lambda>y. y < n) ?ns))
      else InsertAt (length (takeWhile (\<lambda>y. y < n) ?ns)))"
    using takeWhile_hit [OF sorted, of n] by (simp add: binary_search_def Let_def)
  show ?thesis
  proof -
    consider (empty) "?ns = []" | (at_end) "?ns \<noteq> []" "last ?ns < n" | (inside) "?ns \<noteq> []" "\<not> last ?ns < n"
      by blast
    then show ?thesis
    proof cases
      case empty
      then show ?thesis by (simp add: insert_packet_number_def Let_def pending_def)
    next
      case at_end
      with app [OF at_end(2)] show ?thesis by (simp add: insert_packet_number_def Let_def pending_def)
    next
      case inside
      have pos: "insort n ?ns = take (length (takeWhile (\<lambda>y. y < n) ?ns)) ?ns @ [n]
          @ drop (length (takeWhile (\<lambda>y. y < n) ?ns)) ?ns" if "n \<notin> set ?ns"
        using insort_takeWhile [OF sorted that] by (metis takeWhile_eq_take)
      have "n \<noteq> last ?ns" if "n \<notin> set ?ns" using inside that by auto
      with inside pos show ?thesis
        by (cases "n \<in> set ?ns") (simp_all add: insert_packet_number_def Let_def pending_def slow)
    qed
  qed
qed

lemma window_inv_insort:
  assumes "window_inv w" and "smallest_expected_packet_number w \<le> n" and "n \<notin> pending w"
    and "n - smallest_expected_packet_number w < MAX_SLIDING_WINDOW_SIZE"
  shows "window_inv (w\<lparr>ordered_packet_numbers := insort n (ordered_packet_numbers w)\<rparr>)"
  using assms by (auto simp: window_inv_def pending_def strict_sorted_iff sorted_insort set_insort_key
      distinct_insort)

lemma insert_packet_number_inv [wf_keep]:
  "window_inv w \<Longrightarrow> insert_packet_number n w = (w', r) \<Longrightarrow> window_inv w'"
  by (auto simp: insert_packet_number_ref window_inv_insort not_less not_le split: if_splits)

lemma insert_packet_number_smallest:
  "window_inv w \<Longrightarrow> insert_packet_number n w = (w', r) \<Longrightarrow>
   smallest_expected_packet_number w' = smallest_expected_packet_number w"
  by (auto simp: insert_packet_number_ref split: if_splits)

lemma insert_packet_number_pending:
  "window_inv w \<Longrightarrow> insert_packet_number n w = (w', r) \<Longrightarrow>
   pending w' = (if r = Ok () then insert n (pending w) else pending w)"
  by (auto simp: insert_packet_number_ref pending_def set_insort_key split: if_splits)

lemma insert_each_keeps:
  "window_inv w \<Longrightarrow> insert_each ns w = (w', r) \<Longrightarrow>
   window_inv w' \<and> smallest_expected_packet_number w' = smallest_expected_packet_number w \<and>
   pending w \<subseteq> pending w' \<and> pending w' \<subseteq> pending w \<union> set ns \<and> (r = Ok () \<longrightarrow> pending w' = pending w \<union> set ns)"
proof (induction ns arbitrary: w)
  case (Cons n ns)
  obtain w1 r1 where 1: "insert_packet_number n w = (w1, r1)" by fastforce
  note keep = insert_packet_number_inv [OF Cons.prems(1) 1] insert_packet_number_smallest [OF Cons.prems(1) 1]
    insert_packet_number_pending [OF Cons.prems(1) 1]
  show ?case
  proof (cases r1)
    case (Ok u)
    with Cons.prems(2) 1 have "insert_each ns w1 = (w', r)" by simp
    with Cons.IH [OF keep(1) this] keep(2,3) Ok show ?thesis by auto
  qed (use Cons.prems 1 keep in auto)
qed simp

text \<open>The fast path of \<open>insert_range\<close> is the slow path: appending a range beyond the last element is what one
  insertion per number does.\<close>

lemma insert_each_append:
  "window_inv w \<Longrightarrow> sorted_wrt (<) ns \<Longrightarrow>
   \<forall>n \<in> set ns. smallest_expected_packet_number w \<le> n \<and> n - smallest_expected_packet_number w < MAX_SLIDING_WINDOW_SIZE
     \<and> (ordered_packet_numbers w = [] \<or> last (ordered_packet_numbers w) < n) \<Longrightarrow>
   insert_each ns w = (w\<lparr>ordered_packet_numbers := ordered_packet_numbers w @ ns\<rparr>, Ok ())"
proof (induction ns arbitrary: w)
  case (Cons n ns)
  let ?w = "w\<lparr>ordered_packet_numbers := ordered_packet_numbers w @ [n]\<rparr>"
  have 1: "insert_packet_number n w = (?w, Ok ())"
    using Cons.prems(3) by (auto simp: insert_packet_number_def Let_def not_less not_le)
  then have "window_inv ?w" using Cons.prems(1) insert_packet_number_inv by blast
  with Cons.IH [of ?w] Cons.prems have "insert_each ns ?w = (?w\<lparr>ordered_packet_numbers := ordered_packet_numbers ?w @ ns\<rparr>, Ok ())"
    by simp
  with 1 show ?case by simp
qed simp

lemma range_in_window:
  fixes b l s n :: u64
  assumes "s \<le> b" and "l - s < m" and "n \<in> {b..l}"
  shows "s \<le> n \<and> n - s < m"
  using assms by (auto simp: word_le_nat_alt word_less_nat_alt unat_sub)

lemma insert_range_ref:
  assumes "window_inv w"
  shows "insert_range base count w =
    (if count = 0 then (w, Ok ())
     else if base < smallest_expected_packet_number w then (w, Err UnexpectedPacketNumberError)
     else if MAX_SLIDING_WINDOW_SIZE \<le> base + ucast count - 1 - smallest_expected_packet_number w
     then (w, Err (BufferFullError ''Sliding window buffer is full''))
     else insert_each (acked_range base count) w)"
proof -
  let ?l = "base + ucast count - 1"
  have "insert_each (packet_range base ?l) w
      = (w\<lparr>ordered_packet_numbers := ordered_packet_numbers w @ packet_range base ?l\<rparr>, Ok ())"
    if "\<not> base < smallest_expected_packet_number w"
      "\<not> MAX_SLIDING_WINDOW_SIZE \<le> ?l - smallest_expected_packet_number w"
      "ordered_packet_numbers w = [] \<or> last (ordered_packet_numbers w) < base"
  proof (rule insert_each_append [OF assms sorted_packet_range], intro ballI conjI)
    fix n assume n: "n \<in> set (packet_range base ?l)"
    show "smallest_expected_packet_number w \<le> n" "n - smallest_expected_packet_number w < MAX_SLIDING_WINDOW_SIZE"
      using range_in_window [of "smallest_expected_packet_number w" base ?l MAX_SLIDING_WINDOW_SIZE n] n that
      by (simp_all add: not_less not_le)
    show "ordered_packet_numbers w = [] \<or> last (ordered_packet_numbers w) < n"
      using that(3) n by auto
  qed
  then show ?thesis by (simp add: insert_range_def acked_range_def Let_def)
qed

section \<open>Consumption takes the maximal contiguous run\<close>

lemma consume_run_spec:
  "sorted_wrt (<) (lst # ps) \<Longrightarrow> consume_run lst ps = (l, rest) \<Longrightarrow>
   lst \<le> l \<and> set (lst # ps) = {lst..l} \<union> set rest \<and> sorted_wrt (<) (l # rest) \<and> l + 1 \<notin> set rest"
proof (induction ps arbitrary: lst)
  case Nil
  then show ?case by auto
next
  case (Cons p ps)
  show ?case
  proof (cases "p = lst + 1")
    case True
    have "lst < lst + 1" using Cons.prems(1) True by simp
    then have "insert lst {lst + 1..l} = {lst..l}" if "lst + 1 \<le> l"
      using that by (auto simp: word_le_nat_alt word_less_nat_alt) (unat_arith)+
    moreover have "lst + 1 \<le> l \<and> set ((lst + 1) # ps) = {lst + 1..l} \<union> set rest \<and> sorted_wrt (<) (l # rest) \<and> l + 1 \<notin> set rest"
      using Cons.IH [of "lst + 1"] Cons.prems True by simp
    ultimately show ?thesis using \<open>lst < lst + 1\<close> True by auto
  next
    case False
    then have r: "l = lst" "rest = p # ps" using Cons.prems(2) by auto
    have "lst + 1 < q" if "q \<in> set ps" for q
    proof -
      have "lst < p" "p < q" using Cons.prems(1) that by auto
      then show ?thesis by unat_arith
    qed
    with r Cons.prems(1) False show ?thesis by auto
  qed
qed

lemma window_consume_None:
  "window_inv w \<Longrightarrow> window_consume w = (w', None) \<longleftrightarrow> w' = w \<and> smallest_expected_packet_number w \<notin> pending w"
  by (cases "ordered_packet_numbers w")
    (auto simp: window_consume_def window_inv_def pending_def Let_def not_less
      split: prod.splits if_splits)

lemma window_consume_Some:
  assumes inv: "window_inv w" and c: "window_consume w = (w', Some r)"
  defines "s \<equiv> smallest_expected_packet_number w" and "l \<equiv> largest_packet_number r"
  shows "s \<le> l" and "num_acks_consumed r = l - s + 1" and "pending w = {s..l} \<union> pending w'"
    and "pending w' \<inter> {s..l} = {}" and "smallest_expected_packet_number w' = l + 1"
    and "l + 1 \<notin> pending w'" and "window_inv w'"
proof -
  obtain p ps where ps: "ordered_packet_numbers w = p # ps" "p \<le> s"
    using c by (cases "ordered_packet_numbers w") (auto simp: window_consume_def s_def not_less split: if_splits)
  with inv have p: "p = s" "sorted_wrt (<) (s # ps)" by (auto simp: window_inv_def s_def)
  obtain rest where run: "consume_run s ps = (l, rest)"
    and w': "w' = \<lparr>smallest_expected_packet_number = l + 1, ordered_packet_numbers = rest\<rparr>"
    and n: "num_acks_consumed r = l - s + 1"
    using c ps p(1) by (auto simp: window_consume_def s_def l_def Let_def split: prod.splits)
  note spec = consume_run_spec [OF p(2) run]
  from spec n show "s \<le> l" "num_acks_consumed r = l - s + 1" by simp_all
  show "pending w = {s..l} \<union> pending w'" "smallest_expected_packet_number w' = l + 1" "l + 1 \<notin> pending w'"
    using spec ps(1) p(1) w' by (simp_all add: pending_def)
  show "pending w' \<inter> {s..l} = {}" using spec w' by (force simp: pending_def)
  have "l + 1 \<le> q \<and> q - (l + 1) < MAX_SLIDING_WINDOW_SIZE" if q: "q \<in> set rest" for q
  proof -
    have "l < q" using spec q by simp
    moreover have "q - s < MAX_SLIDING_WINDOW_SIZE"
    proof -
      have "q \<in> set (ordered_packet_numbers w)" using spec q ps(1) p(1) by auto
      then show ?thesis using inv by (simp add: window_inv_def s_def)
    qed
    moreover note \<open>s \<le> l\<close>
    ultimately show ?thesis by unat_arith
  qed
  with spec w' show "window_inv w'" by (simp add: window_inv_def)
qed

section \<open>What clients rely on\<close>

datatype window_op = InsertRange u64 u16 | Consume

fun run_window :: "(u64 \<Rightarrow> u16 \<Rightarrow> 's \<Rightarrow> 's \<times> unit BluefinResult) \<Rightarrow>
    ('s \<Rightarrow> 's \<times> SlidingWindowConsumeResult option) \<Rightarrow> window_op list \<Rightarrow> 's \<Rightarrow> 's \<times> SlidingWindowConsumeResult list" where
  "run_window ins con [] s = (s, [])"
| "run_window ins con (InsertRange b c # ops) s = run_window ins con ops (fst (ins b c s))"
| "run_window ins con (Consume # ops) s = (case con s of
      (s', None) \<Rightarrow> run_window ins con ops s'
    | (s', Some r) \<Rightarrow> (case run_window ins con ops s' of (s'', rs) \<Rightarrow> (s'', r # rs)))"

text \<open>The numbers offered by a sequence of operations, the numbers a consume result acknowledges, and that a
  sequence of results acknowledges consecutive runs from a first number on.\<close>

definition offered :: "window_op list \<Rightarrow> u64 set" where
  "offered ops = \<Union> (set (map (\<lambda>op. case op of InsertRange b c \<Rightarrow> set (acked_range b c) | Consume \<Rightarrow> {}) ops))"

definition acked :: "SlidingWindowConsumeResult \<Rightarrow> u64 set" where
  "acked r = {largest_packet_number r - num_acks_consumed r + 1..largest_packet_number r}"

fun consecutive :: "u64 \<Rightarrow> SlidingWindowConsumeResult list \<Rightarrow> bool" where
  "consecutive s [] = True"
| "consecutive s (r # rs) = (s \<le> largest_packet_number r \<and>
     largest_packet_number r - num_acks_consumed r + 1 = s \<and> consecutive (largest_packet_number r + 1) rs)"

locale packet_window =
  fixes inv :: "'s \<Rightarrow> bool" and first :: "'s \<Rightarrow> u64" and held :: "'s \<Rightarrow> u64 set"
    and ins :: "u64 \<Rightarrow> u16 \<Rightarrow> 's \<Rightarrow> 's \<times> unit BluefinResult"
    and con :: "'s \<Rightarrow> 's \<times> SlidingWindowConsumeResult option"
  assumes ins_inv: "inv s \<Longrightarrow> inv (fst (ins b c s))"
    and ins_first: "inv s \<Longrightarrow> first (fst (ins b c s)) = first s"
    and ins_held: "inv s \<Longrightarrow> held (fst (ins b c s)) \<subseteq> held s \<union> set (acked_range b c)"
    and con_None: "inv s \<Longrightarrow> con s = (s', None) \<Longrightarrow> s' = s"
    and con_Some: "inv s \<Longrightarrow> con s = (s', Some r) \<Longrightarrow>
      inv s' \<and> first s \<le> largest_packet_number r \<and> num_acks_consumed r = largest_packet_number r - first s + 1 \<and>
      held s = {first s..largest_packet_number r} \<union> held s' \<and> first s' = largest_packet_number r + 1"
begin

lemma run_sound:
  "inv s \<Longrightarrow> run_window ins con ops s = (s', rs) \<Longrightarrow>
   inv s' \<and> consecutive (first s) rs \<and> (\<Union>r\<in>set rs. acked r) \<union> held s' \<subseteq> held s \<union> offered ops"
proof (induction ops arbitrary: s rs)
  case Nil
  then show ?case by simp
next
  case (Cons op ops)
  show ?case
  proof (cases op)
    case (InsertRange b c)
    with Cons.prems have "run_window ins con ops (fst (ins b c s)) = (s', rs)" by simp
    from Cons.IH [OF ins_inv [OF Cons.prems(1)] this] ins_first [OF Cons.prems(1)] ins_held [OF Cons.prems(1), of b c]
      InsertRange
    show ?thesis by (auto simp: offered_def)
  next
    case Consume
    obtain s1 res where c: "con s = (s1, res)" by fastforce
    show ?thesis
    proof (cases res)
      case None
      with con_None [OF Cons.prems(1)] c Cons.prems Consume Cons.IH [of s rs] show ?thesis
        by (auto simp: offered_def)
    next
      case (Some r)
      then obtain rs' where r: "run_window ins con ops s1 = (s', rs')" "rs = r # rs'"
        using Cons.prems Consume c by (auto split: prod.splits)
      note cs = con_Some [OF Cons.prems(1) c [unfolded Some]]
      with Cons.IH [of s1 rs'] r Consume show ?thesis by (auto simp: offered_def acked_def)
    qed
  qed
qed

end

lemma insert_range_keeps:
  assumes "window_inv w" and "insert_range b c w = (w', r)"
  shows "window_inv w' \<and> smallest_expected_packet_number w' = smallest_expected_packet_number w \<and>
   pending w \<subseteq> pending w' \<and> pending w' \<subseteq> pending w \<union> set (acked_range b c) \<and>
   (r = Ok () \<longrightarrow> pending w' = pending w \<union> set (acked_range b c))"
proof (cases "insert_each (acked_range b c) w = (w', r)")
  case True
  then show ?thesis using insert_each_keeps [OF assms(1)] by blast
next
  case False
  then have "w' = w \<and> (c = 0 \<or> r \<noteq> Ok ())"
    using assms(2) unfolding insert_range_ref [OF assms(1)] by (auto split: if_splits)
  then show ?thesis using assms(1) by (auto simp: acked_range_def)
qed

interpretation window: packet_window window_inv smallest_expected_packet_number pending insert_range window_consume
proof unfold_locales
  fix s b c assume "window_inv s"
  from insert_range_keeps [OF this, of b c "fst (insert_range b c s)" "snd (insert_range b c s)"]
  show "window_inv (fst (insert_range b c s))"
    "smallest_expected_packet_number (fst (insert_range b c s)) = smallest_expected_packet_number s"
    "pending (fst (insert_range b c s)) \<subseteq> pending s \<union> set (acked_range b c)" by simp_all
next
  show "window_inv s \<Longrightarrow> window_consume s = (s', None) \<Longrightarrow> s' = s" for s s'
    by (simp add: window_consume_None)
next
  fix s s' r assume "window_inv s" "window_consume s = (s', Some r)"
  from window_consume_Some [OF this] show "window_inv s' \<and> smallest_expected_packet_number s \<le> largest_packet_number r \<and>
      num_acks_consumed r = largest_packet_number r - smallest_expected_packet_number s + 1 \<and>
      pending s = {smallest_expected_packet_number s..largest_packet_number r} \<union> pending s' \<and>
      smallest_expected_packet_number s' = largest_packet_number r + 1" by blast
qed

section \<open>Properties\<close>

text \<open>Inserting a packet number through the fast paths and the binary search is the reference insertion:
  numbers already consumed, numbers 40000 or more ahead and duplicates are refused with the window
  unchanged, and every other number is put in sorted position.\<close>

lemma insert_packet_number_equiv:
  assumes "window_inv w"
  shows "insert_packet_number n w =
    (if n < smallest_expected_packet_number w then (w, Err UnexpectedPacketNumberError)
     else if 40000 \<le> n - smallest_expected_packet_number w
     then (w, Err (BufferFullError ''Sliding window buffer is full''))
     else if n \<in> pending w then (w, Err UnexpectedPacketNumberError)
     else (w\<lparr>ordered_packet_numbers := insort n (ordered_packet_numbers w)\<rparr>, Ok ()))"
  using insert_packet_number_ref [OF assms, of n] by (simp add: MAX_SLIDING_WINDOW_SIZE_def)

text \<open>C15. Inserting a range \<open>(base, count)\<close> in one shot, fast path included, is the same as checking the
  bounds of the whole range and then inserting its numbers one by one in ascending order, with the same
  partial effect and the same error when one of them is a duplicate.\<close>

theorem insert_range_equiv:
  assumes "window_inv w"
  shows "insert_range base count w =
    (if count = 0 then (w, Ok ())
     else if base < smallest_expected_packet_number w then (w, Err UnexpectedPacketNumberError)
     else if 40000 \<le> base + ucast count - 1 - smallest_expected_packet_number w
     then (w, Err (BufferFullError ''Sliding window buffer is full''))
     else insert_each (acked_range base count) w)"
  using insert_range_ref [OF assms, of base count] by (simp add: MAX_SLIDING_WINDOW_SIZE_def)

theorem insert_range_equiv_witness:
  "window_inv \<lparr>smallest_expected_packet_number = 3, ordered_packet_numbers = [5]\<rparr> \<and>
   insert_range 7 3 \<lparr>smallest_expected_packet_number = 3, ordered_packet_numbers = [5]\<rparr>
     = insert_each (acked_range 7 3) \<lparr>smallest_expected_packet_number = 3, ordered_packet_numbers = [5]\<rparr>"
proof -
  have inv: "window_inv \<lparr>smallest_expected_packet_number = 3, ordered_packet_numbers = [5]\<rparr>"
    by (simp add: window_inv_def MAX_SLIDING_WINDOW_SIZE_def)
  with insert_range_equiv [OF inv, of 7 3] show ?thesis by simp
qed



end
