(* ===== verification/Ack_Handler.thy ===== *)
theory Ack_Handler
  imports Net Sliding_Window
begin

text \<open>
  \<open>bluefin/src/net/ack_handler.rs\<close>: the buffer of received acknowledgements, the future that waits for a
  contiguous run, and the consumer task that publishes the largest acknowledged packet number. The mutex
  makes every operation on the buffer one atomic step, so an execution is a sequence of \<open>ack_event\<close>s.
  The consumer's guarantees come from the window's contract (\<open>packet_window\<close>).
\<close>

record AckBuffer =
  received_acks :: SlidingWindow
  ack_waker :: "Waker option"

definition ack_buffer_new :: "u64 \<Rightarrow> AckBuffer" where
  "ack_buffer_new n = \<lparr>received_acks = window_new n, ack_waker = None\<rparr>"

definition buffer_in_ack_packet :: "BluefinPacket \<Rightarrow> AckBuffer \<Rightarrow> AckBuffer \<times> unit BluefinResult" where
  "buffer_in_ack_packet packet ab =
     (let num_packets_to_ack = type_specific_payload (header packet);
          base_packet_num = packet_number (header packet);
          (w, r) = insert_range base_packet_num num_packets_to_ack (received_acks ab) in
      (ab\<lparr>received_acks := w\<rparr>, r))"

definition ack_consume :: "AckBuffer \<Rightarrow> AckBuffer \<times> SlidingWindowConsumeResult option" where
  "ack_consume ab = (case window_consume (received_acks ab) of (w, r) \<Rightarrow> (ab\<lparr>received_acks := w\<rparr>, r))"

text \<open>\<open>wake\<close> returns the waker it fires.\<close>

definition ack_wake :: "AckBuffer \<Rightarrow> Waker BluefinResult" where
  "ack_wake ab = (case ack_waker ab of Some w \<Rightarrow> Ok w | None \<Rightarrow> Err NoSuchWakerError)"

definition ack_take_waker_clone :: "AckBuffer \<Rightarrow> Waker option" where
  "ack_take_waker_clone ab = ack_waker ab"

text \<open>\<open>AckConsumerFuture::poll\<close> by the task \<open>cx\<close>.\<close>

definition ack_poll :: "Waker \<Rightarrow> AckBuffer \<Rightarrow> AckBuffer \<times> SlidingWindowConsumeResult option" where
  "ack_poll cx ab = (case ack_consume ab of
      (ab', Some res) \<Rightarrow> (ab', Some res)
    | (ab', None) \<Rightarrow>
        (case ack_waker ab' of
           Some existing \<Rightarrow> if existing = cx then (ab', None) else (ab'\<lparr>ack_waker := Some cx\<rparr>, None)
         | None \<Rightarrow> (ab'\<lparr>ack_waker := Some cx\<rparr>, None)))"

text \<open>One turn of \<open>AckConsumer::run\<close>: poll, and store the result if there is one.\<close>

record AckConsumer =
  ack_buff :: AckBuffer
  largest_recv_acked_packet_num :: u64

definition ack_consumer_turn :: "Waker \<Rightarrow> AckConsumer \<Rightarrow> AckConsumer \<times> SlidingWindowConsumeResult option" where
  "ack_consumer_turn cx c = (case ack_poll cx (ack_buff c) of
      (ab, Some res) \<Rightarrow> (c\<lparr>ack_buff := ab, largest_recv_acked_packet_num := largest_packet_number res\<rparr>, Some res)
    | (ab, None) \<Rightarrow> (c\<lparr>ack_buff := ab\<rparr>, None))"

section \<open>Wake-ups\<close>

interpretation ack_buffer: wakeable ack_poll "\<lambda>p ab. fst (buffer_in_ack_packet p ab)" ack_take_waker_clone
proof unfold_locales
  show "ack_take_waker_clone s' = Some w" if "ack_poll w s = (s', None)" for w s s'
    using that by (auto simp: ack_poll_def ack_take_waker_clone_def split: prod.splits option.splits if_splits)
  show "ack_take_waker_clone (fst (buffer_in_ack_packet p s)) = ack_take_waker_clone s" for p s
    by (simp add: ack_take_waker_clone_def buffer_in_ack_packet_def Let_def split: prod.splits)
qed

section \<open>Executions\<close>

datatype ack_event = AckArrives BluefinPacket | ConsumerPolls Waker

fun run_acks :: "ack_event list \<Rightarrow> AckConsumer \<Rightarrow> AckConsumer \<times> SlidingWindowConsumeResult list" where
  "run_acks [] c = (c, [])"
| "run_acks (AckArrives p # evs) c =
     run_acks evs (c\<lparr>ack_buff := fst (buffer_in_ack_packet p (ack_buff c))\<rparr>)"
| "run_acks (ConsumerPolls w # evs) c = (case ack_consumer_turn w c of
      (c', None) \<Rightarrow> run_acks evs c'
    | (c', Some r) \<Rightarrow> (case run_acks evs c' of (c'', rs) \<Rightarrow> (c'', r # rs)))"

fun window_op_of :: "ack_event \<Rightarrow> window_op" where
  "window_op_of (AckArrives p) = InsertRange (packet_number (header p)) (type_specific_payload (header p))"
| "window_op_of (ConsumerPolls w) = Consume"

text \<open>The packet numbers that the received acknowledgement packets cover.\<close>

definition covered :: "ack_event list \<Rightarrow> u64 set" where
  "covered evs = \<Union> (set (map (\<lambda>ev. case ev of
      AckArrives p \<Rightarrow> set (acked_range (packet_number (header p)) (type_specific_payload (header p)))
    | ConsumerPolls w \<Rightarrow> {}) evs))"

lemma offered_covered: "offered (map window_op_of evs) = covered evs"
proof -
  have "(case window_op_of ev of InsertRange b c \<Rightarrow> set (acked_range b c) | Consume \<Rightarrow> {}) =
      (case ev of AckArrives p \<Rightarrow> set (acked_range (packet_number (header p)) (type_specific_payload (header p)))
       | ConsumerPolls w \<Rightarrow> {})" for ev
    by (cases ev) auto
  then show ?thesis by (simp add: offered_def covered_def)
qed

lemma ack_consumer_turn_cases:
  assumes "ack_consumer_turn w c = (c', res)"
  shows "window_consume (received_acks (ack_buff c)) = (received_acks (ack_buff c'), res) \<and>
    largest_recv_acked_packet_num c' = (case res of None \<Rightarrow> largest_recv_acked_packet_num c | Some r \<Rightarrow> largest_packet_number r)"
  using assms
  by (auto simp: ack_consumer_turn_def ack_poll_def ack_consume_def split: prod.splits option.splits if_splits)

text \<open>The consumer simulates a window that is offered the acknowledged ranges.\<close>

lemma run_acks_window:
  "run_acks evs c = (c', rs) \<Longrightarrow>
   run_window insert_range window_consume (map window_op_of evs) (received_acks (ack_buff c))
     = (received_acks (ack_buff c'), rs) \<and>
   largest_recv_acked_packet_num c' =
     (if rs = [] then largest_recv_acked_packet_num c else largest_packet_number (last rs))"
proof (induction evs arbitrary: c rs)
  case (Cons ev evs)
  show ?case
  proof (cases ev)
    case (AckArrives p)
    with Cons.prems Cons.IH [of "c\<lparr>ack_buff := fst (buffer_in_ack_packet p (ack_buff c))\<rparr>" rs] show ?thesis
      by (auto simp: buffer_in_ack_packet_def Let_def split: prod.splits)
  next
    case (ConsumerPolls w)
    obtain c1 res where t: "ack_consumer_turn w c = (c1, res)" by fastforce
    note tc = ack_consumer_turn_cases [OF t]
    show ?thesis
    proof (cases res)
      case None
      with Cons.prems ConsumerPolls t tc Cons.IH [of c1 rs] show ?thesis by simp
    next
      case (Some r)
      then obtain rs' where "run_acks evs c1 = (c', rs')" "rs = r # rs'"
        using Cons.prems ConsumerPolls t by (auto split: prod.splits)
      with Cons.IH [of c1 rs'] ConsumerPolls tc Some show ?thesis by auto
    qed
  qed
qed simp


definition sample_ack :: "u64 \<Rightarrow> u16 \<Rightarrow> BluefinPacket" where
  "sample_ack n k = \<lparr>header = header_default\<lparr>type_field := Ack, packet_number := n, type_specific_payload := k\<rparr>, payload = []\<rparr>"


end
