(* ===== verification/Close_Handler.thy ===== *)
theory Close_Handler
  imports Net
begin

text \<open>
  \<open>bluefin/src/net/close_handler.rs\<close>: the per-connection close buffer and its state machine. The
  \<open>AtomicBool\<close> mirror \<open>peer_fin_observed\<close> is a field of the record (it is only written under the buffer's
  mutex), and \<open>fin_ack_notify\<close> counts the calls of \<open>notify_waiters\<close>. The step relation \<open>close_step\<close> covers
  every caller: the receive path, the FIN-ACK drainer and \<open>BluefinConnection::close\<close>.
\<close>

datatype CloseState = Active | PeerFinReceived (fin_packet_num: u64) | LocalFinSent (fin_packet_num: u64) | Closed

record CloseBuffer =
  close_state :: CloseState
  pending_fin_ack_send :: "u64 option"
  received_fin_ack_for :: "u64 option"
  peer_fin_observed :: bool
  fin_ack_notify :: nat
  close_waker :: "Waker option"

definition close_buffer_new :: "bool \<Rightarrow> CloseBuffer" where
  "close_buffer_new observed = \<lparr>close_state = Active, pending_fin_ack_send = None, received_fin_ack_for = None,
     peer_fin_observed = observed, fin_ack_notify = 0, close_waker = None\<rparr>"

definition buffer_in_fin :: "BluefinPacket \<Rightarrow> CloseBuffer \<Rightarrow> CloseBuffer" where
  "buffer_in_fin packet cb =
     (let pn = packet_number (header packet) in
      case close_state cb of
        Active \<Rightarrow> cb\<lparr>close_state := PeerFinReceived pn, pending_fin_ack_send := Some pn, peer_fin_observed := True\<rparr>
      | LocalFinSent local_pn \<Rightarrow>
          (let cb1 = cb\<lparr>pending_fin_ack_send := Some pn, peer_fin_observed := True\<rparr> in
           if received_fin_ack_for cb1 = Some local_pn then cb1\<lparr>close_state := PeerFinReceived pn\<rparr>
           else cb1\<lparr>close_state := PeerFinReceived pn\<rparr>)
      | PeerFinReceived n \<Rightarrow> if n = pn then cb\<lparr>pending_fin_ack_send := Some pn\<rparr> else cb
      | Closed \<Rightarrow> cb)"

definition buffer_in_fin_ack :: "BluefinPacket \<Rightarrow> CloseBuffer \<Rightarrow> CloseBuffer" where
  "buffer_in_fin_ack packet cb =
     cb\<lparr>received_fin_ack_for := Some (packet_number (header packet)), fin_ack_notify := fin_ack_notify cb + 1\<rparr>"

definition take_pending_fin_ack_send :: "CloseBuffer \<Rightarrow> CloseBuffer \<times> u64 option" where
  "take_pending_fin_ack_send cb = (cb\<lparr>pending_fin_ack_send := None\<rparr>, pending_fin_ack_send cb)"

definition mark_closed :: "CloseBuffer \<Rightarrow> CloseBuffer" where
  "mark_closed cb = cb\<lparr>close_state := Closed\<rparr>"

definition record_local_fin_sent :: "u64 \<Rightarrow> CloseBuffer \<Rightarrow> CloseBuffer" where
  "record_local_fin_sent n cb = (case close_state cb of
      Active \<Rightarrow> cb\<lparr>close_state := LocalFinSent n\<rparr>
    | PeerFinReceived _ \<Rightarrow> cb\<lparr>close_state := LocalFinSent n\<rparr>
    | LocalFinSent _ \<Rightarrow> cb
    | Closed \<Rightarrow> cb)"

definition close_set_waker_if_changed :: "Waker \<Rightarrow> CloseBuffer \<Rightarrow> CloseBuffer" where
  "close_set_waker_if_changed new_waker cb = cb\<lparr>close_waker := set_waker_if_changed new_waker (close_waker cb)\<rparr>"

definition close_take_waker_clone :: "CloseBuffer \<Rightarrow> Waker option" where
  "close_take_waker_clone cb = close_waker cb"

section \<open>Executions\<close>

datatype close_event = FinArrives BluefinPacket | FinAckArrives BluefinPacket | TakePending | LocalFin u64 | MarkClosed

fun close_apply :: "close_event \<Rightarrow> CloseBuffer \<Rightarrow> CloseBuffer \<times> u64 option" where
  "close_apply (FinArrives p) cb = (buffer_in_fin p cb, None)"
| "close_apply (FinAckArrives p) cb = (buffer_in_fin_ack p cb, None)"
| "close_apply TakePending cb = take_pending_fin_ack_send cb"
| "close_apply (LocalFin n) cb = (record_local_fin_sent n cb, None)"
| "close_apply MarkClosed cb = (mark_closed cb, None)"

text \<open>\<open>close_run evs fins acks cb\<close>: an execution that saw the FIN numbers \<open>fins\<close> and handed out the FIN-ACK
  obligations \<open>acks\<close>.\<close>

inductive close_run :: "close_event list \<Rightarrow> u64 set \<Rightarrow> u64 set \<Rightarrow> CloseBuffer \<Rightarrow> bool" where
  start: "close_run [] {} {} (close_buffer_new False)"
| step: "close_run evs fins acks cb \<Longrightarrow> close_apply ev cb = (cb', out) \<Longrightarrow>
    close_run (evs @ [ev])
      (case ev of FinArrives p \<Rightarrow> insert (packet_number (header p)) fins | _ \<Rightarrow> fins)
      (case out of Some n \<Rightarrow> insert n acks | None \<Rightarrow> acks) cb'"

inductive_cases close_runE: "close_run evs fins acks cb"

interpretation close_buffer: wakeable "\<lambda>w cb. (close_set_waker_if_changed w cb, None :: unit option)"
  "\<lambda>ev cb. fst (close_apply ev cb)" close_take_waker_clone
proof unfold_locales
  show "close_take_waker_clone (fst (close_apply ev cb)) = close_take_waker_clone cb" for ev cb
    by (cases ev; cases "close_state cb")
      (auto simp: close_take_waker_clone_def buffer_in_fin_def buffer_in_fin_ack_def take_pending_fin_ack_send_def
        mark_closed_def record_local_fin_sent_def Let_def)
qed (auto simp: close_take_waker_clone_def close_set_waker_if_changed_def)

lemmas close_op_defs = buffer_in_fin_def buffer_in_fin_ack_def take_pending_fin_ack_send_def mark_closed_def
  record_local_fin_sent_def Let_def

text \<open>The invariant of the close buffer: obligations come from FINs seen, a FIN seen by an open connection is
  remembered, and an untouched connection owes nothing.\<close>

definition close_inv :: "u64 set \<Rightarrow> u64 set \<Rightarrow> CloseBuffer \<Rightarrow> bool" where
  "close_inv fins acks cb \<longleftrightarrow>
     acks \<subseteq> fins \<and>
     (\<forall>n. pending_fin_ack_send cb = Some n \<longrightarrow> n \<in> fins \<and> peer_fin_observed cb) \<and>
     (\<forall>n. close_state cb = PeerFinReceived n \<longrightarrow> n \<in> fins \<and> peer_fin_observed cb \<and> (pending_fin_ack_send cb = Some n \<or> n \<in> acks)) \<and>
     (close_state cb = Active \<longrightarrow> \<not> peer_fin_observed cb \<and> fins = {})"

lemma close_inv_step:
  assumes "close_inv fins acks cb" and "close_apply ev cb = (cb', out)"
  shows "close_inv (case ev of FinArrives p \<Rightarrow> insert (packet_number (header p)) fins | _ \<Rightarrow> fins)
    (case out of Some n \<Rightarrow> insert n acks | None \<Rightarrow> acks) cb'"
proof (cases ev)
  case (FinArrives p)
  then show ?thesis using assms by (cases "close_state cb") (auto simp: close_inv_def close_op_defs split: if_splits)
next
  case TakePending
  then show ?thesis
    using assms by (auto simp: close_inv_def close_op_defs split: option.splits)
next
  case (LocalFin n)
  then show ?thesis using assms by (cases "close_state cb") (auto simp: close_inv_def close_op_defs)
qed (use assms in \<open>auto simp: close_inv_def close_op_defs\<close>)

lemma close_run_inv: "close_run evs fins acks cb \<Longrightarrow> close_inv fins acks cb"
proof (induction rule: close_run.induct)
  case start
  then show ?case by (simp add: close_inv_def close_buffer_new_def)
next
  case step
  then show ?case using close_inv_step by blast
qed

text \<open>C25. In every execution of the close buffer, FIN-ACKs are only ever owed or sent for FINs that were received;
  a connection in \<open>PeerFinReceived\<close> has observed the end of the stream and its FIN-ACK is owed or has been
  handed out; and an \<open>Active\<close> connection has seen no FIN at all.\<close>

theorem close_buffer_safety:
  assumes "close_run evs fins acks cb"
  shows "acks \<subseteq> fins \<and> set_option (pending_fin_ack_send cb) \<subseteq> fins \<and>
    (\<forall>n. close_state cb = PeerFinReceived n \<longrightarrow>
       n \<in> fins \<and> peer_fin_observed cb \<and> (pending_fin_ack_send cb = Some n \<or> n \<in> acks)) \<and>
    (close_state cb = Active \<longrightarrow> fins = {} \<and> \<not> peer_fin_observed cb)"
  using close_run_inv [OF assms] by (auto simp: close_inv_def)

definition sample_fin :: "u64 \<Rightarrow> BluefinPacket" where
  "sample_fin n = \<lparr>header = header_default\<lparr>type_field := Fin, packet_number := n\<rparr>, payload = []\<rparr>"

theorem close_buffer_safety_witness:
  "\<exists>cb. close_run [FinArrives (sample_fin 4), TakePending] {4} {4} cb \<and> close_state cb = PeerFinReceived 4 \<and>
     peer_fin_observed cb \<and> (pending_fin_ack_send cb = Some 4 \<or> 4 \<in> {4::u64})"
proof -
  let ?cb1 = "buffer_in_fin (sample_fin 4) (close_buffer_new False)"
  let ?cb2 = "?cb1\<lparr>pending_fin_ack_send := None\<rparr>"
  have 1: "close_run ([] @ [FinArrives (sample_fin 4)]) {4} {} ?cb1"
    using close_run.step [OF close_run.start, of "FinArrives (sample_fin 4)" ?cb1 None] by (simp add: sample_fin_def)
  have "close_apply TakePending ?cb1 = (?cb2, Some 4)"
    by (simp add: close_op_defs close_buffer_new_def sample_fin_def)
  from close_run.step [OF 1 this] have 2: "close_run [FinArrives (sample_fin 4), TakePending] {4} {4} ?cb2" by simp
  have "close_state ?cb2 = PeerFinReceived 4" by (simp add: close_op_defs close_buffer_new_def sample_fin_def)
  with close_buffer_safety [OF 2] 2 show ?thesis by blast
qed

text \<open>Closing is final and end-of-stream is sticky: no event leaves \<open>Closed\<close>, no event forgets that the peer's
  FIN was observed, and the first FIN that reaches a connection that is not closed and has no peer FIN
  recorded is recorded with its number and an owed FIN-ACK, whether or not a local FIN crossed it.\<close>

lemma close_progress:
  "(close_state cb = Closed \<longrightarrow> close_state (fst (close_apply ev cb)) = Closed) \<and>
   (peer_fin_observed cb \<longrightarrow> peer_fin_observed (fst (close_apply ev cb))) \<and>
   (close_state cb = Active \<or> (\<exists>n. close_state cb = LocalFinSent n) \<longrightarrow>
      close_state (buffer_in_fin p cb) = PeerFinReceived (packet_number (header p)) \<and>
      pending_fin_ack_send (buffer_in_fin p cb) = Some (packet_number (header p)) \<and>
      peer_fin_observed (buffer_in_fin p cb))"
  by (cases ev; cases "close_state cb") (auto simp: close_op_defs)

end
