(* ===== verification/Conn_Reader.thy ===== *)
theory Conn_Reader
  imports Connection_Buffer Ack_Handler Close_Handler
begin

text \<open>
  \<open>bluefin/src/worker/conn_reader.rs\<close>: the receive side of an established connection. The buffers of a connection
  (\<open>ConnectionManagedBuffers\<close> of \<open>net/mod.rs\<close>) are one record; \<open>mb_woken\<close> logs the wakers that were fired. A
  datagram is parsed, its first packet selects the buffer, and all of its packets go there. Two shapes of the
  pipeline are modelled: receive tasks feeding one buffering task through a channel (\<open>conn_reader_run\<close>
  interleaves them), and the single in-line task (\<open>recv_inline\<close>). Buffer recycling only reuses allocations.
\<close>

record ConnectionManagedBuffers =
  mb_conn :: ConnectionBuffer
  mb_ack :: AckBuffer
  mb_close :: CloseBuffer
  mb_fin_ack_tx :: "u64 channel option"
  mb_diag_tx :: "DiagnosticEvent channel option"
  mb_woken :: "Waker list"

definition wake :: "Waker \<Rightarrow> ConnectionManagedBuffers \<Rightarrow> ConnectionManagedBuffers" where
  "wake w b = b\<lparr>mb_woken := mb_woken b @ [w]\<rparr>"

section \<open>Buffering the packets of a datagram\<close>

text \<open>The loop over the packets remembers the last error.\<close>

fun buffer_data_loop :: "BluefinPacket list \<Rightarrow> BluefinError option \<Rightarrow> ConnectionBuffer \<Rightarrow>
    ConnectionBuffer \<times> BluefinError option BluefinResult" where
  "buffer_data_loop [] e cb = (cb, Ok e)"
| "buffer_data_loop (p # ps) e cb = (case buffer_in_bytes p cb of
      (cb', Ok _) \<Rightarrow> buffer_data_loop ps e cb'
    | (cb', Err err) \<Rightarrow> buffer_data_loop ps (Some err) cb'
    | (cb', Panic) \<Rightarrow> (cb', Panic))"

text \<open>The end of both buffering functions: wake the consumer, then report the remembered error.\<close>

definition wake_and_report :: "Waker option \<Rightarrow> BluefinError option \<Rightarrow> ConnectionManagedBuffers \<Rightarrow>
    ConnectionManagedBuffers \<times> unit BluefinResult" where
  "wake_and_report waker e b = (case waker of
      None \<Rightarrow> (b, Err NoSuchWakerError)
    | Some w \<Rightarrow> (wake w b, case e of Some err \<Rightarrow> Err err | None \<Rightarrow> Ok ()))"

definition buffer_in_data_packets :: "BluefinPacket list \<Rightarrow> ConnectionManagedBuffers \<Rightarrow>
    ConnectionManagedBuffers \<times> unit BluefinResult" where
  "buffer_in_data_packets ps b = (case buffer_data_loop ps None (mb_conn b) of
      (cb, Ok e) \<Rightarrow> wake_and_report (conn_take_waker_clone cb) e (b\<lparr>mb_conn := cb\<rparr>)
    | (cb, Err err) \<Rightarrow> (b\<lparr>mb_conn := cb\<rparr>, Err err)
    | (cb, Panic) \<Rightarrow> (b\<lparr>mb_conn := cb\<rparr>, Panic))"

fun buffer_ack_loop :: "BluefinPacket list \<Rightarrow> BluefinError option \<Rightarrow> AckBuffer \<Rightarrow> DiagnosticEvent channel option \<Rightarrow>
    AckBuffer \<times> DiagnosticEvent channel option \<times> BluefinError option BluefinResult" where
  "buffer_ack_loop [] e ab diag = (ab, diag, Ok e)"
| "buffer_ack_loop (p # ps) e ab diag =
     (let base = packet_number (header p); count = unat (type_specific_payload (header p)) in
      case buffer_in_ack_packet p ab of
        (ab', Err err) \<Rightarrow> buffer_ack_loop ps (Some err) ab' diag
      | (ab', Ok _) \<Rightarrow> buffer_ack_loop ps e ab' (diag_try_send diag (AckReceived base count))
      | (ab', Panic) \<Rightarrow> (ab', diag, Panic))"

definition buffer_in_ack_packets :: "BluefinPacket list \<Rightarrow> ConnectionManagedBuffers \<Rightarrow>
    ConnectionManagedBuffers \<times> unit BluefinResult" where
  "buffer_in_ack_packets ps b = (case buffer_ack_loop ps None (mb_ack b) (mb_diag_tx b) of
      (ab, diag, Ok e) \<Rightarrow> wake_and_report (ack_take_waker_clone ab) e (b\<lparr>mb_ack := ab, mb_diag_tx := diag\<rparr>)
    | (ab, diag, Err err) \<Rightarrow> (b\<lparr>mb_ack := ab, mb_diag_tx := diag\<rparr>, Err err)
    | (ab, diag, Panic) \<Rightarrow> (b\<lparr>mb_ack := ab, mb_diag_tx := diag\<rparr>, Panic))"

text \<open>The loop of \<open>buffer_in_close_packets\<close>; any other packet type is \<open>unreachable!\<close>.\<close>

fun buffer_close_loop :: "BluefinPacket list \<Rightarrow> bool \<Rightarrow> CloseBuffer \<Rightarrow> DiagnosticEvent channel option \<Rightarrow>
    CloseBuffer \<times> DiagnosticEvent channel option \<times> bool BluefinResult" where
  "buffer_close_loop [] saw_fin cl diag = (cl, diag, Ok saw_fin)"
| "buffer_close_loop (p # ps) saw_fin cl diag = (case type_field (header p) of
      Fin \<Rightarrow> buffer_close_loop ps True (buffer_in_fin p cl)
               (diag_try_send diag (FinReceived (packet_number (header p))))
    | FinAck \<Rightarrow> buffer_close_loop ps saw_fin (buffer_in_fin_ack p cl)
               (diag_try_send diag (FinAckReceived (packet_number (header p))))
    | _ \<Rightarrow> (cl, diag, Panic))"

definition buffer_in_close_packets :: "BluefinPacket list \<Rightarrow> ConnectionManagedBuffers \<Rightarrow>
    ConnectionManagedBuffers \<times> unit BluefinResult" where
  "buffer_in_close_packets ps b = (case buffer_close_loop ps False (mb_close b) (mb_diag_tx b) of
      (cl, diag, Ok saw_fin) \<Rightarrow>
        (let (cl', pending_fin_ack_pn) = (if saw_fin then take_pending_fin_ack_send cl else (cl, None));
             b1 = b\<lparr>mb_close := cl', mb_diag_tx := diag\<rparr>;
             b2 = (case (pending_fin_ack_pn, mb_fin_ack_tx b1) of
                     (Some pn, Some tx) \<Rightarrow> b1\<lparr>mb_fin_ack_tx := Some (fst (chan_try_send pn tx))\<rparr>
                   | _ \<Rightarrow> b1) in
         if saw_fin then
           (case conn_take_waker_clone (mb_conn b2) of
              Some w \<Rightarrow> (wake w b2, Ok ())
            | None \<Rightarrow> (b2, Ok ()))
         else (b2, Ok ()))
    | (cl, diag, Err err) \<Rightarrow> (b\<lparr>mb_close := cl, mb_diag_tx := diag\<rparr>, Err err)
    | (cl, diag, Panic) \<Rightarrow> (b\<lparr>mb_close := cl, mb_diag_tx := diag\<rparr>, Panic))"

definition buffer_in_packets :: "BluefinPacket list \<Rightarrow> ConnectionManagedBuffers \<Rightarrow>
    ConnectionManagedBuffers \<times> unit BluefinResult" where
  "buffer_in_packets ps b = (case ps of
      [] \<Rightarrow> (b, Ok ())
    | p # _ \<Rightarrow>
        (let first_type = type_field (header p) in
         if first_type = Ack then buffer_in_ack_packets ps b
         else if first_type = Fin \<or> first_type = FinAck then buffer_in_close_packets ps b
         else buffer_in_data_packets ps b))"

section \<open>The tasks\<close>

datatype target_os = Linux | Macos | OtherOs

definition DEFAULT_NUMBER_OF_TASKS_TO_SPAWN :: usize where
  "DEFAULT_NUMBER_OF_TASKS_TO_SPAWN = 3"

text \<open>\<open>available_parallelism\<close> may fail (\<open>None\<close>).\<close>

definition get_number_of_tx_tasks :: "target_os \<Rightarrow> usize option \<Rightarrow> usize" where
  "get_number_of_tx_tasks os available_parallelism = (case os of
      Linux \<Rightarrow> (case available_parallelism of Some n \<Rightarrow> n | None \<Rightarrow> DEFAULT_NUMBER_OF_TASKS_TO_SPAWN)
    | Macos \<Rightarrow> 1
    | OtherOs \<Rightarrow> DEFAULT_NUMBER_OF_TASKS_TO_SPAWN)"

text \<open>The pipeline: receive tasks waiting for a datagram, parsed datagrams not yet accepted by the channel, the
  channel, and whether the buffering task is alive.\<close>

record ConnReader =
  idle_tasks :: nat
  holding :: "BluefinPacket list list"
  rx_chan :: "BluefinPacket list channel"
  rx_alive :: bool
  conn_bufs :: ConnectionManagedBuffers

definition conn_reader_start :: "usize \<Rightarrow> ConnectionManagedBuffers \<Rightarrow> ConnReader" where
  "conn_reader_start n b = \<lparr>idle_tasks = n, holding = [],
     rx_chan = \<lparr>chan_bound = Some 1024, chan_open = True, chan_queue = []\<rparr>, rx_alive = True, conn_bufs = b\<rparr>"

text \<open>One \<open>recv\<close> of \<open>tx_impl\<close>: an I/O error, a parse error or a panic in the parser ends the task.\<close>

definition tx_recv :: "Bytes BluefinResult \<Rightarrow> ConnReader \<Rightarrow> ConnReader option" where
  "tx_recv recv s =
     (if idle_tasks s = 0 then None
      else Some (case recv of
          Ok frozen \<Rightarrow>
            (case from_bytes_into frozen [] of
               (pkts, Ok _) \<Rightarrow> s\<lparr>idle_tasks := idle_tasks s - 1, holding := holding s @ [pkts]\<rparr>
             | (pkts, Err _) \<Rightarrow> s\<lparr>idle_tasks := idle_tasks s - 1\<rparr>
             | (pkts, Panic) \<Rightarrow> s\<lparr>idle_tasks := idle_tasks s - 1\<rparr>)
        | _ \<Rightarrow> s\<lparr>idle_tasks := idle_tasks s - 1\<rparr>))"

text \<open>\<open>tx.send(to_send).await\<close> completes when the channel has room, or drops the datagram when it is closed.\<close>

definition tx_send :: "nat \<Rightarrow> ConnReader \<Rightarrow> ConnReader option" where
  "tx_send i s =
     (if i < length (holding s) then
        (let s1 = s\<lparr>idle_tasks := idle_tasks s + 1, holding := take i (holding s) @ drop (Suc i) (holding s)\<rparr> in
         if \<not> chan_open (rx_chan s) then Some s1
         else if chan_has_room (rx_chan s)
         then Some (s1\<lparr>rx_chan := (rx_chan s)\<lparr>chan_queue := chan_queue (rx_chan s) @ [holding s ! i]\<rparr>\<rparr>)
         else None)
      else None)"

text \<open>One turn of \<open>rx_impl\<close>; a panic ends the task and drops the receiver.\<close>

definition rx_turn :: "ConnReader \<Rightarrow> ConnReader option" where
  "rx_turn s =
     (if \<not> rx_alive s then None
      else case chan_queue (rx_chan s) of
          [] \<Rightarrow> None
        | pkts # q \<Rightarrow>
            (case buffer_in_packets pkts (conn_bufs s) of
               (b, Panic) \<Rightarrow> Some (s\<lparr>conn_bufs := b, rx_alive := False,
                                    rx_chan := (rx_chan s)\<lparr>chan_open := False, chan_queue := []\<rparr>\<rparr>)
             | (b, _) \<Rightarrow> Some (s\<lparr>conn_bufs := b, rx_chan := (rx_chan s)\<lparr>chan_queue := q\<rparr>\<rparr>)))"

text \<open>One iteration of \<open>recv_and_buffer_inline\<close>; the flag says whether the task goes on.\<close>

definition recv_inline :: "Bytes BluefinResult \<Rightarrow> ConnectionManagedBuffers \<Rightarrow> ConnectionManagedBuffers \<times> bool" where
  "recv_inline recv b = (case recv of
      Ok frozen \<Rightarrow>
        (case from_bytes_into frozen [] of
           (pkts, Ok _) \<Rightarrow> (case buffer_in_packets pkts b of (b', r) \<Rightarrow> (b', r \<noteq> Panic))
         | (pkts, Err _) \<Rightarrow> (b, True)
         | (pkts, Panic) \<Rightarrow> (b, False))
    | _ \<Rightarrow> (b, False))"

section \<open>What buffering a datagram does\<close>

lemma buffer_data_loop_eq:
  "ob_wf (ordered_bytes cb) \<Longrightarrow>
   \<exists>e'. buffer_data_loop ps e cb = (cb\<lparr>ordered_bytes := buffer_all ps (ordered_bytes cb)\<rparr>, Ok e')"
proof (induction ps arbitrary: cb e)
  case Nil
  then show ?case by (simp add: buffer_all_def)
next
  case (Cons p ps)
  obtain ob r where b: "buffer_in_packet p (ordered_bytes cb) = (ob, r)" by fastforce
  have wf: "ob_wf (ordered_bytes (cb\<lparr>ordered_bytes := ob\<rparr>))" using buffer_in_packet_wf [OF Cons.prems b] by simp
  have "r \<noteq> Panic" using buffer_in_packet_view(5) [OF Cons.prems b] .
  then obtain e1 where "buffer_data_loop (p # ps) e cb = buffer_data_loop ps e1 (cb\<lparr>ordered_bytes := ob\<rparr>)"
    by (cases r) (auto simp: buffer_in_bytes_def b)
  with Cons.IH [OF wf, of e1] show ?case by (auto simp: buffer_all_def b)
qed

lemma wake_and_report_eq:
  "\<exists>r. wake_and_report wk e b = ((case wk of Some w \<Rightarrow> wake w b | None \<Rightarrow> b), r) \<and> r \<noteq> Panic \<and> (wk = None \<longrightarrow> r = Err NoSuchWakerError)"
  by (auto simp: wake_and_report_def split: option.splits)

lemma buffer_in_data_packets_eq:
  assumes "ob_wf (ordered_bytes (mb_conn b))"
  shows "\<exists>r. buffer_in_data_packets ps b =
      (let b' = b\<lparr>mb_conn := (mb_conn b)\<lparr>ordered_bytes := buffer_all ps (ordered_bytes (mb_conn b))\<rparr>\<rparr> in
       (case cb_waker (mb_conn b) of Some w \<Rightarrow> wake w b' | None \<Rightarrow> b'), r) \<and> r \<noteq> Panic"
proof -
  let ?cb = "(mb_conn b)\<lparr>ordered_bytes := buffer_all ps (ordered_bytes (mb_conn b))\<rparr>"
  obtain e where "buffer_data_loop ps None (mb_conn b) = (?cb, Ok e)" using buffer_data_loop_eq [OF assms] by blast
  then have "buffer_in_data_packets ps b = wake_and_report (cb_waker (mb_conn b)) e (b\<lparr>mb_conn := ?cb\<rparr>)"
    by (simp add: buffer_in_data_packets_def conn_take_waker_clone_def)
  with wake_and_report_eq [of "cb_waker (mb_conn b)" e "b\<lparr>mb_conn := ?cb\<rparr>"] show ?thesis by (auto simp: Let_def)
qed

lemma insert_each_no_panic: "snd (insert_each ns w) \<noteq> Panic"
  by (induction ns arbitrary: w) (auto simp: insert_packet_number_def Let_def split: prod.splits BluefinResult.splits if_splits search_result.splits)

lemma insert_range_no_panic: "snd (insert_range n k w) \<noteq> Panic"
  using insert_each_no_panic by (auto simp: insert_range_def Let_def split: if_splits)

lemma buffer_ack_loop_no_panic: "snd (snd (buffer_ack_loop ps e ab diag)) \<noteq> Panic"
proof (induction ps arbitrary: e ab diag)
  case (Cons p ps)
  have "snd (buffer_in_ack_packet p ab) \<noteq> Panic"
    using insert_range_no_panic [of "packet_number (header p)" "type_specific_payload (header p)" "received_acks ab"]
    by (auto simp: buffer_in_ack_packet_def Let_def split: prod.splits)
  with Cons show ?case by (auto simp: Let_def split: prod.splits BluefinResult.splits)
qed simp

lemma buffer_in_ack_packets_no_panic: "snd (buffer_in_ack_packets ps b) \<noteq> Panic"
  using buffer_ack_loop_no_panic [of ps None "mb_ack b" "mb_diag_tx b"]
  by (auto simp: buffer_in_ack_packets_def wake_and_report_def split: prod.splits BluefinResult.splits option.splits)

lemma buffer_close_loop_result:
  "snd (snd (buffer_close_loop ps saw cl diag)) =
   (if \<exists>p \<in> set ps. type_field (header p) \<noteq> Fin \<and> type_field (header p) \<noteq> FinAck then Panic
    else Ok (saw \<or> (\<exists>p \<in> set ps. type_field (header p) = Fin)))"
proof (induction ps arbitrary: saw cl diag)
  case (Cons p ps)
  then show ?case by (cases "type_field (header p)") simp_all
qed simp

lemma buffer_in_close_packets_panic:
  "snd (buffer_in_close_packets ps b) = Panic \<longleftrightarrow>
   (\<exists>p \<in> set ps. type_field (header p) \<noteq> Fin \<and> type_field (header p) \<noteq> FinAck)"
  using buffer_close_loop_result [of ps False "mb_close b" "mb_diag_tx b"]
  by (auto simp: buffer_in_close_packets_def Let_def split: prod.splits BluefinResult.splits option.splits if_splits)

text \<open>C26. Buffering a datagram panics in exactly one case: its first packet is a FIN or FIN-ACK and it also
  carries a packet of another type. The panic ends the buffering task for good, and any datagram on the
  connection's socket can cause it.\<close>

theorem buffer_in_packets_panics:
  assumes "ob_wf (ordered_bytes (mb_conn b))"
  shows "snd (buffer_in_packets ps b) = Panic \<longleftrightarrow>
    ps \<noteq> [] \<and> (type_field (header (hd ps)) = Fin \<or> type_field (header (hd ps)) = FinAck) \<and>
    (\<exists>p \<in> set ps. type_field (header p) \<noteq> Fin \<and> type_field (header p) \<noteq> FinAck)"
proof (cases ps)
  case (Cons p qs)
  have "snd (buffer_in_data_packets ps b) \<noteq> Panic"
    using buffer_in_data_packets_eq [OF assms, of ps] by (auto simp: Let_def)
  with Cons buffer_in_ack_packets_no_panic [of ps b] buffer_in_close_packets_panic [of ps b] show ?thesis
    by (auto simp: buffer_in_packets_def Let_def)
qed (simp add: buffer_in_packets_def)

definition sample_bufs :: ConnectionManagedBuffers where
  "sample_bufs = \<lparr>mb_conn = (connection_buffer_new 3 PackLeader)\<lparr>cb_waker := Some 5\<rparr>, mb_ack = ack_buffer_new 1,
     mb_close = close_buffer_new False, mb_fin_ack_tx = Some \<lparr>chan_bound = Some 8, chan_open = True, chan_queue = []\<rparr>,
     mb_diag_tx = None, mb_woken = []\<rparr>"

lemma sample_bufs_wf: "ob_wf (ordered_bytes (mb_conn sample_bufs))"
  by (simp add: sample_bufs_def connection_buffer_new_def ordered_bytes_new_wf)

theorem buffer_in_packets_panics_witness:
  "snd (buffer_in_packets [sample_fin 4, sample_packet 5 [1]] sample_bufs) = Panic"
  using buffer_in_packets_panics [OF sample_bufs_wf, of "[sample_fin 4, sample_packet 5 [1]]"]
  by (simp add: sample_fin_def sample_packet_def header_default_def)

text \<open>A FIN ends the stream: buffering a datagram that holds one FIN on an open connection marks the end of
  the stream as observed, queues exactly one FIN-ACK with the FIN's number (when its channel has room), clears
  the debt, and wakes the task that waits for data; no other buffer changes.\<close>

lemma fin_datagram_effect:
  assumes "type_field (header p) = Fin" and "close_state (mb_close b) = Active" and "mb_fin_ack_tx b = Some tx"
    and "chan_has_room tx" and "cb_waker (mb_conn b) = Some w"
  shows "\<exists>b'. buffer_in_packets [p] b = (b', Ok ()) \<and>
    peer_fin_observed (mb_close b') \<and> close_state (mb_close b') = PeerFinReceived (packet_number (header p)) \<and>
    pending_fin_ack_send (mb_close b') = None \<and>
    mb_fin_ack_tx b' = Some (tx\<lparr>chan_queue := chan_queue tx @ [packet_number (header p)]\<rparr>) \<and>
    mb_woken b' = mb_woken b @ [w] \<and> mb_conn b' = mb_conn b \<and> mb_ack b' = mb_ack b"
  using assms
  by (simp add: buffer_in_packets_def buffer_in_close_packets_def buffer_in_fin_def take_pending_fin_ack_send_def
      chan_try_send_def conn_take_waker_clone_def wake_def Let_def)

section \<open>Executions of the pipeline\<close>

text \<open>\<open>conn_reader_run n b rs ds s\<close>: a reader with \<open>n\<close> receive tasks over the buffers \<open>b\<close> has received \<open>rs\<close>, handed
  the datagrams \<open>ds\<close> to the buffers, and is now in state \<open>s\<close>.\<close>

inductive conn_reader_run :: "usize \<Rightarrow> ConnectionManagedBuffers \<Rightarrow> Bytes BluefinResult list \<Rightarrow>
    BluefinPacket list list \<Rightarrow> ConnReader \<Rightarrow> bool" for n b where
  start: "conn_reader_run n b [] [] (conn_reader_start n b)"
| recv: "conn_reader_run n b rs ds s \<Longrightarrow> tx_recv r s = Some s' \<Longrightarrow> conn_reader_run n b (rs @ [r]) ds s'"
| send: "conn_reader_run n b rs ds s \<Longrightarrow> tx_send i s = Some s' \<Longrightarrow> conn_reader_run n b rs ds s'"
| turn: "conn_reader_run n b rs ds s \<Longrightarrow> rx_turn s = Some s' \<Longrightarrow>
    conn_reader_run n b rs (ds @ [hd (chan_queue (rx_chan s))]) s'"

text \<open>The datagrams among the receives that parse, as packets.\<close>

definition parses :: "Bytes BluefinResult \<Rightarrow> BluefinPacket list option" where
  "parses r = (case r of Ok d \<Rightarrow> (case from_bytes d of Ok ps \<Rightarrow> Some ps | _ \<Rightarrow> None) | _ \<Rightarrow> None)"

definition parsed :: "Bytes BluefinResult list \<Rightarrow> BluefinPacket list list" where
  "parsed rs = List.map_filter parses rs"

definition deliver :: "BluefinPacket list list \<Rightarrow> ConnectionManagedBuffers \<Rightarrow> ConnectionManagedBuffers" where
  "deliver ds b = fold (\<lambda>ps b. fst (buffer_in_packets ps b)) ds b"

lemma parsed_snoc: "parsed (rs @ [r]) = parsed rs @ (case parses r of Some ps \<Rightarrow> [ps] | None \<Rightarrow> [])"
  by (simp add: parsed_def map_filter_def split: option.split)

lemma length_parsed: "length (parsed rs) \<le> length rs"
  by (simp add: parsed_def map_filter_def)

lemma tx_recv_eq:
  "tx_recv r s = (if idle_tasks s = 0 then None
     else Some (s\<lparr>idle_tasks := idle_tasks s - 1,
       holding := holding s @ (case parses r of Some ps \<Rightarrow> [ps] | None \<Rightarrow> [])\<rparr>))"
proof (cases r)
  case (Ok d)
  with from_bytes_into_eq [of d "[]"] show ?thesis
    by (auto simp: tx_recv_def parses_def split: BluefinResult.splits)
qed (simp_all add: tx_recv_def parses_def)

text \<open>Datagrams are conserved, in order of delivery, and every receive that does not parse costs a task.\<close>

definition pipeline_inv :: "usize \<Rightarrow> ConnectionManagedBuffers \<Rightarrow> Bytes BluefinResult list \<Rightarrow>
    BluefinPacket list list \<Rightarrow> ConnReader \<Rightarrow> bool" where
  "pipeline_inv n b rs ds s \<longleftrightarrow>
     conn_bufs s = deliver ds b \<and>
     idle_tasks s + length (holding s) + (length rs - length (parsed rs)) = n \<and>
     length (chan_queue (rx_chan s)) \<le> 1024 \<and> chan_bound (rx_chan s) = Some 1024 \<and> chan_open (rx_chan s) = rx_alive s \<and>
     (rx_alive s \<longrightarrow> mset ds + mset (chan_queue (rx_chan s)) + mset (holding s) = mset (parsed rs))"

lemma mset_remove_nth: "i < length xs \<Longrightarrow> mset (take i xs @ drop (Suc i) xs) + {#xs ! i#} = mset xs"
  by (metis Cons_nth_drop_Suc append_take_drop_id mset.simps(2) mset_append union_mset_add_mset_right add_mset_add_single)

lemma tx_recv_inv:
  assumes "pipeline_inv n b rs ds s" and "tx_recv r s = Some s'"
  shows "pipeline_inv n b (rs @ [r]) ds s'"
  using assms length_parsed [of rs]
  by (auto simp: pipeline_inv_def tx_recv_eq parsed_snoc split: if_splits option.splits)

lemma tx_send_inv:
  assumes "pipeline_inv n b rs ds s" and "tx_send i s = Some s'"
  shows "pipeline_inv n b rs ds s'"
proof -
  have i: "i < length (holding s)" using assms(2) by (auto simp: tx_send_def split: if_splits)
  note m = mset_remove_nth [OF this]
  let ?h = "take i (holding s) @ drop (Suc i) (holding s)"
  have l: "Suc (length ?h) = length (holding s)" using i by simp
  show ?thesis
  proof (cases "chan_open (rx_chan s)")
    case False
    then have "s' = s\<lparr>idle_tasks := idle_tasks s + 1, holding := ?h\<rparr>" using assms(2) i by (simp add: tx_send_def)
    with assms(1) False l show ?thesis by (auto simp: pipeline_inv_def)
  next
    case True
    then have s': "s' = s\<lparr>idle_tasks := idle_tasks s + 1, holding := ?h,
        rx_chan := (rx_chan s)\<lparr>chan_queue := chan_queue (rx_chan s) @ [holding s ! i]\<rparr>\<rparr>"
      and room: "chan_has_room (rx_chan s)"
      using assms(2) i by (auto simp: tx_send_def Let_def split: if_splits)
    have "mset ds + mset (chan_queue (rx_chan s) @ [holding s ! i]) + mset ?h = mset ds + mset (chan_queue (rx_chan s)) + mset (holding s)"
      using m by (simp add: ac_simps)
    with assms(1) s' room l show ?thesis by (auto simp: pipeline_inv_def chan_has_room_def)
  qed
qed

lemma rx_turn_inv:
  assumes "pipeline_inv n b rs ds s" and "rx_turn s = Some s'"
  shows "pipeline_inv n b rs (ds @ [hd (chan_queue (rx_chan s))]) s'"
proof -
  obtain ps q where q: "chan_queue (rx_chan s) = ps # q" and al: "rx_alive s"
    using assms(2) by (auto simp: rx_turn_def split: if_splits list.splits)
  obtain b' r where b': "buffer_in_packets ps (conn_bufs s) = (b', r)" by fastforce
  have d: "deliver (ds @ [ps]) b = b'" using assms(1) b' by (simp add: pipeline_inv_def deliver_def)
  show ?thesis
  proof (cases "r = Panic")
    case True
    then have "s' = s\<lparr>conn_bufs := b', rx_alive := False, rx_chan := (rx_chan s)\<lparr>chan_open := False, chan_queue := []\<rparr>\<rparr>"
      using assms(2) q al b' by (simp add: rx_turn_def)
    with assms(1) d q show ?thesis by (simp add: pipeline_inv_def)
  next
    case False
    then have "s' = s\<lparr>conn_bufs := b', rx_chan := (rx_chan s)\<lparr>chan_queue := q\<rparr>\<rparr>"
      using assms(2) q al b' by (auto simp: rx_turn_def split: BluefinResult.splits)
    with assms(1) d q show ?thesis by (auto simp: pipeline_inv_def ac_simps)
  qed
qed

lemma conn_reader_run_inv: "conn_reader_run n b rs ds s \<Longrightarrow> pipeline_inv n b rs ds s"
proof (induction rule: conn_reader_run.induct)
  case start
  then show ?case by (simp add: pipeline_inv_def conn_reader_start_def deliver_def parsed_def map_filter_def)
qed (blast intro: tx_recv_inv tx_send_inv rx_turn_inv)+

section \<open>Streams through the pipeline\<close>

text \<open>The datagrams of a sender: data packets only, or acknowledgements only, or FINs and FIN-ACKs only.\<close>

definition data_group :: "BluefinPacket list \<Rightarrow> bool" where
  "data_group g \<longleftrightarrow> g \<noteq> [] \<and> (\<forall>p \<in> set g. type_field (header p) = UnencryptedData)"

definition signal_group :: "BluefinPacket list \<Rightarrow> bool" where
  "signal_group g \<longleftrightarrow> g \<noteq> [] \<and>
     ((\<forall>p \<in> set g. type_field (header p) = Ack) \<or> (\<forall>p \<in> set g. type_field (header p) = Fin \<or> type_field (header p) = FinAck))"

lemma data_not_signal: "data_group g \<Longrightarrow> \<not> signal_group g"
  by (cases g) (auto simp: data_group_def signal_group_def)

lemma mb_conn_wake [simp]: "mb_conn (wake w b) = mb_conn b"
  by (simp add: wake_def)

lemma buffer_in_ack_packets_conn: "mb_conn (fst (buffer_in_ack_packets ps b)) = mb_conn b"
  by (auto simp: buffer_in_ack_packets_def wake_and_report_def split: prod.splits BluefinResult.splits option.splits)

lemma buffer_in_close_packets_conn: "mb_conn (fst (buffer_in_close_packets ps b)) = mb_conn b"
  by (auto simp: buffer_in_close_packets_def Let_def split: prod.splits BluefinResult.splits option.splits)

lemma buffer_signal_group:
  assumes "signal_group g"
  shows "mb_conn (fst (buffer_in_packets g b)) = mb_conn b" and "snd (buffer_in_packets g b) \<noteq> Panic"
proof -
  obtain p ps where g: "g = p # ps" using assms by (cases g) (auto simp: signal_group_def)
  show "mb_conn (fst (buffer_in_packets g b)) = mb_conn b" "snd (buffer_in_packets g b) \<noteq> Panic"
    using assms buffer_in_ack_packets_no_panic [of g b] buffer_in_close_packets_panic [of g b]
    by (auto simp: g buffer_in_packets_def Let_def buffer_in_ack_packets_conn buffer_in_close_packets_conn signal_group_def)
qed

lemma buffer_data_group:
  assumes "data_group g" and "ob_wf (ordered_bytes (mb_conn b))"
  shows "mb_conn (fst (buffer_in_packets g b)) = (mb_conn b)\<lparr>ordered_bytes := buffer_all g (ordered_bytes (mb_conn b))\<rparr>"
    and "snd (buffer_in_packets g b) \<noteq> Panic"
proof -
  obtain p ps where g: "g = p # ps" and t: "type_field (header p) = UnencryptedData"
    using assms(1) by (cases g) (auto simp: data_group_def)
  then have "buffer_in_packets g b = buffer_in_data_packets g b" by (simp add: buffer_in_packets_def)
  with buffer_in_data_packets_eq [OF assms(2), of g]
  show "mb_conn (fst (buffer_in_packets g b)) = (mb_conn b)\<lparr>ordered_bytes := buffer_all g (ordered_bytes (mb_conn b))\<rparr>"
    "snd (buffer_in_packets g b) \<noteq> Panic"
    by (auto simp: Let_def split: option.splits)
qed

lemma buffer_group_wf:
  assumes "data_group g \<or> signal_group g" and "ob_wf (ordered_bytes (mb_conn b))"
  shows "ob_wf (ordered_bytes (mb_conn (fst (buffer_in_packets g b))))" and "snd (buffer_in_packets g b) \<noteq> Panic"
  using assms buffer_data_group [of g b] buffer_signal_group [of g b] buffer_all_frame [OF assms(2), of g] by auto

lemma deliver_groups:
  assumes "\<And>g. g \<in> set ds \<Longrightarrow> data_group g \<or> signal_group g" and "ob_wf (ordered_bytes (mb_conn b))"
  shows "mb_conn (deliver ds b) = (mb_conn b)\<lparr>ordered_bytes := buffer_all (concat (filter data_group ds)) (ordered_bytes (mb_conn b))\<rparr>"
  using assms
proof (induction ds arbitrary: b)
  case Nil
  then show ?case by (simp add: deliver_def buffer_all_def)
next
  case (Cons g ds)
  have gs: "data_group g \<or> signal_group g" using Cons.prems(1) by simp
  let ?b = "fst (buffer_in_packets g b)"
  have "deliver (g # ds) b = deliver ds ?b" by (simp add: deliver_def)
  with Cons.IH [OF _ buffer_group_wf(1) [OF gs Cons.prems(2)]] Cons.prems(1)
  have "mb_conn (deliver (g # ds) b) =
      (mb_conn ?b)\<lparr>ordered_bytes := buffer_all (concat (filter data_group ds)) (ordered_bytes (mb_conn ?b))\<rparr>" by simp
  moreover have "data_group g \<Longrightarrow> ?case" if "mb_conn ?b = (mb_conn b)\<lparr>ordered_bytes := buffer_all g (ordered_bytes (mb_conn b))\<rparr>"
    using calculation that by (simp add: buffer_all_def)
  moreover have "\<not> data_group g \<Longrightarrow> ?case" if "mb_conn ?b = mb_conn b"
    using calculation(1) that by simp
  ultimately show ?case
    using gs buffer_data_group(1) [OF _ Cons.prems(2)] buffer_signal_group(1) by blast
qed

text \<open>Such datagrams never end the buffering task.\<close>

lemma groups_keep_alive:
  assumes "conn_reader_run n b rs ds s" and "\<And>g. g \<in> set (parsed rs) \<Longrightarrow> data_group g \<or> signal_group g"
    and "ob_wf (ordered_bytes (mb_conn b))"
  shows "rx_alive s \<and> ob_wf (ordered_bytes (mb_conn (conn_bufs s)))"
  using assms(1,2)
proof (induction rule: conn_reader_run.induct)
  case start
  with assms(3) show ?case by (simp add: conn_reader_start_def)
next
  case (recv rs ds s r s')
  then show ?case by (auto simp: tx_recv_eq parsed_snoc split: if_splits)
next
  case (send rs ds s i s')
  then show ?case by (auto simp: tx_send_def Let_def split: if_splits)
next
  case (turn rs ds s s')
  then have al: "rx_alive s" and wf: "ob_wf (ordered_bytes (mb_conn (conn_bufs s)))" by auto
  obtain g q where q: "chan_queue (rx_chan s) = g # q" using turn.hyps(2) al by (auto simp: rx_turn_def split: list.splits)
  have "mset ds + mset (chan_queue (rx_chan s)) + mset (holding s) = mset (parsed rs)"
    using conn_reader_run_inv [OF turn.hyps(1)] al by (simp add: pipeline_inv_def)
  then have "g \<in># mset (parsed rs)" unfolding q by (metis list.set_intros(1) set_mset_mset union_iff)
  with turn.prems have "data_group g \<or> signal_group g" by simp
  note k = buffer_group_wf [OF this wf]
  obtain b' r where "buffer_in_packets g (conn_bufs s) = (b', r)" by fastforce
  with turn.hyps(2) q al k show ?case by (auto simp: rx_turn_def split: BluefinResult.splits)
qed

text \<open>C7. The receive pipeline neither loses, invents nor duplicates a datagram: in every interleaving of the receive
  tasks and the buffering task, as long as the latter lives, the datagrams already buffered, those in the
  channel and those held by a task are together exactly the received datagrams that parse. Every receive that
  fails to parse ends one receive task for good: as many bad datagrams as there are tasks stop all reception.\<close>

theorem conn_reader_conservation:
  assumes "conn_reader_run n b rs ds s"
  shows "conn_bufs s = deliver ds b \<and>
    (rx_alive s \<longrightarrow> mset ds + mset (chan_queue (rx_chan s)) + mset (holding s) = mset (parsed rs)) \<and>
    length (chan_queue (rx_chan s)) \<le> 1024 \<and> length rs - length (parsed rs) \<le> n \<and>
    (length rs - length (parsed rs) = n \<longrightarrow> tx_recv r s = None)"
  using conn_reader_run_inv [OF assms] by (auto simp: pipeline_inv_def tx_recv_eq)

theorem conn_reader_conservation_witness:
  "\<exists>s. conn_reader_run 1 sample_bufs [Ok []] [] s \<and> tx_recv (Ok [1]) s = None"
proof -
  have p: "parses (Ok []) = None" by (simp add: parses_def from_bytes_def)
  let ?s = "(conn_reader_start 1 sample_bufs)\<lparr>idle_tasks := 0\<rparr>"
  have "tx_recv (Ok []) (conn_reader_start 1 sample_bufs) = Some ?s"
    by (simp add: tx_recv_eq p conn_reader_start_def)
  from conn_reader_run.recv [OF conn_reader_run.start this] have r: "conn_reader_run 1 sample_bufs [Ok []] [] ?s" by simp
  have "parsed [Ok []] = []" by (simp add: parsed_def map_filter_def p)
  with conn_reader_conservation [OF r, of "Ok [1]"] r show ?thesis by (intro exI [of _ ?s]) simp
qed

section \<open>The in-line task\<close>

fun run_inline :: "Bytes BluefinResult list \<Rightarrow> ConnectionManagedBuffers \<Rightarrow> ConnectionManagedBuffers" where
  "run_inline [] b = b"
| "run_inline (r # rs) b = (case recv_inline r b of (b', go) \<Rightarrow> if go then run_inline rs b' else b')"

text \<open>Delivery without a panic.\<close>

fun calm :: "BluefinPacket list list \<Rightarrow> ConnectionManagedBuffers \<Rightarrow> bool" where
  "calm [] b = True"
| "calm (ps # ds) b = (case buffer_in_packets ps b of (b', r) \<Rightarrow> r \<noteq> Panic \<and> calm ds b')"

lemma calm_snoc: "calm (ds @ [ps]) b \<longleftrightarrow> calm ds b \<and> snd (buffer_in_packets ps (deliver ds b)) \<noteq> Panic"
proof (induction ds arbitrary: b)
  case Nil
  then show ?case by (cases "buffer_in_packets ps b") (simp add: deliver_def)
next
  case (Cons d ds)
  then show ?case by (cases "buffer_in_packets d b") (simp add: deliver_def)
qed

lemma run_inline_deliver:
  "list_all (\<lambda>r. parses r \<noteq> None) rs \<Longrightarrow> calm (parsed rs) b \<Longrightarrow> run_inline rs b = deliver (parsed rs) b"
proof (induction rs arbitrary: b)
  case (Cons r rs)
  then obtain ps where ps: "parses r = Some ps" by auto
  then obtain d where "r = Ok d" "from_bytes d = Ok ps" by (auto simp: parses_def split: BluefinResult.splits)
  then have "from_bytes_into d [] = (ps, Ok (length ps))" using from_bytes_into_eq [of d "[]"] by simp
  moreover have "parsed (r # rs) = ps # parsed rs" by (simp add: parsed_def map_filter_def ps)
  ultimately show ?case
    using Cons \<open>r = Ok d\<close> by (cases "buffer_in_packets ps b") (simp add: recv_inline_def deliver_def)
qed (simp add: parsed_def map_filter_def deliver_def)

lemma single_task_order:
  "conn_reader_run 1 b rs ds s \<Longrightarrow> rx_alive s \<Longrightarrow>
   ds @ chan_queue (rx_chan s) @ holding s = parsed rs \<and> calm ds b"
proof (induction rule: conn_reader_run.induct)
  case start
  then show ?case by (simp add: conn_reader_start_def parsed_def map_filter_def)
next
  case (recv rs ds s r s')
  have "idle_tasks s + length (holding s) \<le> 1" "0 < idle_tasks s"
    using conn_reader_run_inv [OF recv.hyps(1)] recv.hyps(2) by (auto simp: pipeline_inv_def tx_recv_eq split: if_splits)
  then have "holding s = []" by (cases "holding s") simp_all
  with recv show ?case by (auto simp: tx_recv_eq parsed_snoc split: if_splits)
next
  case (send rs ds s i s')
  have l: "length (holding s) \<le> 1" and al: "chan_open (rx_chan s) = rx_alive s" and i: "i < length (holding s)"
    using conn_reader_run_inv [OF send.hyps(1)] send.hyps(2) by (auto simp: pipeline_inv_def tx_send_def split: if_splits)
  then obtain ps where "holding s = [ps]" "i = 0" by (cases "holding s") auto
  with send al show ?case by (auto simp: tx_send_def Let_def split: if_splits)
next
  case (turn rs ds s s')
  obtain ps q where q: "chan_queue (rx_chan s) = ps # q" and al: "rx_alive s"
    using turn.hyps(2) by (auto simp: rx_turn_def split: if_splits list.splits)
  obtain b' r where b': "buffer_in_packets ps (conn_bufs s) = (b', r)" by fastforce
  have d: "conn_bufs s = deliver ds b" using conn_reader_run_inv [OF turn.hyps(1)] by (simp add: pipeline_inv_def)
  have "r \<noteq> Panic" using turn.hyps(2) turn.prems q al b' by (auto simp: rx_turn_def)
  moreover from this have "s' = s\<lparr>conn_bufs := b', rx_chan := (rx_chan s)\<lparr>chan_queue := q\<rparr>\<rparr>"
    using turn.hyps(2) q al b' by (auto simp: rx_turn_def split: BluefinResult.splits)
  ultimately show ?case using turn.IH [OF al] q b' d by (simp add: calm_snoc)
qed


lemma sample_fin_parses: "parses (Ok (packet_serialise (sample_fin n))) = Some [sample_fin n]"
proof -
  have "from_bytes (frames [sample_fin n]) = Ok [sample_fin n]"
    by (subst from_bytes_iff) (simp add: sample_fin_def header_default_def wire_packet_def packet_valid_def header_valid_def
        security_valid_def security_default_def empty_data_def header_only_def)
  then show ?thesis by (simp add: parses_def frames_def)
qed

text \<open>One datagram through a pipeline with one receive task.\<close>

lemma single_datagram_run:
  assumes "parses r = Some g" and "snd (buffer_in_packets g b) \<noteq> Panic"
  shows "\<exists>s. conn_reader_run 1 b [r] [g] s \<and> rx_alive s \<and> chan_queue (rx_chan s) = [] \<and> holding s = [] \<and>
    conn_bufs s = fst (buffer_in_packets g b)"
proof -
  let ?s0 = "conn_reader_start 1 b"
  let ?s1 = "?s0\<lparr>idle_tasks := 0, holding := [g]\<rparr>"
  let ?s2 = "?s0\<lparr>rx_chan := (rx_chan ?s0)\<lparr>chan_queue := [g]\<rparr>\<rparr>"
  let ?s3 = "?s0\<lparr>conn_bufs := fst (buffer_in_packets g b)\<rparr>"
  have "tx_recv r ?s0 = Some ?s1" using assms(1) by (simp add: tx_recv_eq conn_reader_start_def)
  from conn_reader_run.recv [OF conn_reader_run.start this] have 1: "conn_reader_run 1 b [r] [] ?s1" by simp
  have "tx_send 0 ?s1 = Some ?s2" by (simp add: tx_send_def conn_reader_start_def chan_has_room_def)
  from conn_reader_run.send [OF 1 this] have 2: "conn_reader_run 1 b [r] [] ?s2" .
  have "rx_turn ?s2 = Some ?s3" using assms(2)
    by (cases "buffer_in_packets g b") (auto simp: rx_turn_def conn_reader_start_def split: BluefinResult.splits)
  from conn_reader_run.turn [OF 2 this] have "conn_reader_run 1 b [r] [g] ?s3" by (simp add: conn_reader_start_def)
  then show ?thesis by (intro exI [of _ ?s3]) (simp add: conn_reader_start_def)
qed


end
