(* ===== verification/Packetiser.thy ===== *)
theory Packetiser
  imports Net
begin

text \<open>
  \<open>bluefin/src/worker/writer.rs\<close>, the pure half: packing queued payloads and acknowledgements into datagrams
  (\<open>serialize_packet_direct\<close>, \<open>consume_data_into\<close>, the legacy \<open>consume_data\<close>, \<open>consume_acks_into\<close>,
  \<open>consume_acks\<close>, \<open>payload_bytes_in_datagram\<close>). The locals of the packing loops are the record \<open>PackState\<close>.
  The reference is \<open>pieces\<close>: the queued bytes cut every 1500 bytes. The locale \<open>packetiser\<close> is the contract
  the send pump relies on, and both data packetisers satisfy it.
\<close>

section \<open>Cutting a byte string\<close>

function pieces :: "nat \<Rightarrow> 'a list \<Rightarrow> 'a list list" where
  "pieces n xs = (if n = 0 \<or> xs = [] then [] else take n xs # pieces n (drop n xs))"
  by pat_completeness auto
termination
  by (relation "measure (\<lambda>(_, xs). length xs)") auto

declare pieces.simps [simp del]

lemma pieces_Nil [simp]: "pieces n [] = []"
  by (simp add: pieces.simps)

lemma pieces_eq_Nil [simp]: "0 < n \<Longrightarrow> pieces n xs = [] \<longleftrightarrow> xs = []"
  by (simp add: pieces.simps [of n xs])

lemma pieces_step: "0 < n \<Longrightarrow> xs \<noteq> [] \<Longrightarrow> pieces n xs = take n xs # pieces n (drop n xs)"
  by (simp add: pieces.simps [of n xs])

lemma pieces_short: "xs \<noteq> [] \<Longrightarrow> length xs \<le> n \<Longrightarrow> pieces n xs = [xs]"
  by (cases "n = 0") (simp_all add: pieces.simps [of n xs])

lemma take_pieces: "0 < n \<Longrightarrow> take k (pieces n xs) = pieces n (take (k * n) xs)"
proof (induction k arbitrary: xs)
  case (Suc k)
  then show ?case by (cases "xs = []") (simp_all add: pieces_step take_drop add.commute)
qed simp

lemma concat_take_pieces: "0 < n \<Longrightarrow> concat (take k (pieces n xs)) = take (k * n) xs"
proof (induction k arbitrary: xs)
  case (Suc k)
  then show ?case by (cases "xs = []") (simp_all add: pieces_step take_add)
qed simp

lemma concat_pieces: "0 < n \<Longrightarrow> concat (pieces n xs) = xs"
  by (induction n xs rule: pieces.induct) (subst pieces.simps, auto)

lemma pieces_member: "c \<in> set (pieces n xs) \<Longrightarrow> c \<noteq> [] \<and> length c \<le> n"
  by (induction n xs rule: pieces.induct) (subst (asm) pieces.simps, auto split: if_splits)

lemma pieces_take_drop: "0 < n \<Longrightarrow> pieces n xs = take k (pieces n xs) @ pieces n (drop (k * n) xs)"
proof (induction k arbitrary: xs)
  case (Suc k)
  show ?case
  proof (cases "xs = []")
    case False
    then show ?thesis
      using Suc.IH [OF Suc.prems, of "drop n xs"] Suc.prems by (simp add: pieces_step add.commute)
  qed simp
qed simp

section \<open>Data packets\<close>

definition serialize_packet_direct :: "Bytes \<Rightarrow> BluefinHeader \<Rightarrow> Bytes \<Rightarrow> Bytes BluefinResult" where
  "serialize_packet_direct ans h pl =
     (let current_len = length ans;
          packet_len = 20 + length pl;
          ans1 = ans @ replicate packet_len 0 in
      bind_res (header_serialise_into h (subslice current_len (current_len + 20) ans1)) (\<lambda>(_, front).
        Ok (write_at (current_len + 20) pl (write_at current_len front ans1))))"

record PackState =
  queue :: "Bytes list"
  next_packet_num :: u64
  ans :: Bytes
  running_payload :: Bytes
  bytes_remaining :: usize
  payload_bytes_packed :: usize
  pack_header :: BluefinHeader

text \<open>The block that every branch of the packing loops repeats: one packet off the front of the running
  payload.\<close>

definition take_packet :: "PackState \<Rightarrow> PackState BluefinResult" where
  "take_packet st =
     (let max_bytes_to_take = min (length (running_payload st))
            (min MAX_BLUEFIN_PAYLOAD_SIZE_BYTES (bytes_remaining st - 20));
          h = (with_packet_number (next_packet_num st) (pack_header st))
                \<lparr>type_specific_payload := of_nat max_bytes_to_take\<rparr> in
      bind_res (serialize_packet_direct (ans st) h (take max_bytes_to_take (running_payload st))) (\<lambda>ans'.
        Ok (st\<lparr>pack_header := h, running_payload := drop max_bytes_to_take (running_payload st), ans := ans',
               next_packet_num := next_packet_num st + 1,
               bytes_remaining := bytes_remaining st - (max_bytes_to_take + 20),
               payload_bytes_packed := payload_bytes_packed st + max_bytes_to_take\<rparr>)))"

lemma take_packet_remaining:
  "take_packet st = Ok st' \<Longrightarrow> 20 \<le> bytes_remaining st \<Longrightarrow>
   bytes_remaining st' < bytes_remaining st \<and> queue st' = queue st"
  by (auto simp: take_packet_def Let_def bind_res_Ok_iff)

text \<open>\<open>while !running_payload.is_empty() && bytes_remaining >= 20\<close>\<close>

function drain_running :: "PackState \<Rightarrow> PackState BluefinResult" where
  "drain_running st =
     (if running_payload st \<noteq> [] \<and> bytes_remaining st \<ge> 20 then
        (case take_packet st of Ok st' \<Rightarrow> drain_running st' | Err e \<Rightarrow> Err e | Panic \<Rightarrow> Panic)
      else Ok st)"
  by pat_completeness auto
termination
  by (relation "measure bytes_remaining") (auto dest: take_packet_remaining)

definition requeue :: "PackState \<Rightarrow> PackState" where
  "requeue st = (if running_payload st \<noteq> [] then st\<lparr>queue := running_payload st # queue st\<rparr> else st)"

text \<open>The \<open>while !queue.is_empty() && bytes_remaining > 20\<close> loop and what follows it; the flag says that the
  function returned from inside the loop.\<close>

function pack_loop :: "PackState \<Rightarrow> (PackState \<times> bool) BluefinResult" where
  "pack_loop st =
     (if queue st \<noteq> [] \<and> bytes_remaining st > 20 then
        if length (running_payload st) \<ge> bytes_remaining st - 20 then
          bind_res (drain_running st) (\<lambda>st'. Ok (requeue st', True))
        else if length (running_payload st) \<ge> MAX_BLUEFIN_PAYLOAD_SIZE_BYTES then
          (case take_packet st of Ok st' \<Rightarrow> pack_loop st' | Err e \<Rightarrow> Err e | Panic \<Rightarrow> Panic)
        else
          let data = hd (queue st);
              st1 = st\<lparr>queue := tl (queue st), running_payload := running_payload st @ data\<rparr> in
          if length data + length (running_payload st) > MAX_BLUEFIN_PAYLOAD_SIZE_BYTES then
            (case take_packet st1 of Ok st' \<Rightarrow> pack_loop st' | Err e \<Rightarrow> Err e | Panic \<Rightarrow> Panic)
          else pack_loop st1
      else bind_res (drain_running st) (\<lambda>st'. Ok (requeue st', False)))"
  by pat_completeness auto
termination
proof (relation "measure (\<lambda>st. length (queue st) + bytes_remaining st)", goal_cases)
  case (2 st st')
  then show ?case using take_packet_remaining [of st st'] by simp
next
  case (3 st data st1 st')
  then show ?case using take_packet_remaining [of st1 st'] by (cases "queue st") auto
next
  case (4 st data st1)
  then show ?case by (cases "queue st") auto
qed simp

declare drain_running.simps [simp del] pack_loop.simps [simp del]

definition data_header :: "u32 \<Rightarrow> u32 \<Rightarrow> BluefinSecurityFields \<Rightarrow> BluefinHeader" where
  "data_header src_conn_id dst_conn_id sec = header_new src_conn_id dst_conn_id UnencryptedData 0 sec"

text \<open>The payload bytes packed, the queue, the next packet number and the datagram.\<close>

definition consume_data_into ::
    "Bytes list \<Rightarrow> u64 \<Rightarrow> u32 \<Rightarrow> u32 \<Rightarrow> Bytes \<Rightarrow> (usize \<times> Bytes list \<times> u64 \<times> Bytes) BluefinResult" where
  "consume_data_into q n src_conn_id dst_conn_id out =
     (if q = [] then Ok (0, q, n, out)
      else bind_res (pack_loop \<lparr>queue = tl q, next_packet_num = n, ans = out, running_payload = hd q,
            bytes_remaining = MAX_BLUEFIN_BYTES_IN_UDP_DATAGRAM, payload_bytes_packed = 0,
            pack_header = data_header src_conn_id dst_conn_id security_default\<rparr>) (\<lambda>(st, _).
        Ok (payload_bytes_packed st, queue st, next_packet_num st, ans st)))"

definition consume_data ::
    "Bytes list \<Rightarrow> u64 \<Rightarrow> u32 \<Rightarrow> u32 \<Rightarrow> (Bytes option \<times> Bytes list \<times> u64) BluefinResult" where
  "consume_data q n src_conn_id dst_conn_id =
     bind_res (security_new False 0) (\<lambda>sec.
     bind_res (pack_loop \<lparr>queue = q, next_packet_num = n, ans = [], running_payload = [],
            bytes_remaining = MAX_BLUEFIN_BYTES_IN_UDP_DATAGRAM, payload_bytes_packed = 0,
            pack_header = data_header src_conn_id dst_conn_id sec\<rparr>) (\<lambda>(st, early).
       Ok (if early then Some (ans st) else if ans st = [] then None else Some (ans st),
           queue st, next_packet_num st)))"

text \<open>The audit walk over an outgoing datagram.\<close>

function payload_bytes_loop :: "Bytes \<Rightarrow> usize \<Rightarrow> usize \<Rightarrow> usize" where
  "payload_bytes_loop datagram total_bytes cursor =
     (if cursor + 20 \<le> length datagram then
        let payload_len = unat (from_be_bytes [datagram ! (cursor + 1), datagram ! (cursor + 2)] :: u16) in
        if cursor + 20 + payload_len > length datagram then total_bytes
        else payload_bytes_loop datagram (total_bytes + payload_len) (cursor + (20 + payload_len))
      else total_bytes)"
  by pat_completeness auto
termination
  by (relation "measure (\<lambda>(d, _, c). length d - c)") auto

declare payload_bytes_loop.simps [simp del]

definition payload_bytes_in_datagram :: "Bytes \<Rightarrow> usize" where
  "payload_bytes_in_datagram datagram = payload_bytes_loop datagram 0 0"

section \<open>Acknowledgement packets\<close>

record AckData =
  base_packet_num :: u64
  num_packets_acked :: usize

definition ack_header :: "BluefinHeader \<Rightarrow> AckData \<Rightarrow> BluefinHeader" where
  "ack_header h a = h\<lparr>packet_number := base_packet_num a, type_specific_payload := of_nat (num_packets_acked a)\<rparr>"

definition append_header :: "BluefinHeader \<Rightarrow> Bytes \<Rightarrow> Bytes BluefinResult" where
  "append_header h bytes =
     (let current_len = length bytes; bytes1 = bytes @ replicate 20 0 in
      bind_res (header_serialise_into h (drop current_len bytes1)) (\<lambda>(_, front).
        Ok (write_at current_len front bytes1)))"

fun consume_acks_into_loop ::
    "BluefinHeader \<Rightarrow> AckData list \<Rightarrow> Bytes \<Rightarrow> (AckData list \<times> Bytes) BluefinResult" where
  "consume_acks_into_loop h [] bytes = Ok ([], bytes)"
| "consume_acks_into_loop h (a # q) bytes =
     (if length bytes + 20 > MAX_BLUEFIN_BYTES_IN_UDP_DATAGRAM then Ok (a # q, bytes)
      else bind_res (append_header (ack_header h a) bytes) (consume_acks_into_loop (ack_header h a) q))"

definition consume_acks_into ::
    "AckData list \<Rightarrow> u32 \<Rightarrow> u32 \<Rightarrow> Bytes \<Rightarrow> (bool \<times> AckData list \<times> Bytes) BluefinResult" where
  "consume_acks_into q src_conn_id dst_conn_id bytes =
     (if q = [] then Ok (False, q, bytes)
      else bind_res (consume_acks_into_loop (header_new src_conn_id dst_conn_id Ack 0 security_default) q bytes)
        (\<lambda>(q', bytes'). Ok (bytes' \<noteq> [], q', bytes')))"

fun consume_acks_loop ::
    "BluefinHeader \<Rightarrow> AckData list \<Rightarrow> Bytes \<Rightarrow> (AckData list \<times> Bytes) BluefinResult" where
  "consume_acks_loop h [] bytes = Ok ([], bytes)"
| "consume_acks_loop h (a # q) bytes =
     (if length bytes \<le> MAX_BLUEFIN_BYTES_IN_UDP_DATAGRAM then
        if length bytes + 20 \<le> MAX_BLUEFIN_BYTES_IN_UDP_DATAGRAM then
          bind_res (append_header (ack_header h a) bytes) (consume_acks_loop (ack_header h a) q)
        else Ok (a # q, bytes)
      else Ok (a # q, bytes))"

definition consume_acks ::
    "AckData list \<Rightarrow> u32 \<Rightarrow> u32 \<Rightarrow> (Bytes option \<times> AckData list) BluefinResult" where
  "consume_acks q src_conn_id dst_conn_id =
     bind_res (security_new False 0) (\<lambda>sec.
     bind_res (consume_acks_loop (header_new src_conn_id dst_conn_id Ack 0 sec) q []) (\<lambda>(q', bytes).
       Ok (if length bytes = 0 then None else Some bytes, q')))"

section \<open>The data packetiser emits the pieces\<close>

definition data_packet :: "BluefinHeader \<Rightarrow> u64 \<Rightarrow> Bytes \<Rightarrow> BluefinPacket" where
  "data_packet h n c = \<lparr>header = h\<lparr>packet_number := n, type_specific_payload := of_nat (length c)\<rparr>, payload = c\<rparr>"

fun data_packets :: "BluefinHeader \<Rightarrow> u64 \<Rightarrow> Bytes list \<Rightarrow> BluefinPacket list" where
  "data_packets h n [] = []"
| "data_packets h n (c # cs) = data_packet h n c # data_packets h (n + 1) cs"

lemma data_packets_eq_Nil [simp]: "data_packets h n cs = [] \<longleftrightarrow> cs = []"
  by (cases cs) auto

lemma length_data_packets [simp]: "length (data_packets h n cs) = length cs"
  by (induction cs arbitrary: n) auto

lemma payloads_data_packets [simp]: "map payload (data_packets h n cs) = cs"
  by (induction cs arbitrary: n) (auto simp: data_packet_def)

lemma data_packets_header [simp]:
  "data_packets (h\<lparr>packet_number := a, type_specific_payload := b\<rparr>) n cs = data_packets h n cs"
  by (induction cs arbitrary: n) (auto simp: data_packet_def)

lemma data_packets_append:
  "data_packets h n (cs @ ds) = data_packets h n cs @ data_packets h (n + of_nat (length cs)) ds"
  by (induction cs arbitrary: n) (auto simp: add.assoc)

lemma data_packets_nth: "i < length cs \<Longrightarrow> data_packets h n cs ! i = data_packet h (n + of_nat i) (cs ! i)"
proof (induction cs arbitrary: n i)
  case (Cons c cs)
  then show ?case by (cases i) (auto simp: add.assoc)
qed simp

lemma data_packets_type: "p \<in> set (data_packets h n cs) \<Longrightarrow> type_field (header p) = type_field h"
  by (induction cs arbitrary: n) (auto simp: data_packet_def)

lemma serialize_packet_direct_eq [wire]:
  "serialize_packet_direct out h pl = Ok (out @ header_serialise h @ pl)"
proof -
  have "subslice (length out) (length out + 20) (out @ replicate (20 + length pl) 0) = replicate 20 (0::u8)"
    by (simp add: subslice_def replicate_add)
  moreover have "write_at (length out) (header_serialise h) (out @ replicate (20 + length pl) 0)
      = (out @ header_serialise h) @ replicate (length pl) 0"
    by (simp add: write_at_def)
  moreover have "write_at (length out + 20) pl ((out @ header_serialise h) @ replicate (length pl) 0)
      = out @ header_serialise h @ pl"
    by (simp add: write_at_def)
  ultimately show ?thesis
    unfolding serialize_packet_direct_def Let_def by (simp add: header_serialise_into_eq)
qed

lemma take_packet_eq:
  assumes "1520 \<le> bytes_remaining st"
  defines "c \<equiv> take 1500 (running_payload st)"
  shows "take_packet st = Ok (st\<lparr>pack_header := header (data_packet (pack_header st) (next_packet_num st) c),
      running_payload := drop 1500 (running_payload st),
      ans := ans st @ packet_serialise (data_packet (pack_header st) (next_packet_num st) c),
      next_packet_num := next_packet_num st + 1,
      bytes_remaining := bytes_remaining st - (length c + 20),
      payload_bytes_packed := payload_bytes_packed st + length c\<rparr>)"
proof -
  have m: "min (length (running_payload st)) (min MAX_BLUEFIN_PAYLOAD_SIZE_BYTES (bytes_remaining st - 20)) = length c"
    using assms(1) by (simp add: c_def net_sizes)
  have t: "take (length c) (running_payload st) = c" "drop (length c) (running_payload st) = drop 1500 (running_payload st)"
    by (simp_all add: c_def min_def)
  show ?thesis
    unfolding take_packet_def m Let_def t
    by (simp add: serialize_packet_direct_eq with_packet_number_def data_packet_def packet_serialise_def)
qed

lemma drain_running_spec:
  "running_payload st = [] \<or> bytes_remaining st = 1520 * j \<Longrightarrow>
   \<exists>st'. drain_running st = Ok st' \<and> queue st' = queue st \<and>
     ans st' = ans st @ frames (data_packets (pack_header st) (next_packet_num st) (pieces 1500 (take (j * 1500) (running_payload st)))) \<and>
     running_payload st' = drop (j * 1500) (running_payload st) \<and>
     next_packet_num st' = next_packet_num st + of_nat (length (pieces 1500 (take (j * 1500) (running_payload st)))) \<and>
     payload_bytes_packed st' = payload_bytes_packed st + min (j * 1500) (length (running_payload st))"
proof (induction j arbitrary: st)
  case 0
  then show ?case by (auto simp: drain_running.simps [of st])
next
  case (Suc j)
  show ?case
  proof (cases "running_payload st = []")
    case True
    then show ?thesis by (simp add: drain_running.simps [of st])
  next
    case False
    with Suc.prems have rem: "bytes_remaining st = 1520 + 1520 * j" by simp
    define c where "c = take 1500 (running_payload st)"
    define st1 where "st1 = st\<lparr>pack_header := header (data_packet (pack_header st) (next_packet_num st) c),
      running_payload := drop 1500 (running_payload st),
      ans := ans st @ packet_serialise (data_packet (pack_header st) (next_packet_num st) c),
      next_packet_num := next_packet_num st + 1,
      bytes_remaining := bytes_remaining st - (length c + 20),
      payload_bytes_packed := payload_bytes_packed st + length c\<rparr>"
    have "take_packet st = Ok st1"
      using take_packet_eq [of st] rem by (simp add: st1_def c_def)
    then have step: "drain_running st = drain_running st1"
      using False rem by (simp add: drain_running.simps [of st])
    have "running_payload st1 = [] \<or> bytes_remaining st1 = 1520 * j"
      using rem by (auto simp: st1_def c_def min_def)
    note IH = Suc.IH [OF this]
    have "take (Suc j * 1500) (running_payload st) \<noteq> []" using False by simp
    then have p: "pieces 1500 (take (Suc j * 1500) (running_payload st)) = c # pieces 1500 (take (j * 1500) (drop 1500 (running_payload st)))"
      by (subst pieces_step) (simp_all add: c_def drop_take take_take)
    show ?thesis
      unfolding step p using IH
      by (auto simp: st1_def data_packet_def c_def add.commute min_def split: if_splits)
  qed
qed

text \<open>The bytes still to send, the pieces a datagram with room for \<open>j\<close> full packets takes off them, and what
  packing those pieces does to the state.\<close>

definition unsent :: "PackState \<Rightarrow> Bytes" where
  "unsent st = running_payload st @ concat (queue st)"

definition taken :: "nat \<Rightarrow> Bytes \<Rightarrow> Bytes list" where
  "taken j S = pieces 1500 (take (j * 1500) S)"

definition packs :: "nat \<Rightarrow> PackState \<Rightarrow> PackState \<Rightarrow> bool" where
  "packs j st st' \<longleftrightarrow>
     ans st' = ans st @ frames (data_packets (pack_header st) (next_packet_num st) (taken j (unsent st))) \<and>
     concat (queue st') = drop (j * 1500) (unsent st) \<and>
     next_packet_num st' = next_packet_num st + of_nat (length (taken j (unsent st))) \<and>
     payload_bytes_packed st' = payload_bytes_packed st + min (j * 1500) (length (unsent st))"

lemma taken_Suc: "1500 \<le> length S \<Longrightarrow> taken (Suc j) S = take 1500 S # taken j (drop 1500 S)"
  unfolding taken_def by (subst pieces_step) (auto simp: drop_take take_take)

lemma finish_packs:
  assumes "bytes_remaining st = 1520 * j" and "queue st = [] \<or> j * 1500 \<le> length (running_payload st)"
  shows "\<exists>st'. drain_running st = Ok st' \<and> packs j st (requeue st')"
proof -
  obtain st' where d: "drain_running st = Ok st'" "queue st' = queue st"
     "ans st' = ans st @ frames (data_packets (pack_header st) (next_packet_num st) (pieces 1500 (take (j * 1500) (running_payload st))))"
     "running_payload st' = drop (j * 1500) (running_payload st)"
     "next_packet_num st' = next_packet_num st + of_nat (length (pieces 1500 (take (j * 1500) (running_payload st))))"
     "payload_bytes_packed st' = payload_bytes_packed st + min (j * 1500) (length (running_payload st))"
    using drain_running_spec [of st j] assms(1) by blast
  have "take (j * 1500) (unsent st) = take (j * 1500) (running_payload st)"
    "drop (j * 1500) (unsent st) = drop (j * 1500) (running_payload st) @ concat (queue st)"
    "min (j * 1500) (length (unsent st)) = min (j * 1500) (length (running_payload st))"
    using assms(2) by (auto simp: unsent_def)
  with d show ?thesis by (auto simp: packs_def taken_def requeue_def)
qed

lemma take_packet_packs:
  assumes rem: "bytes_remaining st = 1520 * Suc j" and len: "1500 \<le> length (running_payload st)"
  shows "\<exists>st1. take_packet st = Ok st1 \<and> bytes_remaining st1 = 1520 * j \<and>
    (\<forall>st'. packs j st1 st' \<longrightarrow> packs (Suc j) st st')"
proof -
  define c where "c = take 1500 (running_payload st)"
  define st1 where "st1 = st\<lparr>pack_header := header (data_packet (pack_header st) (next_packet_num st) c),
    running_payload := drop 1500 (running_payload st),
    ans := ans st @ packet_serialise (data_packet (pack_header st) (next_packet_num st) c),
    next_packet_num := next_packet_num st + 1,
    bytes_remaining := bytes_remaining st - (length c + 20),
    payload_bytes_packed := payload_bytes_packed st + length c\<rparr>"
  have "take_packet st = Ok st1" using take_packet_eq [of st] rem by (simp add: st1_def c_def)
  moreover have "bytes_remaining st1 = 1520 * j" using rem len by (simp add: st1_def c_def)
  moreover have "packs (Suc j) st st'" if "packs j st1 st'" for st'
  proof -
    have u: "unsent st1 = drop 1500 (unsent st)" "take 1500 (unsent st) = c" "1500 \<le> length (unsent st)" "length c = 1500"
      using len by (auto simp: unsent_def st1_def c_def)
    have "data_packets (pack_header st1) m cs = data_packets (pack_header st) m cs" for m cs
      by (simp add: st1_def data_packet_def)
    with that u show ?thesis
      unfolding packs_def taken_Suc [OF u(3)] u(1,2)
      by (simp add: st1_def add.assoc) (auto simp: add.commute min_def)
  qed
  ultimately show ?thesis by blast
qed

lemma packs_merge:
  assumes "queue st = d # q"
  shows "packs j (st\<lparr>queue := q, running_payload := running_payload st @ d\<rparr>) st' \<longleftrightarrow> packs j st st'"
  using assms by (simp add: packs_def unsent_def)

lemma pack_loop_spec:
  "bytes_remaining st = 1520 * j \<Longrightarrow>
   \<exists>st' early. pack_loop st = Ok (st', early) \<and> packs j st st' \<and> (early \<longrightarrow> 0 < j \<and> unsent st \<noteq> [])"
proof (induction st arbitrary: j rule: pack_loop.induct)
  case (1 st)
  note step = pack_loop.simps [of st]
  show ?case
  proof (cases "queue st \<noteq> [] \<and> bytes_remaining st > 20")
    case False
    then have "queue st = [] \<or> j * 1500 \<le> length (running_payload st)" using "1.prems" by (cases j) auto
    from finish_packs [OF "1.prems" this] show ?thesis using False unfolding step by auto
  next
    case True
    then obtain i where j: "j = Suc i" using "1.prems" by (cases j) auto
    obtain d q where q: "queue st = d # q" using True by (cases "queue st") auto
    show ?thesis
    proof (cases "bytes_remaining st - 20 \<le> length (running_payload st)")
      case early: True
      then have "j * 1500 \<le> length (running_payload st)" using "1.prems" j by simp
      moreover have "unsent st \<noteq> []" using early True by (auto simp: unsent_def)
      ultimately show ?thesis
        using finish_packs [OF "1.prems"] True early j unfolding step by auto
    next
      case room: False
      show ?thesis
      proof (cases "MAX_BLUEFIN_PAYLOAD_SIZE_BYTES \<le> length (running_payload st)")
        case full: True
        then have "1500 \<le> length (running_payload st)" by (simp add: net_sizes)
        from take_packet_packs [OF "1.prems" [unfolded j] this] obtain st1 where
          t: "take_packet st = Ok st1" "bytes_remaining st1 = 1520 * i" "\<And>st'. packs i st1 st' \<Longrightarrow> packs j st st'"
          unfolding j by blast
        have "unsent st \<noteq> []" using full by (auto simp: unsent_def net_sizes)
        with "1.IH"(1) [OF True room full t(1,2)] t show ?thesis
          using True room full j unfolding step by auto
      next
        case merge: False
        define st1 where "st1 = st\<lparr>queue := q, running_payload := running_payload st @ d\<rparr>"
        have st1: "st1 = st\<lparr>queue := tl (queue st), running_payload := running_payload st @ hd (queue st)\<rparr>"
          by (simp add: st1_def q)
        have rem1: "bytes_remaining st1 = 1520 * Suc i" using "1.prems" j by (simp add: st1_def)
        have u: "unsent st1 = unsent st" by (simp add: unsent_def st1_def q)
        show ?thesis
        proof (cases "length (hd (queue st)) + length (running_payload st) > MAX_BLUEFIN_PAYLOAD_SIZE_BYTES")
          case big: True
          then have "1500 \<le> length (running_payload st1)" by (simp add: st1_def net_sizes q)
          from take_packet_packs [OF rem1 this] obtain st2 where
            t: "take_packet st1 = Ok st2" "bytes_remaining st2 = 1520 * i" "\<And>st'. packs i st2 st' \<Longrightarrow> packs j st1 st'"
            unfolding j by blast
          have "unsent st \<noteq> []" using big by (auto simp: unsent_def net_sizes q)
          with "1.IH"(2) [OF True room merge refl st1 big t(1,2)] t show ?thesis
            using True room merge big j packs_merge [OF q] unfolding step Let_def st1 [symmetric]
            by (auto simp: st1_def)
        next
          case small: False
          from "1.IH"(3) [OF True room merge refl st1 small rem1] u show ?thesis
            using True room merge small j packs_merge [OF q] unfolding step Let_def st1 [symmetric]
            by (auto simp: st1_def)
        qed
      qed
    qed
  qed
qed

section \<open>The contract of a packetiser\<close>

lemma taken_eq_take: "taken j S = take j (pieces 1500 S)"
  by (simp add: taken_def take_pieces)

lemma taken_add: "taken (i + j) S = taken i S @ taken j (drop (i * 1500) S)"
proof -
  have "taken (i + j) S = take (i + j) (take i (pieces 1500 S) @ pieces 1500 (drop (i * 1500) S))"
    unfolding taken_eq_take using pieces_take_drop [of 1500 S i] by simp
  also have "\<dots> = taken i S @ taken j (drop (i * 1500) S)"
  proof (cases "i \<le> length (pieces 1500 S)")
    case True
    then show ?thesis by (simp add: taken_eq_take)
  next
    case False
    then have "drop (i * 1500) S = []"
      using concat_take_pieces [of 1500 i S] concat_pieces [of 1500 S] by (metis append_take_drop_id append_self_conv
          drop_all le_cases not_le take_all zero_less_numeral)
    then show ?thesis by (simp add: taken_eq_take)
  qed
  finally show ?thesis .
qed

lemma taken_eq_Nil [simp]: "0 < j \<Longrightarrow> taken j S = [] \<longleftrightarrow> S = []"
  by (simp add: taken_def)

lemma taken_Nil [simp]: "taken j [] = []"
  by (simp add: taken_def)

lemma concat_taken: "concat (taken j S) = take (j * 1500) S"
  by (simp add: taken_def concat_pieces)

text \<open>Packing rounds until a round yields nothing, at most \<open>k\<close> of them.\<close>

fun pack_rounds :: "(Bytes list \<Rightarrow> u64 \<Rightarrow> (Bytes list \<times> u64 \<times> Bytes) BluefinResult) \<Rightarrow> nat \<Rightarrow> Bytes list \<Rightarrow> u64 \<Rightarrow>
    (Bytes list \<times> u64 \<times> Bytes list) BluefinResult" where
  "pack_rounds pk 0 q n = Ok (q, n, [])"
| "pack_rounds pk (Suc k) q n = bind_res (pk q n) (\<lambda>(q', n', d).
     if d = [] then Ok (q', n', [])
     else bind_res (pack_rounds pk k q' n') (\<lambda>(q'', n'', ds). Ok (q'', n'', d # ds)))"

locale packetiser =
  fixes pk :: "Bytes list \<Rightarrow> u64 \<Rightarrow> (Bytes list \<times> u64 \<times> Bytes) BluefinResult" and base :: BluefinHeader
  assumes pk_spec: "\<exists>q'. pk q n = Ok (q', n + of_nat (length (taken 10 (concat q))),
      frames (data_packets base n (taken 10 (concat q)))) \<and> concat q' = drop 15000 (concat q)"
begin

lemma rounds_spec:
  "\<exists>q' ds. pack_rounds pk k q n = Ok (q', n + of_nat (length (taken (10 * k) (concat q))), ds) \<and>
     concat ds = frames (data_packets base n (taken (10 * k) (concat q))) \<and>
     concat q' = drop (k * 15000) (concat q) \<and> length ds \<le> k"
proof (induction k arbitrary: q n)
  case 0
  then show ?case by (simp add: taken_def)
next
  case (Suc k)
  let ?S = "concat q"
  obtain q1 where 1: "pk q n = Ok (q1, n + of_nat (length (taken 10 ?S)), frames (data_packets base n (taken 10 ?S)))"
    "concat q1 = drop 15000 ?S" using pk_spec by blast
  show ?case
  proof (cases "?S = []")
    case True
    with 1 show ?thesis by (simp del: concat_eq_Nil_conv)
  next
    case False
    then have ne: "frames (data_packets base n (taken 10 ?S)) \<noteq> []" by (simp del: concat_eq_Nil_conv)
    have "10 * Suc k = 10 + 10 * k" by simp
    then have split: "taken (10 * Suc k) ?S = taken 10 ?S @ taken (10 * k) (concat q1)"
      by (simp only: taken_add) (simp add: 1(2))
    obtain q' ds where 2: "pack_rounds pk k q1 (n + of_nat (length (taken 10 ?S))) =
        Ok (q', n + of_nat (length (taken 10 ?S)) + of_nat (length (taken (10 * k) (concat q1))), ds)"
      "concat ds = frames (data_packets base (n + of_nat (length (taken 10 ?S))) (taken (10 * k) (concat q1)))"
      "concat q' = drop (k * 15000) (concat q1)" "length ds \<le> k"
      using Suc.IH [of q1 "n + of_nat (length (taken 10 ?S))"] by blast
    show ?thesis
      unfolding split using 1 2 ne
      by (simp add: data_packets_append add.assoc add.commute [of _ 15000] del: concat_eq_Nil_conv)
  qed
qed

lemma rounds_drain:
  assumes "length (concat q) \<le> k * 15000"
  shows "\<exists>q' ds. pack_rounds pk k q n = Ok (q', n + of_nat (length (pieces 1500 (concat q))), ds) \<and>
    concat ds = frames (data_packets base n (pieces 1500 (concat q))) \<and> concat q' = []"
proof -
  have "taken (10 * k) (concat q) = pieces 1500 (concat q)" using assms by (simp add: taken_def)
  with rounds_spec [of k q n] assms show ?thesis by auto
qed

end

definition pack_into :: "u32 \<Rightarrow> u32 \<Rightarrow> Bytes list \<Rightarrow> u64 \<Rightarrow> (Bytes list \<times> u64 \<times> Bytes) BluefinResult" where
  "pack_into src dst q n = bind_res (consume_data_into q n src dst []) (\<lambda>(_, q', n', d). Ok (q', n', d))"

definition pack_legacy :: "u32 \<Rightarrow> u32 \<Rightarrow> Bytes list \<Rightarrow> u64 \<Rightarrow> (Bytes list \<times> u64 \<times> Bytes) BluefinResult" where
  "pack_legacy src dst q n = bind_res (consume_data q n src dst) (\<lambda>(d, q', n').
     Ok (q', n', case d of None \<Rightarrow> [] | Some d \<Rightarrow> d))"

lemma MAX_BLUEFIN_BYTES_IN_UDP_DATAGRAM_val: "MAX_BLUEFIN_BYTES_IN_UDP_DATAGRAM = 1520 * 10"
  by (simp add: net_sizes)

lemma consume_data_into_spec:
  "\<exists>q'. consume_data_into q n src dst out = Ok (min 15000 (length (concat q)), q',
      n + of_nat (length (taken 10 (concat q))),
      out @ frames (data_packets (data_header src dst security_default) n (taken 10 (concat q)))) \<and>
    concat q' = drop 15000 (concat q)"
proof (cases q)
  case Nil
  then show ?thesis by (simp add: consume_data_into_def)
next
  case (Cons d ds)
  let ?st = "\<lparr>queue = ds, next_packet_num = n, ans = out, running_payload = d,
    bytes_remaining = MAX_BLUEFIN_BYTES_IN_UDP_DATAGRAM, payload_bytes_packed = 0,
    pack_header = data_header src dst security_default\<rparr>"
  obtain st' early where "pack_loop ?st = Ok (st', early)" "packs 10 ?st st'"
    using pack_loop_spec [of ?st 10] by (auto simp: MAX_BLUEFIN_BYTES_IN_UDP_DATAGRAM_val)
  then show ?thesis by (simp add: consume_data_into_def Cons packs_def unsent_def)
qed

lemma consume_data_spec:
  "\<exists>q'. consume_data q n src dst = Ok (
      if concat q = [] then None
      else Some (frames (data_packets (data_header src dst security_default) n (taken 10 (concat q)))),
      q', n + of_nat (length (taken 10 (concat q)))) \<and> concat q' = drop 15000 (concat q)"
proof -
  let ?st = "\<lparr>queue = q, next_packet_num = n, ans = [], running_payload = [],
    bytes_remaining = MAX_BLUEFIN_BYTES_IN_UDP_DATAGRAM, payload_bytes_packed = 0,
    pack_header = data_header src dst security_default\<rparr>"
  obtain st' early where p: "pack_loop ?st = Ok (st', early)" "packs 10 ?st st'" "early \<longrightarrow> unsent ?st \<noteq> []"
    using pack_loop_spec [of ?st 10] by (auto simp: MAX_BLUEFIN_BYTES_IN_UDP_DATAGRAM_val)
  have "security_new False 0 = Ok security_default" by (simp add: security_new_def security_default_def)
  moreover have "frames (data_packets (data_header src dst security_default) n (taken 10 (concat q))) = [] \<longleftrightarrow> concat q = []"
    by (simp del: concat_eq_Nil_conv)
  ultimately show ?thesis
    using p by (cases "concat q = []") (auto simp: consume_data_def packs_def unsent_def simp del: concat_eq_Nil_conv)
qed

interpretation pump: packetiser "pack_into src dst" "data_header src dst security_default"
proof unfold_locales
  fix q n
  from consume_data_into_spec [of q n src dst "[]"]
  show "\<exists>q'. pack_into src dst q n = Ok (q', n + of_nat (length (taken 10 (concat q))),
      frames (data_packets (data_header src dst security_default) n (taken 10 (concat q)))) \<and> concat q' = drop 15000 (concat q)"
    by (auto simp: pack_into_def)
qed

interpretation legacy: packetiser "pack_legacy src dst" "data_header src dst security_default"
proof unfold_locales
  fix q n
  from consume_data_spec [of q n src dst]
  show "\<exists>q'. pack_legacy src dst q n = Ok (q', n + of_nat (length (taken 10 (concat q))),
      frames (data_packets (data_header src dst security_default) n (taken 10 (concat q)))) \<and> concat q' = drop 15000 (concat q)"
    by (auto simp: pack_legacy_def simp del: concat_eq_Nil_conv split: if_splits)
qed

section \<open>What is on the wire parses back\<close>

lemma data_header_valid: "header_valid (data_header src dst security_default)"
  by (simp add: data_header_def header_new_def header_valid_def security_valid_def security_default_def)

lemma data_packet_wire:
  assumes "length c \<le> 1500"
  shows "wire_packet (data_packet (data_header src dst security_default) n c)"
proof -
  have "unat (of_nat (length c) :: u16) = length c" using assms by (simp add: unat_of_nat)
  moreover have "header_valid (h\<lparr>packet_number := n, type_specific_payload := m\<rparr>) \<longleftrightarrow> header_valid h" for h m
    by (simp add: header_valid_def)
  ultimately show ?thesis
    using data_header_valid [of src dst]
    by (simp add: wire_packet_def packet_valid_def data_packet_def header_only_def)
      (simp add: data_header_def header_new_def)
qed

lemma data_packets_wire:
  "(\<And>c. c \<in> set cs \<Longrightarrow> length c \<le> 1500) \<Longrightarrow> list_all wire_packet (data_packets (data_header src dst security_default) n cs)"
  by (induction cs arbitrary: n) (auto simp: data_packet_wire)

lemma from_bytes_data_packets:
  assumes "cs \<noteq> []" and "\<And>c. c \<in> set cs \<Longrightarrow> c \<noteq> [] \<and> length c \<le> 1500"
  shows "from_bytes (frames (data_packets (data_header src dst security_default) n cs))
    = Ok (data_packets (data_header src dst security_default) n cs)"
proof -
  have "payload (last (data_packets (data_header src dst security_default) n cs)) = last cs"
    using assms(1) by (metis data_packets_eq_Nil last_map payloads_data_packets)
  then have "\<not> empty_data (last (data_packets (data_header src dst security_default) n cs))"
    using assms last_in_set [of cs] by (auto simp: empty_data_def)
  with assms data_packets_wire [of cs] show ?thesis by (simp add: from_bytes_iff)
qed

lemma taken_member: "c \<in> set (taken j S) \<Longrightarrow> c \<noteq> [] \<and> length c \<le> 1500"
  unfolding taken_def by (rule pieces_member)

lemma length_taken: "length (taken j S) \<le> j"
  by (simp add: taken_eq_take)

lemma length_frames_data_packets:
  "length (frames (data_packets h n cs)) = 20 * length cs + length (concat cs)"
  by (induction cs arbitrary: n) (auto simp: packet_len_def data_packet_def)

section \<open>Acknowledgements\<close>

definition ack_packet :: "BluefinHeader \<Rightarrow> AckData \<Rightarrow> BluefinPacket" where
  "ack_packet h a = \<lparr>header = ack_header h a, payload = []\<rparr>"

lemma append_header_eq [wire]: "append_header h bytes = Ok (bytes @ header_serialise h)"
  by (simp add: append_header_def Let_def header_serialise_into_eq write_at_def)

lemma ack_header_twice [simp]: "ack_header (ack_header h a) b = ack_header h b"
  by (simp add: ack_header_def)

lemma ack_packet_header [simp]: "ack_packet (ack_header h a) = ack_packet h"
  by (rule ext) (simp add: ack_packet_def)

lemma packet_serialise_nonempty [simp]: "packet_serialise p \<noteq> []"
  by (simp add: packet_len_def flip: length_0_conv)

lemma ack_room_Suc: "20 \<le> m \<Longrightarrow> m div 20 = Suc ((m - 20) div 20)" for m :: nat
  by (simp add: div_if)

lemma consume_acks_into_loop_spec:
  "length bytes \<le> 15200 \<Longrightarrow> consume_acks_into_loop h q bytes =
     Ok (drop ((15200 - length bytes) div 20) q,
         bytes @ frames (map (ack_packet h) (take ((15200 - length bytes) div 20) q)))"
proof (induction q arbitrary: h bytes)
  case (Cons a q)
  show ?case
  proof (cases "length bytes + 20 \<le> 15200")
    case True
    then have "(15200 - length bytes) div 20 = Suc ((15200 - (length bytes + 20)) div 20)"
      using ack_room_Suc [of "15200 - length bytes"] by simp
    with True Cons.IH [of "bytes @ header_serialise (ack_header h a)" "ack_header h a"] show ?thesis
      by (simp add: append_header_eq net_sizes ack_packet_def packet_serialise_def)
  next
    case False
    then have "(15200 - length bytes) div 20 = 0" by simp
    with False show ?thesis by (simp add: net_sizes)
  qed
qed simp

lemma consume_acks_loop_eq: "length bytes \<le> 15200 \<Longrightarrow> consume_acks_loop h q bytes = consume_acks_into_loop h q bytes"
proof (induction q arbitrary: h bytes)
  case (Cons a q)
  then show ?case by (auto simp: append_header_eq net_sizes)
qed simp

section \<open>Properties\<close>

text \<open>C14. The data packetiser: whatever payloads are queued, it packs the first 15000 queued bytes (all of them if
  fewer) into at most ten packets of 1500 bytes each, only the last possibly shorter, numbered consecutively
  from the next packet number, appends exactly their frames to the datagram, keeps the remaining bytes queued
  in order, and returns the number of bytes packed.\<close>

theorem consume_data_into_correct:
  "\<exists>q'. consume_data_into q n src dst out =
      Ok (min 15000 (length (concat q)), q', n + of_nat (length (take 10 (pieces 1500 (concat q)))),
          out @ frames (data_packets (data_header src dst security_default) n (take 10 (pieces 1500 (concat q))))) \<and>
    concat q' = drop 15000 (concat q)"
  using consume_data_into_spec [of q n src dst out] by (simp add: taken_eq_take)

text \<open>The legacy packetiser is equivalent to the hot-path one: the same datagram (none instead of an empty
  one), the same next packet number, and the same bytes left in the queue.\<close>

lemma consume_data_equiv:
  "\<exists>k d n' q1 q2. consume_data_into q n src dst [] = Ok (k, q1, n', d) \<and>
     consume_data q n src dst = Ok (if d = [] then None else Some d, q2, n') \<and> concat q1 = concat q2"
proof -
  let ?d = "frames (data_packets (data_header src dst security_default) n (taken 10 (concat q)))"
  have d: "(if ?d = [] then None else Some ?d) = (if concat q = [] then None else Some ?d)"
    by (simp del: concat_eq_Nil_conv)
  obtain q1 q2 where "consume_data_into q n src dst [] = Ok (min 15000 (length (concat q)), q1, n + of_nat (length (taken 10 (concat q))), ?d)"
    "consume_data q n src dst = Ok (if ?d = [] then None else Some ?d, q2, n + of_nat (length (taken 10 (concat q))))"
    "concat q1 = concat q2"
    using consume_data_into_spec [of q n src dst "[]"] consume_data_spec [of q n src dst] unfolding d by auto
  then show ?thesis by blast
qed

text \<open>Every datagram the packetiser produces for a non-empty backlog fits the maximal datagram size and is
  parsed by the receiver into exactly the packets that were packed: consecutive numbers, payloads that
  concatenate to the bytes taken from the queue.\<close>

lemma datagram_parses_back:
  assumes "concat q \<noteq> []"
  shows "\<exists>k q' n' d ps. consume_data_into q n src dst [] = Ok (k, q', n', d) \<and> length d \<le> 15200 \<and>
    from_bytes d = Ok ps \<and> concat (map payload ps) @ concat q' = concat q \<and> n' = n + of_nat (length ps) \<and>
    (\<forall>i < length ps. packet_number (header (ps ! i)) = n + of_nat i)"
proof -
  let ?cs = "taken 10 (concat q)"
  let ?ps = "data_packets (data_header src dst security_default) n ?cs"
  obtain q' where c: "consume_data_into q n src dst [] = Ok (min 15000 (length (concat q)), q', n + of_nat (length ?cs), frames ?ps)"
    "concat q' = drop 15000 (concat q)" using consume_data_into_spec [of q n src dst "[]"] by auto
  have "length (frames ?ps) \<le> 15200"
    using length_taken [of 10 "concat q"] by (simp add: length_frames_data_packets concat_taken)
  moreover have "from_bytes (frames ?ps) = Ok ?ps"
    using assms by (intro from_bytes_data_packets) (auto dest: taken_member simp del: concat_eq_Nil_conv)
  moreover have "concat (map payload ?ps) @ concat q' = concat q" by (simp add: concat_taken c(2))
  moreover have "\<forall>i < length ?ps. packet_number (header (?ps ! i)) = n + of_nat i"
    by (simp add: data_packets_nth data_packet_def)
  ultimately show ?thesis using c(1) by auto
qed

text \<open>Both acknowledgement packers emit, in order, one header-only packet \<open>(base, count)\<close> for each of the
  first 760 queued acknowledgements (a full datagram), keep the rest queued, and agree with each other.\<close>

lemma consume_acks_correct:
  "consume_acks_into q src dst [] =
     Ok (q \<noteq> [], drop 760 q, frames (map (ack_packet (header_new src dst Ack 0 security_default)) (take 760 q))) \<and>
   consume_acks q src dst =
     Ok (if q = [] then None
         else Some (frames (map (ack_packet (header_new src dst Ack 0 security_default)) (take 760 q))), drop 760 q)"
proof -
  have "security_new False 0 = Ok security_default" by (simp add: security_new_def security_default_def)
  then show ?thesis
    by (cases q) (simp_all add: consume_acks_into_def consume_acks_def consume_acks_loop_eq
        consume_acks_into_loop_spec del: consume_acks_into_loop.simps consume_acks_loop.simps)
qed

text \<open>The audit walk finds the length field of each frame.\<close>

lemma header_length_field:
  "\<exists>a b. take 2 (drop 1 (header_serialise h)) = [a, b] \<and> from_be_bytes [a, b] = type_specific_payload h"
proof -
  have "take 2 (drop 1 (header_serialise h)) = to_be_bytes 2 (type_specific_payload h)"
    by (simp add: header_serialise_def)
  moreover have "length (to_be_bytes 2 (type_specific_payload h)) = 2" by simp
  then obtain a b where "to_be_bytes 2 (type_specific_payload h) = [a, b]"
    by (metis (no_types, lifting) length_0_conv length_Suc_conv numeral_2_eq_2)
  moreover have "from_be_bytes (to_be_bytes 2 (type_specific_payload h)) = type_specific_payload h"
    by (rule from_to_be_bytes) simp
  ultimately show ?thesis by auto
qed

lemma frame_length_field:
  "from_be_bytes [(pre @ packet_serialise p @ rest) ! (length pre + 1), (pre @ packet_serialise p @ rest) ! (length pre + 2)]
   = type_specific_payload (header p)"
proof -
  obtain a b where ab: "take 2 (drop 1 (header_serialise (header p))) = [a, b]"
    "from_be_bytes [a, b] = type_specific_payload (header p)" using header_length_field by blast
  have l: "length (header_serialise (header p)) = 20" by simp
  have "header_serialise (header p) ! 1 = a" "header_serialise (header p) ! 2 = b"
    using arg_cong [OF ab(1), of "\<lambda>xs. xs ! 0"] arg_cong [OF ab(1), of "\<lambda>xs. xs ! 1"] by (simp_all add: numeral_2_eq_2)
  with ab(2) l show ?thesis by (simp add: packet_serialise_def nth_append)
qed

lemma payload_bytes_loop_frames:
  "(\<And>p. p \<in> set ps \<Longrightarrow> length (payload p) = unat (type_specific_payload (header p))) \<Longrightarrow>
   payload_bytes_loop (pre @ frames ps) t (length pre) = t + length (concat (map payload ps))"
proof (induction ps arbitrary: pre t)
  case Nil
  then show ?case by (simp add: payload_bytes_loop.simps)
next
  case (Cons p ps)
  have IH: "payload_bytes_loop ((pre @ packet_serialise p) @ frames ps) (t + length (payload p)) (length (pre @ packet_serialise p))
      = t + length (payload p) + length (concat (map payload ps))"
    by (rule Cons.IH) (use Cons.prems in simp)
  have len: "unat (from_be_bytes [(pre @ packet_serialise p @ frames ps) ! (length pre + 1),
      (pre @ packet_serialise p @ frames ps) ! (length pre + 2)] :: u16) = length (payload p)"
    unfolding frame_length_field using Cons.prems by simp
  show ?case
    unfolding frames_simps payload_bytes_loop.simps [of "pre @ packet_serialise p @ frames ps" t "length pre"] len Let_def
    using IH by (simp add: packet_len_def add.commute add.left_commute)
qed

text \<open>The audit helper recounts what the packetiser reported: walking the datagram header by header sums to
  the number of payload bytes packed.\<close>

lemma payload_bytes_audit:
  "\<exists>k q' n' d. consume_data_into q n src dst [] = Ok (k, q', n', d) \<and> payload_bytes_in_datagram d = k"
proof -
  let ?cs = "taken 10 (concat q)"
  let ?ps = "data_packets (data_header src dst security_default) n ?cs"
  have "list_all wire_packet ?ps" using taken_member by (intro data_packets_wire) blast
  moreover have "type_field (header p) = UnencryptedData" if "p \<in> set ?ps" for p
    using data_packets_type [OF that] by (simp add: data_header_def header_new_def)
  ultimately have "length (payload p) = unat (type_specific_payload (header p))" if "p \<in> set ?ps" for p
    using that by (auto simp: list_all_iff wire_packet_def header_only_def split: if_splits)
  then have "payload_bytes_in_datagram (frames ?ps) = min 15000 (length (concat q))"
    using payload_bytes_loop_frames [of ?ps "[]" 0] by (simp add: payload_bytes_in_datagram_def concat_taken min.commute)
  with consume_data_into_spec [of q n src dst "[]"] show ?thesis by auto
qed

end
