(* ===== verification/Writer.thy ===== *)
theory Writer
  imports Packetiser
begin

text \<open>
  \<open>bluefin/src/worker/writer.rs\<close>, the concurrent half: the handle that accepts payloads, the packetising task
  \<open>read_data\<close>, the sender task it spawns, the acknowledgement task \<open>read_ack\<close>, \<open>flush\<close> and the close-time
  operations. All of them share the record \<open>Writer\<close>: the atomics, the channels, the tasks' locals and the log
  of what the socket has accepted. \<open>writer_run\<close> interleaves the tasks at the granularity of their shared
  operations: receiving a batch, packing one datagram, storing the packet number, sending one datagram. The
  buffer pool and the recycle channel only reuse allocations and are not represented.
\<close>

definition DATA_CHANNEL_BOUND :: usize where
  "DATA_CHANNEL_BOUND = 4096"

datatype PumpPhase = Receiving | Packing nat | Storing

datatype SentDatagram = DataDatagram Bytes | AckDatagram Bytes | ControlDatagram Bytes

record Writer =
  next_packet_num_shared :: u64
  closed :: bool
  data_sender :: "Bytes channel option"
  ack_sender :: "AckData channel option"
  wr_src_conn_id :: u32
  wr_dst_conn_id :: u32
  pending_bytes :: usize
  flush_notify :: nat
  diag_tx :: "DiagnosticEvent channel option"
  parked :: "Bytes list"
  initial_packet_num :: u64
  pump_phase :: PumpPhase
  data_queue :: "Bytes list"
  pump_packet_num :: u64
  send_queue :: "(Bytes \<times> usize) list"
  ack_queue :: "AckData list"
  pending_send :: "Bytes option"
  sent :: "SentDatagram list"

definition writer_new :: "u64 \<Rightarrow> u32 \<Rightarrow> u32 \<Rightarrow> Writer" where
  "writer_new n src_conn_id dst_conn_id =
     \<lparr>next_packet_num_shared = n, closed = False, data_sender = None, ack_sender = None,
      wr_src_conn_id = src_conn_id, wr_dst_conn_id = dst_conn_id, pending_bytes = 0, flush_notify = 0,
      diag_tx = None, parked = [], initial_packet_num = n, pump_phase = Receiving, data_queue = [], pump_packet_num = n,
      send_queue = [], ack_queue = [], pending_send = None, sent = []\<rparr>"

text \<open>\<open>start\<close> creates the channels and the tasks; the packetiser's counter starts at \<open>next_packet_num\<close>.\<close>

definition writer_start :: "Writer \<Rightarrow> Writer" where
  "writer_start w =
     w\<lparr>data_sender := Some \<lparr>chan_bound = Some DATA_CHANNEL_BOUND, chan_open = True, chan_queue = []\<rparr>,
       ack_sender := Some \<lparr>chan_bound = None, chan_open = True, chan_queue = []\<rparr>,
       pump_phase := Receiving, data_queue := [], pump_packet_num := initial_packet_num w,
       send_queue := [], ack_queue := [], pending_send := None\<rparr>"

section \<open>Accepting payloads\<close>

definition send_bytes :: "Bytes \<Rightarrow> Writer \<Rightarrow> Writer \<times> usize BluefinResult" where
  "send_bytes data w =
     (if closed w then (w, Err ConnectionClosed)
      else case data_sender w of
          Some sender \<Rightarrow>
            (let len = length data;
                 w1 = w\<lparr>pending_bytes := pending_bytes w + len\<rparr>;
                 (sender', ok) = chan_try_send data sender in
             if \<not> ok
             then (w1\<lparr>pending_bytes := pending_bytes w1 - len\<rparr>,
                   Err (WriteError ''Failed to send data (channel full or closed)''))
             else (w1\<lparr>data_sender := Some sender'\<rparr>, Ok len))
        | None \<Rightarrow> (w, Err (WriteError ''Sender is not available'')))"

definition send_data :: "Bytes \<Rightarrow> Writer \<Rightarrow> Writer \<times> usize BluefinResult" where
  "send_data data w =
     (if closed w then (w, Err ConnectionClosed)
      else case data_sender w of
          Some sender \<Rightarrow>
            (let len = length data;
                 w1 = w\<lparr>pending_bytes := pending_bytes w + len\<rparr>;
                 (sender', ok) = chan_try_send data sender in
             if \<not> ok
             then (w1\<lparr>pending_bytes := pending_bytes w1 - len\<rparr>,
                   Err (WriteError ''Failed to send data (channel full or closed)''))
             else (w1\<lparr>data_sender := Some sender'\<rparr>, Ok len))
        | None \<Rightarrow> (w, Err (WriteError ''Sender is not available'')))"

text \<open>\<open>send_bytes_async\<close> up to its \<open>await\<close> (\<open>None\<close>: it is parked on a full channel, its bytes already counted),
  and from there on, when the channel has room again or has lost its receiver.\<close>

definition send_bytes_async :: "Bytes \<Rightarrow> Writer \<Rightarrow> Writer \<times> usize BluefinResult option" where
  "send_bytes_async data w =
     (if closed w then (w, Some (Err ConnectionClosed))
      else case data_sender w of
          Some sender \<Rightarrow>
            (let len = length data;
                 w1 = w\<lparr>pending_bytes := pending_bytes w + len\<rparr> in
             if \<not> chan_open sender
             then (w1\<lparr>pending_bytes := pending_bytes w1 - len\<rparr>,
                   Some (Err (WriteError ''Failed to send data (channel closed)'')))
             else if chan_has_room sender
             then (w1\<lparr>data_sender := Some (sender\<lparr>chan_queue := chan_queue sender @ [data]\<rparr>)\<rparr>, Some (Ok len))
             else (w1\<lparr>parked := parked w1 @ [data]\<rparr>, None))
        | None \<Rightarrow> (w, Some (Err (WriteError ''Sender is not available''))))"

definition send_bytes_resume :: "usize \<Rightarrow> Writer \<Rightarrow> (Writer \<times> usize BluefinResult) option" where
  "send_bytes_resume i w = (case data_sender w of
      Some sender \<Rightarrow>
        if i < length (parked w) then
          (let data = parked w ! i; len = length data;
               w1 = w\<lparr>parked := take i (parked w) @ drop (Suc i) (parked w)\<rparr> in
           if \<not> chan_open sender
           then Some (w1\<lparr>pending_bytes := pending_bytes w1 - len\<rparr>,
                      Err (WriteError ''Failed to send data (channel closed)''))
           else if chan_has_room sender
           then Some (w1\<lparr>data_sender := Some (sender\<lparr>chan_queue := chan_queue sender @ [data]\<rparr>)\<rparr>, Ok len)
           else None)
        else None
    | None \<Rightarrow> None)"

definition send_ack :: "u64 \<Rightarrow> usize \<Rightarrow> Writer \<Rightarrow> Writer \<times> unit BluefinResult" where
  "send_ack base n w = (case ack_sender w of
      None \<Rightarrow> (w, Err (WriteError ''Ack sender is not available''))
    | Some sender \<Rightarrow>
        (let data = \<lparr>base_packet_num = base, num_packets_acked = n\<rparr> in
         if \<not> chan_open sender then (w, Err (WriteError ''Failed to send ack''))
         else (w\<lparr>ack_sender := Some (sender\<lparr>chan_queue := chan_queue sender @ [data]\<rparr>)\<rparr>, Ok ())))"

section \<open>The packetising task\<close>

text \<open>One wait on the data channel and up to 19 further messages.\<close>

definition pump_receive :: "Writer \<Rightarrow> Writer option" where
  "pump_receive w = (case (pump_phase w, data_sender w) of
      (Receiving, Some c) \<Rightarrow>
        if chan_queue c = [] then None
        else Some (w\<lparr>data_queue := data_queue w @ take 20 (chan_queue c),
                     data_sender := Some (c\<lparr>chan_queue := drop 20 (chan_queue c)\<rparr>),
                     pump_phase := Packing 0\<rparr>)
    | _ \<Rightarrow> None)"

text \<open>One iteration of \<open>for i in 0..12\<close>.\<close>

definition pump_pack :: "Writer \<Rightarrow> Writer BluefinResult option" where
  "pump_pack w = (case pump_phase w of
      Packing i \<Rightarrow>
        if i < 12 then
          (let pkt_num_before = pump_packet_num w in
           Some (bind_res (consume_data_into (data_queue w) pkt_num_before (wr_src_conn_id w) (wr_dst_conn_id w) [])
             (\<lambda>(payload_bytes, q, n, datagram).
               let w1 = w\<lparr>data_queue := q, pump_packet_num := n\<rparr> in
               if payload_bytes > 0
               then Ok (w1\<lparr>diag_tx := diag_try_send (diag_tx w1) (DataSent pkt_num_before (n - pkt_num_before) payload_bytes),
                           send_queue := send_queue w1 @ [(datagram, payload_bytes)],
                           pump_phase := Packing (i + 1)\<rparr>)
               else Ok (w1\<lparr>pump_phase := Storing\<rparr>))))
        else Some (Ok (w\<lparr>pump_phase := Storing\<rparr>))
    | _ \<Rightarrow> None)"

definition pump_store :: "Writer \<Rightarrow> Writer option" where
  "pump_store w = (case pump_phase w of
      Storing \<Rightarrow> Some (w\<lparr>next_packet_num_shared := pump_packet_num w, pump_phase := Receiving\<rparr>)
    | _ \<Rightarrow> None)"

text \<open>The spawned sender task: once \<open>try_send\<close> has succeeded for a datagram, account for it.\<close>

definition sender_turn :: "Writer \<Rightarrow> Writer option" where
  "sender_turn w = (case send_queue w of
      [] \<Rightarrow> None
    | (datagram, payload_bytes) # q \<Rightarrow>
        (let w1 = w\<lparr>send_queue := q, sent := sent w @ [DataDatagram datagram]\<rparr> in
         if payload_bytes > 0 then
           (let prev = pending_bytes w1;
                w2 = w1\<lparr>pending_bytes := prev - payload_bytes\<rparr> in
            Some (if prev = payload_bytes then w2\<lparr>flush_notify := flush_notify w2 + 1\<rparr> else w2))
         else Some w1))"

text \<open>\<open>flush\<close> returns when it loads zero; otherwise it parks.\<close>

definition flush_ready :: "Writer \<Rightarrow> bool" where
  "flush_ready w \<longleftrightarrow> pending_bytes w = 0"

section \<open>Closing\<close>

definition reserve_close_packet_num :: "Writer \<Rightarrow> Writer \<times> u64" where
  "reserve_close_packet_num w = (w\<lparr>next_packet_num_shared := next_packet_num_shared w + 1\<rparr>, next_packet_num_shared w)"

definition writer_mark_closed :: "Writer \<Rightarrow> Writer" where
  "writer_mark_closed w = w\<lparr>closed := True\<rparr>"

definition writer_is_closed :: "Writer \<Rightarrow> bool" where
  "writer_is_closed w = closed w"

text \<open>\<open>send_control_packet\<close> retries until the socket takes the 20 bytes (\<open>io = None\<close>) or waiting for it to become
  writable fails with the error \<open>e\<close> (\<open>io = Some e\<close>).\<close>

definition send_control_packet :: "string option \<Rightarrow> PacketType \<Rightarrow> u64 \<Rightarrow> Writer \<Rightarrow> Writer BluefinResult" where
  "send_control_packet io packet_type n w =
     (let h = with_packet_number n (header_new (wr_src_conn_id w) (wr_dst_conn_id w) packet_type 0 security_default) in
      bind_res (header_serialise_into h (replicate 20 0)) (\<lambda>(_, buf).
        case io of
          None \<Rightarrow> Ok (w\<lparr>sent := sent w @ [ControlDatagram buf]\<rparr>)
        | Some e \<Rightarrow> Err (StdIoError e)))"

definition send_fin :: "string option \<Rightarrow> u64 \<Rightarrow> Writer \<Rightarrow> Writer BluefinResult" where
  "send_fin io n w = bind_res (send_control_packet io Fin n w) (\<lambda>w'.
     Ok (w'\<lparr>diag_tx := diag_try_send (diag_tx w') (FinSent n)\<rparr>))"

definition send_fin_ack :: "string option \<Rightarrow> u64 \<Rightarrow> Writer \<Rightarrow> Writer BluefinResult" where
  "send_fin_ack io n w = bind_res (send_control_packet io FinAck n w) (\<lambda>w'.
     Ok (w'\<lparr>diag_tx := diag_try_send (diag_tx w') (FinAckSent n)\<rparr>))"

section \<open>The acknowledgement task\<close>

text \<open>The \<open>for i in 0..12\<close> loop of \<open>read_ack\<close>; \<open>oks\<close> are the outcomes of \<open>try_send\<close>, in order.\<close>

fun ack_batch :: "nat \<Rightarrow> bool list \<Rightarrow> Writer \<Rightarrow> Writer BluefinResult" where
  "ack_batch 0 oks w = Ok w"
| "ack_batch (Suc k) oks w =
     bind_res (consume_acks_into (ack_queue w) (wr_src_conn_id w) (wr_dst_conn_id w) []) (\<lambda>(some, q, datagram).
       let w1 = w\<lparr>ack_queue := q\<rparr> in
       if some then
         (case oks of
            True # oks' \<Rightarrow> ack_batch k oks' (w1\<lparr>sent := sent w1 @ [AckDatagram datagram]\<rparr>)
          | _ \<Rightarrow> Ok (w1\<lparr>pending_send := Some datagram\<rparr>))
       else Ok w1)"

text \<open>One iteration of the task's \<open>loop\<close>: retry what is pending, then receive up to 20 and send.\<close>

definition ack_turn :: "bool list \<Rightarrow> Writer \<Rightarrow> Writer BluefinResult option" where
  "ack_turn oks w = (case (pending_send w, oks) of
      (Some data, True # oks') \<Rightarrow> Some (Ok (w\<lparr>pending_send := None, sent := sent w @ [AckDatagram data]\<rparr>))
    | (Some data, _) \<Rightarrow> Some (Ok w)
    | (None, _) \<Rightarrow>
        (case ack_sender w of
           None \<Rightarrow> None
         | Some c \<Rightarrow>
             if chan_queue c = [] then None
             else Some (ack_batch 12 oks
               (w\<lparr>ack_queue := ack_queue w @ take 20 (chan_queue c),
                  ack_sender := Some (c\<lparr>chan_queue := drop 20 (chan_queue c)\<rparr>)\<rparr>))))"

section \<open>Executions\<close>

text \<open>\<open>writer_run n src dst acc acks w\<close>: a writer started at packet number \<open>n\<close> has accepted the bytes \<open>acc\<close> and the
  acknowledgements \<open>acks\<close>, and is now in state \<open>w\<close>.\<close>

inductive writer_run :: "u64 \<Rightarrow> u32 \<Rightarrow> u32 \<Rightarrow> Bytes \<Rightarrow> AckData list \<Rightarrow> Writer \<Rightarrow> bool" for n src dst where
  start: "writer_run n src dst [] [] (writer_start (writer_new n src dst))"
| bytes: "writer_run n src dst acc acks w \<Longrightarrow> send_bytes d w = (w', r) \<Longrightarrow>
    writer_run n src dst (acc @ (if is_ok r then d else [])) acks w'"
| data: "writer_run n src dst acc acks w \<Longrightarrow> send_data d w = (w', r) \<Longrightarrow>
    writer_run n src dst (acc @ (if is_ok r then d else [])) acks w'"
| async: "writer_run n src dst acc acks w \<Longrightarrow> send_bytes_async d w = (w', r) \<Longrightarrow>
    writer_run n src dst (acc @ (case r of Some (Ok _) \<Rightarrow> d | _ \<Rightarrow> [])) acks w'"
| resume: "writer_run n src dst acc acks w \<Longrightarrow> send_bytes_resume i w = Some (w', r) \<Longrightarrow>
    writer_run n src dst (acc @ (if is_ok r then parked w ! i else [])) acks w'"
| ack: "writer_run n src dst acc acks w \<Longrightarrow> send_ack b k w = (w', r) \<Longrightarrow>
    writer_run n src dst acc (acks @ (if is_ok r then [\<lparr>base_packet_num = b, num_packets_acked = k\<rparr>] else [])) w'"
| receive: "writer_run n src dst acc acks w \<Longrightarrow> pump_receive w = Some w' \<Longrightarrow> writer_run n src dst acc acks w'"
| pack: "writer_run n src dst acc acks w \<Longrightarrow> pump_pack w = Some (Ok w') \<Longrightarrow> writer_run n src dst acc acks w'"
| store: "writer_run n src dst acc acks w \<Longrightarrow> pump_store w = Some w' \<Longrightarrow> writer_run n src dst acc acks w'"
| sender: "writer_run n src dst acc acks w \<Longrightarrow> sender_turn w = Some w' \<Longrightarrow> writer_run n src dst acc acks w'"
| acks: "writer_run n src dst acc acks w \<Longrightarrow> ack_turn oks w = Some (Ok w') \<Longrightarrow> writer_run n src dst acc acks w'"
| closing: "writer_run n src dst acc acks w \<Longrightarrow> writer_run n src dst acc acks (writer_mark_closed w)"
| reserve: "writer_run n src dst acc acks w \<Longrightarrow> closed w \<Longrightarrow> reserve_close_packet_num w = (w', k) \<Longrightarrow>
    writer_run n src dst acc acks w'"
| fin: "writer_run n src dst acc acks w \<Longrightarrow> send_fin io k w = Ok w' \<Longrightarrow> writer_run n src dst acc acks w'"
| fin_ack: "writer_run n src dst acc acks w \<Longrightarrow> send_fin_ack io k w = Ok w' \<Longrightarrow> writer_run n src dst acc acks w'"

definition chan_bytes :: "Writer \<Rightarrow> Bytes" where
  "chan_bytes w = (case data_sender w of Some c \<Rightarrow> concat (chan_queue c) | None \<Rightarrow> [])"

definition data_sent :: "Writer \<Rightarrow> Bytes" where
  "data_sent w = concat (map (\<lambda>s. case s of DataDatagram d \<Rightarrow> d | _ \<Rightarrow> []) (sent w))"

definition ack_sent :: "Writer \<Rightarrow> Bytes" where
  "ack_sent w = concat (map (\<lambda>s. case s of AckDatagram d \<Rightarrow> d | _ \<Rightarrow> []) (sent w))"

text \<open>The datagrams of the data side, one by one, and the packets of a list of datagrams: those of each datagram are
  numbered on from the one before.\<close>

definition data_datagrams :: "Writer \<Rightarrow> Bytes list" where
  "data_datagrams w = concat (map (\<lambda>s. case s of DataDatagram d \<Rightarrow> [d] | _ \<Rightarrow> []) (sent w))"

fun numbered :: "BluefinHeader \<Rightarrow> u64 \<Rightarrow> Bytes list list \<Rightarrow> BluefinPacket list list" where
  "numbered h n [] = []"
| "numbered h n (cs # css) = data_packets h n cs # numbered h (n + of_nat (length cs)) css"

lemma concat_numbered: "concat (numbered h n css) = data_packets h n (concat css)"
  by (induction css arbitrary: n) (simp_all add: data_packets_append)

lemma numbered_append:
  "numbered h n (css @ dss) = numbered h n css @ numbered h (n + of_nat (length (concat css))) dss"
  by (induction css arbitrary: n) (simp_all add: add.assoc)

lemma numbered_member: "g \<in> set (numbered h n css) \<Longrightarrow> \<exists>cs \<in> set css. \<exists>m. g = data_packets h m cs"
  by (induction css arbitrary: n) auto

lemma data_sent_eq: "data_sent w = concat (data_datagrams w)"
proof -
  have "concat (map (\<lambda>s. case s of DataDatagram d \<Rightarrow> d | _ \<Rightarrow> []) xs) =
      concat (concat (map (\<lambda>s. case s of DataDatagram d \<Rightarrow> [d] | _ \<Rightarrow> []) xs))" for xs
    by (induction xs) (simp_all split: SentDatagram.split)
  then show ?thesis by (simp add: data_sent_def data_datagrams_def)
qed

text \<open>The data side: the datagrams on the wire and in the sender's queue are the frames of consecutive packets whose
  payloads, followed by what is still queued, are the accepted bytes; \<open>pending_bytes\<close> counts what is not on
  the wire.\<close>

definition stream_inv :: "u64 \<Rightarrow> u32 \<Rightarrow> u32 \<Rightarrow> Bytes \<Rightarrow> Bytes list list \<Rightarrow> Writer \<Rightarrow> bool" where
  "stream_inv n src dst acc css w \<longleftrightarrow>
     data_datagrams w @ map fst (send_queue w) = map frames (numbered (data_header src dst security_default) n css) \<and>
     pump_packet_num w = n + of_nat (length (concat css)) \<and>
     concat (concat css) @ concat (data_queue w) @ chan_bytes w = acc \<and>
     (\<forall>cs \<in> set css. cs \<noteq> [] \<and> (\<forall>c \<in> set cs. c \<noteq> [] \<and> length c \<le> 1500))"

definition count_inv :: "Writer \<Rightarrow> bool" where
  "count_inv w \<longleftrightarrow>
     pending_bytes w = sum_list (map snd (send_queue w)) + length (concat (data_queue w)) + length (chan_bytes w)
       + length (concat (parked w)) \<and>
     (\<forall>x \<in> set (send_queue w). 0 < snd x)"

definition shape_inv :: "u32 \<Rightarrow> u32 \<Rightarrow> Writer \<Rightarrow> bool" where
  "shape_inv src dst w \<longleftrightarrow> wr_src_conn_id w = src \<and> wr_dst_conn_id w = dst \<and>
     data_sender w \<noteq> None \<and> ack_sender w \<noteq> None \<and>
     (\<not> closed w \<and> pump_phase w = Receiving \<longrightarrow> next_packet_num_shared w = pump_packet_num w)"

definition writer_inv :: "u64 \<Rightarrow> u32 \<Rightarrow> u32 \<Rightarrow> Bytes \<Rightarrow> Writer \<Rightarrow> bool" where
  "writer_inv n src dst acc w \<longleftrightarrow> (\<exists>css. stream_inv n src dst acc css w) \<and> count_inv w \<and> shape_inv src dst w"

lemmas writer_inv_defs = stream_inv_def count_inv_def shape_inv_def chan_bytes_def data_datagrams_def

lemma writer_inv_start: "writer_inv n src dst [] (writer_start (writer_new n src dst))"
  unfolding writer_inv_def
  by (intro conjI exI [of _ "[]"]) (simp_all add: writer_inv_defs writer_start_def writer_new_def)

lemma send_data_eq: "send_data = send_bytes"
  by (intro ext) (simp add: send_data_def send_bytes_def)

lemma send_bytes_cases:
  assumes "send_bytes d w = (w', r)"
  shows "(w' = w \<and> \<not> is_ok r) \<or>
    (\<exists>c. data_sender w = Some c \<and> \<not> closed w \<and> chan_has_room c \<and> r = Ok (length d) \<and>
       w' = w\<lparr>pending_bytes := pending_bytes w + length d, data_sender := Some (c\<lparr>chan_queue := chan_queue c @ [d]\<rparr>)\<rparr>)"
  using assms
  by (auto simp: send_bytes_def Let_def chan_try_send_def split: if_splits option.splits)

lemma writer_inv_enqueue:
  assumes "writer_inv n src dst acc w" and "data_sender w = Some c"
  shows "writer_inv n src dst (acc @ d)
    (w\<lparr>pending_bytes := pending_bytes w + length d, data_sender := Some (c\<lparr>chan_queue := chan_queue c @ [d]\<rparr>)\<rparr>)"
proof -
  obtain cs where inv: "stream_inv n src dst acc cs w" "count_inv w" "shape_inv src dst w"
    using assms(1) by (auto simp: writer_inv_def)
  let ?w = "w\<lparr>pending_bytes := pending_bytes w + length d, data_sender := Some (c\<lparr>chan_queue := chan_queue c @ [d]\<rparr>)\<rparr>"
  have "stream_inv n src dst (acc @ d) cs ?w" using inv(1) assms(2) by (auto simp: stream_inv_def chan_bytes_def data_datagrams_def)
  moreover have "count_inv ?w" using inv(2) assms(2) by (simp add: count_inv_def chan_bytes_def)
  moreover have "shape_inv src dst ?w" using inv(3) by (simp add: shape_inv_def)
  ultimately show ?thesis unfolding writer_inv_def by blast
qed

lemma send_bytes_inv:
  assumes "writer_inv n src dst acc w" and "send_bytes d w = (w', r)"
  shows "writer_inv n src dst (acc @ (if is_ok r then d else [])) w'"
  using send_bytes_cases [OF assms(2)] writer_inv_enqueue [OF assms(1)] assms(1) by auto

lemma send_async_inv:
  assumes "writer_inv n src dst acc w" and "send_bytes_async d w = (w', r)"
  shows "writer_inv n src dst (acc @ (case r of Some (Ok _) \<Rightarrow> d | _ \<Rightarrow> [])) w'"
proof -
  obtain cs where inv: "stream_inv n src dst acc cs w" "count_inv w" "shape_inv src dst w"
    using assms(1) by (auto simp: writer_inv_def)
  have "stream_inv n src dst (acc @ (case r of Some (Ok _) \<Rightarrow> d | _ \<Rightarrow> [])) cs w' \<and> count_inv w' \<and> shape_inv src dst w'"
    using inv assms(2)
    by (auto simp: writer_inv_defs send_bytes_async_def Let_def split: if_splits option.splits)
  then show ?thesis by (auto simp: writer_inv_def)
qed

lemma length_concat_remove:
  "i < length xs \<Longrightarrow> length (concat xs) = length (xs ! i) + length (concat (take i xs @ drop (Suc i) xs))"
  by (subst id_take_nth_drop [of i xs]) auto

lemma send_resume_inv:
  assumes "writer_inv n src dst acc w" and "send_bytes_resume i w = Some (w', r)"
  shows "writer_inv n src dst (acc @ (if is_ok r then parked w ! i else [])) w'"
proof -
  obtain cs where inv: "stream_inv n src dst acc cs w" "count_inv w" "shape_inv src dst w"
    using assms(1) by (auto simp: writer_inv_def)
  have i: "i < length (parked w)" using assms(2) by (auto simp: send_bytes_resume_def split: if_splits option.splits)
  obtain c where c: "data_sender w = Some c" using inv(3) by (auto simp: shape_inv_def)
  let ?w = "w\<lparr>parked := take i (parked w) @ drop (Suc i) (parked w), pending_bytes := pending_bytes w - length (parked w ! i)\<rparr>"
  have "count_inv ?w" using inv(2) length_concat_remove [OF i] by (simp add: count_inv_def chan_bytes_def)
  moreover have "stream_inv n src dst acc cs ?w" using inv(1) by (simp add: stream_inv_def chan_bytes_def data_datagrams_def)
  moreover have "shape_inv src dst ?w" using inv(3) by (simp add: shape_inv_def)
  ultimately have w: "writer_inv n src dst acc ?w" unfolding writer_inv_def by blast
  have "length (parked w ! i) \<le> pending_bytes w"
    using inv(2) length_concat_remove [OF i] by (simp add: count_inv_def)
  with writer_inv_enqueue [OF w, of c "parked w ! i"] c w i assms(2) show ?thesis
    by (auto simp: send_bytes_resume_def Let_def split: if_splits)
qed

lemma pump_receive_inv:
  assumes "writer_inv n src dst acc w" and "pump_receive w = Some w'"
  shows "writer_inv n src dst acc w'"
proof -
  obtain cs where inv: "stream_inv n src dst acc cs w" "count_inv w" "shape_inv src dst w"
    using assms(1) by (auto simp: writer_inv_def)
  have c: "concat (take 20 q) @ concat (drop 20 q) = concat q" for q :: "Bytes list"
    by (metis append_take_drop_id concat_append)
  from arg_cong [OF this, of length] have l: "length (concat (take 20 q)) + length (concat (drop 20 q)) = length (concat q)"
    for q :: "Bytes list" by simp
  have "stream_inv n src dst acc cs w' \<and> count_inv w' \<and> shape_inv src dst w'"
    using inv assms(2) c l
    by (auto simp: writer_inv_defs pump_receive_def split: if_splits option.splits PumpPhase.splits)
  then show ?thesis by (auto simp: writer_inv_def)
qed

lemma pump_pack_inv:
  assumes "writer_inv n src dst acc w" and "pump_pack w = Some (Ok w')"
  shows "writer_inv n src dst acc w'"
proof -
  obtain cs where inv: "stream_inv n src dst acc cs w" "count_inv w" "shape_inv src dst w"
    using assms(1) by (auto simp: writer_inv_def)
  let ?S = "concat (data_queue w)"
  obtain i where ph: "pump_phase w = Packing i" using assms(2) by (auto simp: pump_pack_def split: PumpPhase.splits)
  show ?thesis
  proof (cases "i < 12")
    case False
    then have "w' = w\<lparr>pump_phase := Storing\<rparr>" using assms(2) ph by (simp add: pump_pack_def)
    with inv show ?thesis by (auto simp: writer_inv_def writer_inv_defs)
  next
    case True
    obtain q where c: "consume_data_into (data_queue w) (pump_packet_num w) src dst [] =
        Ok (min 15000 (length ?S), q, pump_packet_num w + of_nat (length (taken 10 ?S)),
            frames (data_packets (data_header src dst security_default) (pump_packet_num w) (taken 10 ?S)))"
      "concat q = drop 15000 ?S"
      using consume_data_into_spec [of "data_queue w" "pump_packet_num w" src dst "[]"] by auto
    have ids: "wr_src_conn_id w = src" "wr_dst_conn_id w = dst" using inv(3) by (simp_all add: shape_inv_def)
    have t: "concat (taken 10 ?S) @ concat q = ?S" by (simp add: concat_taken c(2))
    show ?thesis
    proof (cases "?S = []")
      case empty: True
      then have "w' = w\<lparr>data_queue := q, pump_packet_num := pump_packet_num w, pump_phase := Storing\<rparr>"
        using assms(2) ph True c(1) ids by (simp add: pump_pack_def Let_def del: concat_eq_Nil_conv)
      with inv c(2) empty show ?thesis
        by (auto simp: writer_inv_def writer_inv_defs simp del: concat_eq_Nil_conv)
    next
      case False
      define w1 where "w1 = w\<lparr>data_queue := q, pump_packet_num := pump_packet_num w + of_nat (length (taken 10 ?S)),
        diag_tx := diag_try_send (diag_tx w) (DataSent (pump_packet_num w) (of_nat (length (taken 10 ?S))) (min 15000 (length ?S))),
        send_queue := send_queue w @ [(frames (data_packets (data_header src dst security_default) (pump_packet_num w) (taken 10 ?S)),
          min 15000 (length ?S))], pump_phase := Packing (i + 1)\<rparr>"
      have w': "w' = w1"
        using assms(2) ph True c(1) ids False
        by (auto simp: pump_pack_def Let_def w1_def simp del: concat_eq_Nil_conv)
      have "stream_inv n src dst acc (cs @ [taken 10 ?S]) w1"
        using inv(1) t [symmetric] False
        by (auto simp: stream_inv_def w1_def numbered_append data_datagrams_def chan_bytes_def dest: taken_member
            simp del: concat_eq_Nil_conv)
      moreover have "count_inv w1"
        using inv(2) False c(2) by (auto simp: count_inv_def w1_def chan_bytes_def)
      moreover have "shape_inv src dst w1" using inv(3) by (simp add: shape_inv_def w1_def)
      ultimately show ?thesis
        unfolding w' writer_inv_def by (intro conjI exI [of _ "cs @ [taken 10 ?S]"]) (simp_all add: writer_inv_defs)
    qed
  qed
qed

lemma pump_store_inv:
  assumes "writer_inv n src dst acc w" and "pump_store w = Some w'"
  shows "writer_inv n src dst acc w'"
proof -
  have "w' = w\<lparr>next_packet_num_shared := pump_packet_num w, pump_phase := Receiving\<rparr>"
    using assms(2) by (simp add: pump_store_def split: PumpPhase.splits)
  with assms(1) show ?thesis by (simp add: writer_inv_def writer_inv_defs)
qed

lemma sender_turn_inv:
  assumes "writer_inv n src dst acc w" and "sender_turn w = Some w'"
  shows "writer_inv n src dst acc w'"
proof -
  obtain cs where inv: "stream_inv n src dst acc cs w" "count_inv w" "shape_inv src dst w"
    using assms(1) by (auto simp: writer_inv_def)
  obtain d k q where q: "send_queue w = (d, k) # q" using assms(2) by (auto simp: sender_turn_def split: list.splits)
  have k: "0 < k" using inv(2) q by (simp add: count_inv_def)
  define w1 where "w1 = w\<lparr>send_queue := q, sent := sent w @ [DataDatagram d], pending_bytes := pending_bytes w - k\<rparr>"
  have "w' = w1 \<or> w' = w1\<lparr>flush_notify := flush_notify w1 + 1\<rparr>"
    using assms(2) q k by (auto simp: sender_turn_def w1_def Let_def)
  moreover have "stream_inv n src dst acc cs w1"
    using inv(1) q by (simp add: stream_inv_def w1_def data_datagrams_def chan_bytes_def)
  moreover have "count_inv w1" using inv(2) q by (simp add: count_inv_def w1_def chan_bytes_def)
  moreover have "shape_inv src dst w1" using inv(3) by (simp add: shape_inv_def w1_def)
  ultimately show ?thesis unfolding writer_inv_def by (auto simp: writer_inv_defs)
qed

text \<open>The remaining steps do not touch the data side.\<close>

definition same_data :: "Writer \<Rightarrow> Writer \<Rightarrow> bool" where
  "same_data w w' \<longleftrightarrow> data_datagrams w' = data_datagrams w \<and> send_queue w' = send_queue w \<and>
     pump_packet_num w' = pump_packet_num w \<and> data_queue w' = data_queue w \<and> data_sender w' = data_sender w \<and>
     pending_bytes w' = pending_bytes w \<and> parked w' = parked w \<and> wr_src_conn_id w' = wr_src_conn_id w \<and>
     wr_dst_conn_id w' = wr_dst_conn_id w \<and> pump_phase w' = pump_phase w \<and> closed w' = closed w \<and>
     next_packet_num_shared w' = next_packet_num_shared w \<and> (ack_sender w' = None \<longleftrightarrow> ack_sender w = None)"

lemma same_data_inv: "writer_inv n src dst acc w \<Longrightarrow> same_data w w' \<Longrightarrow> writer_inv n src dst acc w'"
  by (simp add: writer_inv_def stream_inv_def count_inv_def shape_inv_def chan_bytes_def same_data_def)

lemma same_data_trans: "same_data a b \<Longrightarrow> same_data b c \<Longrightarrow> same_data a c"
  by (simp add: same_data_def)

lemma same_data_refl [simp]: "same_data w w"
  by (simp add: same_data_def)

lemma ack_batch_same: "ack_batch k oks w = Ok w' \<Longrightarrow> same_data w w'"
proof (induction k arbitrary: oks w)
  case (Suc k)
  obtain some q d where c: "consume_acks_into (ack_queue w) (wr_src_conn_id w) (wr_dst_conn_id w) [] = Ok (some, q, d)"
    using Suc.prems by (auto simp: bind_res_Ok_iff)
  show ?case
  proof (cases "some \<and> (\<exists>oks'. oks = True # oks')")
    case True
    then obtain oks' where "ack_batch k oks' (w\<lparr>ack_queue := q, sent := sent w @ [AckDatagram d]\<rparr>) = Ok w'"
      using Suc.prems c by auto
    from Suc.IH [OF this] show ?thesis
      by (rule same_data_trans [rotated]) (simp add: same_data_def data_datagrams_def)
  next
    case False
    have "w' = w\<lparr>ack_queue := q\<rparr> \<or> w' = w\<lparr>ack_queue := q, pending_send := Some d\<rparr>"
    proof (cases oks)
      case Nil
      with Suc.prems c show ?thesis by (cases some) simp_all
    next
      case (Cons ok oks')
      show ?thesis
      proof (cases "some \<and> \<not> ok")
        case True
        with Suc.prems c Cons show ?thesis by simp
      next
        case no: False
        with False Cons have "\<not> some" by auto
        with Suc.prems c show ?thesis by simp
      qed
    qed
    then show ?thesis by (auto simp: same_data_def data_datagrams_def)
  qed
qed simp

lemma ack_turn_cases:
  assumes "ack_turn oks w = Some (Ok w')"
  obtains (retry) d where "pending_send w = Some d" "w' = w\<lparr>pending_send := None, sent := sent w @ [AckDatagram d]\<rparr>"
  | (again) d where "pending_send w = Some d" "w' = w"
  | (batch) c where "pending_send w = None" "ack_sender w = Some c"
      "ack_batch 12 oks (w\<lparr>ack_queue := ack_queue w @ take 20 (chan_queue c),
         ack_sender := Some (c\<lparr>chan_queue := drop 20 (chan_queue c)\<rparr>)\<rparr>) = Ok w'"
proof (cases "pending_send w")
  case None
  with assms obtain c where c: "ack_sender w = Some c" by (cases "ack_sender w") (simp_all add: ack_turn_def)
  with None assms have "ack_batch 12 oks (w\<lparr>ack_queue := ack_queue w @ take 20 (chan_queue c),
      ack_sender := Some (c\<lparr>chan_queue := drop 20 (chan_queue c)\<rparr>)\<rparr>) = Ok w'"
    by (simp add: ack_turn_def split: if_splits)
  with None c show ?thesis by (rule batch)
next
  case (Some d)
  show ?thesis
  proof (cases "\<exists>oks'. oks = True # oks'")
    case True
    then show ?thesis using assms Some retry by (auto simp: ack_turn_def)
  next
    case False
    then have "w' = w" using assms Some by (cases oks) (auto simp: ack_turn_def split: bool.splits)
    then show ?thesis using Some again by blast
  qed
qed

lemma ack_turn_same: "ack_turn oks w = Some (Ok w') \<Longrightarrow> same_data w w'"
proof (erule ack_turn_cases)
  fix c assume c: "ack_sender w = Some c" and b: "ack_batch 12 oks (w\<lparr>ack_queue := ack_queue w @ take 20 (chan_queue c),
      ack_sender := Some (c\<lparr>chan_queue := drop 20 (chan_queue c)\<rparr>)\<rparr>) = Ok w'"
  have "same_data w (w\<lparr>ack_queue := ack_queue w @ take 20 (chan_queue c),
      ack_sender := Some (c\<lparr>chan_queue := drop 20 (chan_queue c)\<rparr>)\<rparr>)" using c by (simp add: same_data_def data_datagrams_def)
  with ack_batch_same [OF b] show "same_data w w'" by (blast intro: same_data_trans)
qed (simp_all add: same_data_def data_datagrams_def)

lemma send_control_packet_eq:
  "send_control_packet io t k w = (case io of
      None \<Rightarrow> Ok (w\<lparr>sent := sent w @ [ControlDatagram (header_serialise
        (with_packet_number k (header_new (wr_src_conn_id w) (wr_dst_conn_id w) t 0 security_default)))]\<rparr>)
    | Some e \<Rightarrow> Err (StdIoError e))"
  by (simp add: send_control_packet_def header_serialise_into_eq split: option.split)

lemma writer_run_inv: "writer_run n src dst acc acks w \<Longrightarrow> writer_inv n src dst acc w"
proof (induction rule: writer_run.induct)
  case start
  then show ?case by (rule writer_inv_start)
next
  case bytes
  then show ?case by (blast intro: send_bytes_inv)
next
  case data
  then show ?case unfolding send_data_eq by (blast intro: send_bytes_inv)
next
  case async
  then show ?case by (blast intro: send_async_inv)
next
  case resume
  then show ?case by (blast intro: send_resume_inv)
next
  case ack
  then show ?case
    by (auto simp: send_ack_def Let_def same_data_def data_datagrams_def split: option.splits if_splits
        intro: same_data_inv)
next
  case receive
  then show ?case by (blast intro: pump_receive_inv)
next
  case pack
  then show ?case by (blast intro: pump_pack_inv)
next
  case store
  then show ?case by (blast intro: pump_store_inv)
next
  case sender
  then show ?case by (blast intro: sender_turn_inv)
next
  case acks
  then show ?case by (blast intro: same_data_inv ack_turn_same)
next
  case closing
  then show ?case by (simp add: writer_inv_def writer_inv_defs writer_mark_closed_def)
next
  case (reserve acc acks w w' k)
  then show ?case by (auto simp: writer_inv_def writer_inv_defs reserve_close_packet_num_def)
next
  case (fin acc acks w k w')
  then show ?case
    by (auto simp: send_fin_def send_control_packet_eq same_data_def data_datagrams_def split: option.splits intro: same_data_inv)
next
  case (fin_ack acc acks w k w')
  then show ?case
    by (auto simp: send_fin_ack_def send_control_packet_eq same_data_def data_datagrams_def split: option.splits intro: same_data_inv)
qed

section \<open>No acknowledgement is lost\<close>

definition ack_base :: "Writer \<Rightarrow> BluefinHeader" where
  "ack_base w = header_new (wr_src_conn_id w) (wr_dst_conn_id w) Ack 0 security_default"

definition acks_waiting :: "Writer \<Rightarrow> AckData list" where
  "acks_waiting w = ack_queue w @ (case ack_sender w of Some c \<Rightarrow> chan_queue c | None \<Rightarrow> [])"

definition ack_out :: "Writer \<Rightarrow> Bytes" where
  "ack_out w = ack_sent w @ (case pending_send w of Some d \<Rightarrow> d | None \<Rightarrow> [])"

definition ack_inv :: "AckData list \<Rightarrow> Writer \<Rightarrow> bool" where
  "ack_inv acks w \<longleftrightarrow> ack_out w @ frames (map (ack_packet (ack_base w)) (acks_waiting w)) =
     frames (map (ack_packet (ack_base w)) acks)"

definition same_acks :: "Writer \<Rightarrow> Writer \<Rightarrow> bool" where
  "same_acks w w' \<longleftrightarrow> ack_sent w' = ack_sent w \<and> pending_send w' = pending_send w \<and> ack_queue w' = ack_queue w \<and>
     ack_sender w' = ack_sender w \<and> wr_src_conn_id w' = wr_src_conn_id w \<and> wr_dst_conn_id w' = wr_dst_conn_id w"

lemma same_acks_inv: "ack_inv acks w \<Longrightarrow> same_acks w w' \<Longrightarrow> ack_inv acks w'"
  by (simp add: ack_inv_def same_acks_def ack_out_def acks_waiting_def ack_base_def)

lemma consume_acks_into_eq:
  "consume_acks_into q src dst [] =
     Ok (q \<noteq> [], drop 760 q, frames (map (ack_packet (header_new src dst Ack 0 security_default)) (take 760 q)))"
  by (cases q) (simp_all add: consume_acks_into_def consume_acks_into_loop_spec del: consume_acks_into_loop.simps)

lemma ack_batch_inv:
  "ack_batch k oks w = Ok w' \<Longrightarrow> pending_send w = None \<Longrightarrow> ack_inv acks w \<Longrightarrow> ack_inv acks w'"
proof (induction k arbitrary: oks w)
  case (Suc k)
  let ?q = "ack_queue w"
  define d where "d = frames (map (ack_packet (ack_base w)) (take 760 ?q))"
  have split: "frames (map (ack_packet (ack_base w)) ?q) = d @ frames (map (ack_packet (ack_base w)) (drop 760 ?q))"
    unfolding d_def by (metis append_take_drop_id frames_simps(3) map_append)
  have step: "ack_batch (Suc k) oks w = (if ?q \<noteq> [] then
       (case oks of
          True # oks' \<Rightarrow> ack_batch k oks' (w\<lparr>ack_queue := drop 760 ?q, sent := sent w @ [AckDatagram d]\<rparr>)
        | _ \<Rightarrow> Ok (w\<lparr>ack_queue := drop 760 ?q, pending_send := Some d\<rparr>))
     else Ok (w\<lparr>ack_queue := drop 760 ?q\<rparr>))"
    by (simp add: consume_acks_into_eq d_def ack_base_def Let_def split: list.split bool.split)
  have send: "ack_inv acks (w\<lparr>ack_queue := drop 760 ?q, sent := sent w @ [AckDatagram d]\<rparr>)"
    and hold: "ack_inv acks (w\<lparr>ack_queue := drop 760 ?q, pending_send := Some d\<rparr>)"
    using Suc.prems(2,3) split
    by (simp_all add: ack_inv_def ack_out_def ack_sent_def acks_waiting_def ack_base_def)
  show ?case
  proof (cases "?q = []")
    case True
    then have "same_acks w w'" using Suc.prems(1) unfolding step by (auto simp: same_acks_def ack_sent_def)
    with Suc.prems(3) show ?thesis by (rule same_acks_inv)
  next
    case False
    show ?thesis
    proof (cases "\<exists>oks'. oks = True # oks'")
      case True
      then obtain oks' where "ack_batch k oks' (w\<lparr>ack_queue := drop 760 ?q, sent := sent w @ [AckDatagram d]\<rparr>) = Ok w'"
        using Suc.prems(1) False unfolding step by auto
      from Suc.IH [OF this _ send] Suc.prems(2) show ?thesis by simp
    next
      case no: False
      have "w' = w\<lparr>ack_queue := drop 760 ?q, pending_send := Some d\<rparr>"
      proof (cases oks)
        case Nil
        with Suc.prems(1) False show ?thesis unfolding step by simp
      next
        case (Cons ok oks')
        with no have "\<not> ok" by auto
        with Suc.prems(1) False Cons show ?thesis unfolding step by simp
      qed
      with hold show ?thesis by simp
    qed
  qed
qed simp

lemma ack_turn_inv:
  assumes "ack_turn oks w = Some (Ok w')" and "ack_inv acks w"
  shows "ack_inv acks w'"
  using assms(1)
proof (cases rule: ack_turn_cases)
  case (retry d)
  with assms(2) show ?thesis by (simp add: ack_inv_def ack_out_def ack_sent_def acks_waiting_def ack_base_def)
next
  case again
  with assms(2) show ?thesis by simp
next
  case (batch c)
  let ?w = "w\<lparr>ack_queue := ack_queue w @ take 20 (chan_queue c), ack_sender := Some (c\<lparr>chan_queue := drop 20 (chan_queue c)\<rparr>)\<rparr>"
  have "ack_inv acks ?w"
    using assms(2) batch(2) by (simp add: ack_inv_def ack_out_def ack_sent_def acks_waiting_def ack_base_def flip: map_append frames_simps(3))
  from ack_batch_inv [OF batch(3) _ this] batch(1) show ?thesis by simp
qed

lemma send_ack_inv:
  assumes "ack_inv acks w" and "send_ack b k w = (w', r)"
  shows "ack_inv (acks @ (if is_ok r then [\<lparr>base_packet_num = b, num_packets_acked = k\<rparr>] else [])) w'"
proof (cases "ack_sender w")
  case None
  with assms show ?thesis by (auto simp: send_ack_def)
next
  case (Some c)
  show ?thesis
  proof (cases "chan_open c")
    case True
    with Some assms(2) have "w' = w\<lparr>ack_sender := Some (c\<lparr>chan_queue := chan_queue c @ [\<lparr>base_packet_num = b, num_packets_acked = k\<rparr>]\<rparr>)\<rparr>"
      "is_ok r" by (auto simp: send_ack_def)
    moreover from assms(1) Some have "ack_out w @ frames (map (ack_packet (ack_base w)) (ack_queue w @ chan_queue c))
        = frames (map (ack_packet (ack_base w)) acks)" by (simp add: ack_inv_def acks_waiting_def)
    ultimately show ?thesis
      by (simp add: ack_inv_def ack_out_def ack_sent_def acks_waiting_def ack_base_def del: frames_simps(2))
  next
    case False
    with Some assms show ?thesis by (auto simp: send_ack_def)
  qed
qed

lemma send_bytes_same_acks: "send_bytes d w = (w', r) \<Longrightarrow> same_acks w w'"
  using send_bytes_cases [of d w w' r] by (auto simp: same_acks_def ack_sent_def)

lemma send_async_same_acks: "send_bytes_async d w = (w', r) \<Longrightarrow> same_acks w w'"
  by (auto simp: send_bytes_async_def Let_def same_acks_def ack_sent_def split: if_splits option.splits)

lemma send_resume_same_acks: "send_bytes_resume i w = Some (w', r) \<Longrightarrow> same_acks w w'"
  by (auto simp: send_bytes_resume_def Let_def same_acks_def ack_sent_def split: if_splits option.splits)

lemma pump_same_acks:
  "pump_receive w = Some w' \<Longrightarrow> same_acks w w'" "pump_store w = Some w' \<Longrightarrow> same_acks w w'"
  "sender_turn w = Some w' \<Longrightarrow> same_acks w w'"
  by (auto simp: pump_receive_def pump_store_def sender_turn_def Let_def same_acks_def ack_sent_def
      split: if_splits option.splits PumpPhase.splits list.splits)

lemma pump_pack_same_acks: "pump_pack w = Some (Ok w') \<Longrightarrow> same_acks w w'"
  by (auto simp: pump_pack_def Let_def bind_res_Ok_iff same_acks_def ack_sent_def
      split: if_splits PumpPhase.splits)

lemma writer_run_ack_inv: "writer_run n src dst acc acks w \<Longrightarrow> ack_inv acks w"
proof (induction rule: writer_run.induct)
  case start
  then show ?case by (simp add: ack_inv_def ack_out_def ack_sent_def acks_waiting_def writer_start_def writer_new_def)
next
  case bytes
  then show ?case by (blast intro: same_acks_inv send_bytes_same_acks)
next
  case data
  then show ?case unfolding send_data_eq by (blast intro: same_acks_inv send_bytes_same_acks)
next
  case async
  then show ?case by (blast intro: same_acks_inv send_async_same_acks)
next
  case resume
  then show ?case by (blast intro: same_acks_inv send_resume_same_acks)
next
  case ack
  then show ?case by (blast intro: send_ack_inv)
next
  case receive
  then show ?case by (blast intro: same_acks_inv pump_same_acks)
next
  case pack
  then show ?case by (blast intro: same_acks_inv pump_pack_same_acks)
next
  case store
  then show ?case by (blast intro: same_acks_inv pump_same_acks)
next
  case sender
  then show ?case by (blast intro: same_acks_inv pump_same_acks)
next
  case acks
  then show ?case by (blast intro: ack_turn_inv)
next
  case (closing acc acks w)
  then show ?case by (auto simp: same_acks_def ack_sent_def writer_mark_closed_def intro: same_acks_inv)
next
  case (reserve acc acks w w' k)
  then show ?case by (auto simp: same_acks_def ack_sent_def reserve_close_packet_num_def intro: same_acks_inv)
next
  case (fin acc acks w k w')
  then show ?case by (auto simp: send_fin_def send_control_packet_eq same_acks_def ack_sent_def split: option.splits intro: same_acks_inv)
next
  case (fin_ack acc acks w k w')
  then show ?case by (auto simp: send_fin_ack_def send_control_packet_eq same_acks_def ack_sent_def split: option.splits intro: same_acks_inv)
qed

lemma frames_concat: "frames (concat gs) = concat (map frames gs)"
  by (induction gs) simp_all

lemma stream_inv_frames:
  assumes "stream_inv n src dst acc css w"
  shows "data_sent w @ concat (map fst (send_queue w)) = frames (data_packets (data_header src dst security_default) n (concat css))"
proof -
  have "data_sent w @ concat (map fst (send_queue w)) = concat (data_datagrams w @ map fst (send_queue w))"
    by (simp add: data_sent_eq)
  also have "\<dots> = concat (map frames (numbered (data_header src dst security_default) n css))"
    using assms by (simp add: stream_inv_def)
  finally show ?thesis by (simp add: concat_numbered flip: frames_concat)
qed

lemma flush_ready_idle: "count_inv w \<Longrightarrow> flush_ready w \<Longrightarrow> send_queue w = [] \<and> concat (data_queue w) = [] \<and> chan_bytes w = []"
  by (cases "send_queue w") (auto simp: count_inv_def flush_ready_def simp del: concat_eq_Nil_conv)

section \<open>Every datagram on the wire parses\<close>

text \<open>Acknowledgement datagrams hold acknowledgements only, control datagrams one FIN or FIN-ACK.\<close>

definition holds_only :: "PacketType set \<Rightarrow> Bytes \<Rightarrow> bool" where
  "holds_only T d \<longleftrightarrow> (\<exists>ps. from_bytes d = Ok ps \<and> (\<forall>p \<in> set ps. type_field (header p) \<in> T))"

definition signal_ok :: "SentDatagram \<Rightarrow> bool" where
  "signal_ok x = (case x of DataDatagram d \<Rightarrow> True | AckDatagram d \<Rightarrow> holds_only {Ack} d | ControlDatagram d \<Rightarrow> holds_only {Fin, FinAck} d)"

definition signal_inv :: "Writer \<Rightarrow> bool" where
  "signal_inv w \<longleftrightarrow> list_all signal_ok (sent w) \<and> (case pending_send w of Some d \<Rightarrow> holds_only {Ack} d | None \<Rightarrow> True)"

lemma holds_only_frames:
  assumes "ps \<noteq> []" and "\<And>p. p \<in> set ps \<Longrightarrow> wire_packet p \<and> header_only (type_field (header p)) \<and> type_field (header p) \<in> T"
  shows "holds_only T (frames ps)"
proof -
  have "header_only (type_field (header (last ps)))" using assms by simp
  with assms have "from_bytes (frames ps) = Ok ps" by (simp add: from_bytes_iff list_all_iff empty_data_def)
  with assms(2) show ?thesis unfolding holds_only_def by blast
qed

lemma ack_datagram_ok: "q \<noteq> [] \<Longrightarrow> holds_only {Ack} (frames (map (ack_packet (header_new src dst Ack 0 security_default)) q))"
  by (rule holds_only_frames) (auto simp: ack_packet_def ack_header_def header_new_def wire_packet_def packet_valid_def
      header_valid_def security_valid_def security_default_def header_only_def)

lemma control_datagram_ok:
  assumes "t = Fin \<or> t = FinAck"
  shows "holds_only {Fin, FinAck} (header_serialise (with_packet_number k (header_new src dst t 0 security_default)))"
proof -
  let ?p = "\<lparr>header = with_packet_number k (header_new src dst t 0 security_default), payload = []\<rparr>"
  have "holds_only {Fin, FinAck} (frames [?p])"
    by (rule holds_only_frames) (use assms in \<open>auto simp: with_packet_number_def header_new_def wire_packet_def packet_valid_def
      header_valid_def security_valid_def security_default_def header_only_def\<close>)
  then show ?thesis by (simp add: frames_def packet_serialise_def)
qed

lemma ack_batch_signal:
  "ack_batch k oks w = Ok w' \<Longrightarrow> pending_send w = None \<Longrightarrow> signal_inv w \<Longrightarrow> signal_inv w'"
proof (induction k arbitrary: oks w)
  case (Suc k)
  let ?q = "ack_queue w" and ?d = "frames (map (ack_packet (header_new (wr_src_conn_id w) (wr_dst_conn_id w) Ack 0 security_default)) (take 760 (ack_queue w)))"
  show ?case
  proof (cases "?q = []")
    case True
    with Suc.prems show ?thesis by (auto simp: consume_acks_into_eq signal_inv_def)
  next
    case False
    then have d: "holds_only {Ack} ?d" by (intro ack_datagram_ok) simp
    show ?thesis
    proof (cases "\<exists>oks'. oks = True # oks'")
      case True
      then obtain oks' where b: "ack_batch k oks' (w\<lparr>ack_queue := drop 760 ?q, sent := sent w @ [AckDatagram ?d]\<rparr>) = Ok w'"
        using Suc.prems(1) False by (auto simp: consume_acks_into_eq)
      from Suc.IH [OF b] Suc.prems(2,3) d show ?thesis by (simp add: signal_inv_def signal_ok_def)
    next
      case no: False
      then have "w' = w\<lparr>ack_queue := drop 760 ?q, pending_send := Some ?d\<rparr>"
        using Suc.prems(1) False by (auto simp: consume_acks_into_eq Let_def split: list.splits bool.splits)
      with Suc.prems(3) d show ?thesis by (simp add: signal_inv_def)
    qed
  qed
qed simp

lemma ack_turn_signal:
  assumes "ack_turn oks w = Some (Ok w')" and "signal_inv w"
  shows "signal_inv w'"
  using assms(1)
proof (cases rule: ack_turn_cases)
  case (retry d)
  with assms(2) show ?thesis by (simp add: signal_inv_def signal_ok_def)
next
  case again
  with assms(2) show ?thesis by simp
next
  case (batch c)
  from ack_batch_signal [OF batch(3)] batch(1) assms(2) show ?thesis by (simp add: signal_inv_def)
qed

lemma pump_pack_signal:
  assumes "pump_pack w = Some (Ok w')"
  shows "sent w' = sent w \<and> pending_send w' = pending_send w"
  using assms by (auto simp: pump_pack_def Let_def bind_res_Ok_iff split: PumpPhase.splits if_splits prod.splits)

lemma writer_run_signal: "writer_run n src dst acc acks w \<Longrightarrow> signal_inv w"
proof (induction rule: writer_run.induct)
  case start
  then show ?case by (simp add: signal_inv_def writer_start_def writer_new_def)
next
  case (bytes acc acks w d w' r)
  then show ?case using send_bytes_cases [OF bytes.hyps(2)] by (auto simp: signal_inv_def)
next
  case (data acc acks w d w' r)
  then show ?case using send_bytes_cases [of d w w' r] by (auto simp: signal_inv_def send_data_eq)
next
  case async
  then show ?case by (auto simp: signal_inv_def send_bytes_async_def Let_def split: if_splits option.splits)
next
  case resume
  then show ?case by (auto simp: signal_inv_def send_bytes_resume_def Let_def split: if_splits option.splits)
next
  case ack
  then show ?case by (auto simp: signal_inv_def send_ack_def Let_def split: if_splits option.splits)
next
  case receive
  then show ?case by (auto simp: signal_inv_def pump_receive_def Let_def split: if_splits option.splits PumpPhase.splits)
next
  case (pack acc acks w w')
  then show ?case using pump_pack_signal [OF pack.hyps(2)] by (simp add: signal_inv_def)
next
  case store
  then show ?case by (auto simp: signal_inv_def pump_store_def split: PumpPhase.splits)
next
  case sender
  then show ?case by (auto simp: signal_inv_def signal_ok_def sender_turn_def Let_def split: list.splits if_splits)
next
  case acks
  then show ?case by (blast intro: ack_turn_signal)
next
  case closing
  then show ?case by (simp add: signal_inv_def writer_mark_closed_def)
next
  case reserve
  then show ?case by (auto simp: signal_inv_def reserve_close_packet_num_def)
next
  case fin
  then show ?case using control_datagram_ok
    by (auto simp: signal_inv_def signal_ok_def send_fin_def send_control_packet_eq split: option.splits)
next
  case fin_ack
  then show ?case using control_datagram_ok
    by (auto simp: signal_inv_def signal_ok_def send_fin_ack_def send_control_packet_eq split: option.splits)
qed

text \<open>When \<open>flush\<close> is ready to return, the data datagrams on the wire are the whole stream.\<close>

lemma writer_run_flushed:
  assumes "writer_run n src dst acc acks w" and "flush_ready w"
  obtains css where "data_datagrams w = map frames (numbered (data_header src dst security_default) n css)"
    "concat (concat css) = acc" "pump_packet_num w = n + of_nat (length (concat css))"
    "\<And>cs c. cs \<in> set css \<Longrightarrow> cs \<noteq> [] \<and> (c \<in> set cs \<longrightarrow> c \<noteq> [] \<and> length c \<le> 1500)"
proof -
  obtain css where s: "stream_inv n src dst acc css w" and c: "count_inv w"
    using writer_run_inv [OF assms(1)] by (auto simp: writer_inv_def)
  show ?thesis
    by (rule that [of css])
      (use s flush_ready_idle [OF c assms(2)] in \<open>auto simp: stream_inv_def simp del: concat_eq_Nil_conv\<close>)
qed

section \<open>Properties\<close>

text \<open>C3. Sender integrity: in every interleaving of senders, packetiser, sender task and closing, the data
  datagrams handed to the socket followed by those queued for it are the frames of data packets with
  consecutive packet numbers from the initial one on, non-empty and of at most 1500 bytes, whose payloads
  followed by the bytes still queued are exactly the accepted bytes, in order. When \<open>flush\<close> is ready to
  return, every accepted byte is on the wire.\<close>

theorem writer_integrity:
  assumes "writer_run n src dst acc acks w"
  shows "\<exists>cs. data_sent w @ concat (map fst (send_queue w)) = frames (data_packets (data_header src dst security_default) n cs) \<and>
    concat cs @ concat (data_queue w) @ chan_bytes w = acc \<and> (\<forall>c \<in> set cs. c \<noteq> [] \<and> length c \<le> 1500) \<and>
    pump_packet_num w = n + of_nat (length cs) \<and>
    (flush_ready w \<longrightarrow> data_sent w = frames (data_packets (data_header src dst security_default) n cs) \<and> concat cs = acc)"
proof -
  obtain css where s: "stream_inv n src dst acc css w" and c: "count_inv w"
    using writer_run_inv [OF assms] by (auto simp: writer_inv_def)
  have "\<forall>c \<in> set (concat css). c \<noteq> [] \<and> length c \<le> 1500" using s by (auto simp: stream_inv_def)
  moreover have "data_sent w = frames (data_packets (data_header src dst security_default) n (concat css)) \<and> concat (concat css) = acc"
    if "flush_ready w"
    using s stream_inv_frames [OF s] flush_ready_idle [OF c that] by (simp add: stream_inv_def del: concat_eq_Nil_conv)
  ultimately show ?thesis using s stream_inv_frames [OF s] unfolding stream_inv_def by (intro exI [of _ "concat css"]) blast
qed

definition sample_writer :: Writer where
  "sample_writer = writer_start (writer_new 5 1 2)"

lemma sample_writer_run: "\<exists>w. writer_run 5 1 2 [9] [] w \<and> w = fst (send_bytes [9] sample_writer) \<and>
    data_sender w = Some \<lparr>chan_bound = Some DATA_CHANNEL_BOUND, chan_open = True, chan_queue = [[9]]\<rparr> \<and>
    pump_phase w = Receiving \<and> closed w = False \<and> data_queue w = [] \<and> send_queue w = [] \<and> pending_bytes w = 1 \<and>
    next_packet_num_shared w = 5 \<and> pump_packet_num w = 5 \<and> sent w = [] \<and> wr_src_conn_id w = 1 \<and> wr_dst_conn_id w = 2"
proof -
  have "writer_run 5 1 2 [] [] sample_writer" unfolding sample_writer_def by (rule writer_run.start)
  moreover have "send_bytes [9] sample_writer = (fst (send_bytes [9] sample_writer), Ok 1)"
    by (simp add: send_bytes_def sample_writer_def writer_start_def writer_new_def chan_try_send_def chan_has_room_def
        DATA_CHANNEL_BOUND_def)
  ultimately have "writer_run 5 1 2 [9] [] (fst (send_bytes [9] sample_writer))"
    using writer_run.bytes [of 5 1 2 "[]" "[]" sample_writer "[9]"] by fastforce
  then show ?thesis
    by (intro exI [of _ "fst (send_bytes [9] sample_writer)"])
      (simp add: send_bytes_def sample_writer_def writer_start_def writer_new_def chan_try_send_def chan_has_room_def
        DATA_CHANNEL_BOUND_def)
qed

theorem writer_integrity_witness:
  "\<exists>w cs. writer_run 5 1 2 [9] [] w \<and> concat cs @ concat (data_queue w) @ chan_bytes w = [9] \<and>
     pump_packet_num w = 5 + of_nat (length cs)"
proof -
  obtain w where "writer_run 5 1 2 [9] [] w" using sample_writer_run by blast
  with writer_integrity [OF this] show ?thesis by blast
qed

text \<open>C18. No acknowledgement is lost, duplicated or reordered by the writer: the acknowledgement datagrams handed to
  the socket, the one waiting to be retried, and the packets of the acknowledgements still queued are together
  the packets of all the acknowledgements that were requested, in order.\<close>

theorem writer_acks_conserved:
  assumes "writer_run n src dst acc acks w"
  shows "ack_sent w @ (case pending_send w of Some d \<Rightarrow> d | None \<Rightarrow> []) @
      frames (map (ack_packet (ack_base w)) (acks_waiting w)) = frames (map (ack_packet (ack_base w)) acks)"
  using writer_run_ack_inv [OF assms] by (simp add: ack_inv_def ack_out_def)

theorem writer_acks_conserved_witness:
  "\<exists>w. writer_run 5 1 2 [] [\<lparr>base_packet_num = 3, num_packets_acked = 4\<rparr>] w \<and>
     ack_sent w @ (case pending_send w of Some d \<Rightarrow> d | None \<Rightarrow> []) @ frames (map (ack_packet (ack_base w)) (acks_waiting w))
       = frames [ack_packet (ack_base w) \<lparr>base_packet_num = 3, num_packets_acked = 4\<rparr>]"
proof -
  have "send_ack 3 4 sample_writer = (fst (send_ack 3 4 sample_writer), Ok ())"
    by (simp add: send_ack_def sample_writer_def writer_start_def)
  from writer_run.ack [OF writer_run.start [of 5 1 2, folded sample_writer_def] this]
  have "writer_run 5 1 2 [] [\<lparr>base_packet_num = 3, num_packets_acked = 4\<rparr>] (fst (send_ack 3 4 sample_writer))" by simp
  with writer_acks_conserved [OF this] show ?thesis by auto
qed

text \<open>While the packetiser is waiting for data and the connection has not been closed, the FIN number that
  \<open>close()\<close> reserves is the number right after the last packet the packetiser has numbered.\<close>

lemma fin_number_fresh:
  assumes "writer_run n src dst acc acks w" and "\<not> closed w" and "pump_phase w = Receiving"
  shows "\<exists>cs. snd (reserve_close_packet_num (writer_mark_closed w)) = n + of_nat (length cs) \<and>
    data_sent w @ concat (map fst (send_queue w)) = frames (data_packets (data_header src dst security_default) n cs)"
proof -
  obtain css where s: "stream_inv n src dst acc css w" and h: "shape_inv src dst w"
    using writer_run_inv [OF assms(1)] by (auto simp: writer_inv_def)
  have "snd (reserve_close_packet_num (writer_mark_closed w)) = n + of_nat (length (concat css))"
    using s h assms(2,3) by (simp add: stream_inv_def shape_inv_def reserve_close_packet_num_def writer_mark_closed_def)
  with stream_inv_frames [OF s] show ?thesis by blast
qed

section \<open>Two executions that go wrong\<close>

lemma pump_pack_step:
  assumes run: "writer_run n src dst acc acks w" and ph: "pump_phase w = Packing i" and i: "i < 12"
    and S: "concat (data_queue w) \<noteq> []"
  defines "S \<equiv> concat (data_queue w)"
  obtains w' where "writer_run n src dst acc acks w'" "pump_phase w' = Packing (Suc i)"
    "concat (data_queue w') = drop 15000 S" "data_sender w' = data_sender w" "parked w' = parked w"
    "pump_packet_num w' = pump_packet_num w + of_nat (length (taken 10 S))"
    "next_packet_num_shared w' = next_packet_num_shared w" "closed w' = closed w" "sent w' = sent w" "pending_bytes w' = pending_bytes w"
    "send_queue w' = send_queue w @ [(frames (data_packets (data_header src dst security_default) (pump_packet_num w) (taken 10 S)), min 15000 (length S))]"
    "pump_pack w = Some (Ok w')"
proof -
  have ids: "wr_src_conn_id w = src" "wr_dst_conn_id w = dst"
    using writer_run_inv [OF run] by (auto simp: writer_inv_def shape_inv_def)
  obtain q where c: "consume_data_into (data_queue w) (pump_packet_num w) src dst [] =
      Ok (min 15000 (length S), q, pump_packet_num w + of_nat (length (taken 10 S)),
          frames (data_packets (data_header src dst security_default) (pump_packet_num w) (taken 10 S)))"
    "concat q = drop 15000 S"
    using consume_data_into_spec [of "data_queue w" "pump_packet_num w" src dst "[]"] by (auto simp: S_def)
  have pos: "0 < min 15000 (length S)" using S by (simp add: S_def del: concat_eq_Nil_conv)
  let ?w = "w\<lparr>data_queue := q, pump_packet_num := pump_packet_num w + of_nat (length (taken 10 S)),
    diag_tx := diag_try_send (diag_tx w) (DataSent (pump_packet_num w) (of_nat (length (taken 10 S))) (min 15000 (length S))),
    send_queue := send_queue w @ [(frames (data_packets (data_header src dst security_default) (pump_packet_num w) (taken 10 S)), min 15000 (length S))],
    pump_phase := Packing (Suc i)\<rparr>"
  have "pump_pack w = Some (Ok ?w)"
    using ph i c(1) ids pos by (simp add: pump_pack_def Let_def del: min_less_iff_conj)
  from writer_run.pack [OF run this] c(2) this that [of ?w] show ?thesis by simp
qed

lemma pump_pack_many:
  "writer_run n src dst acc acks w \<Longrightarrow> pump_phase w = Packing i \<Longrightarrow> i + k \<le> 12 \<Longrightarrow>
   15000 * k \<le> length (concat (data_queue w)) \<Longrightarrow>
   \<exists>w'. writer_run n src dst acc acks w' \<and> pump_phase w' = Packing (i + k) \<and>
     length (concat (data_queue w')) = length (concat (data_queue w)) - 15000 * k \<and>
     data_sender w' = data_sender w \<and> parked w' = parked w"
proof (induction k arbitrary: w i)
  case 0
  then show ?case by auto
next
  case (Suc k)
  have i: "i < 12" using Suc.prems(3) by linarith
  have "0 < length (concat (data_queue w))" by (rule less_le_trans [OF _ Suc.prems(4)]) simp
  then have "concat (data_queue w) \<noteq> []" by (simp only: length_greater_0_conv not_False_eq_True)
  from pump_pack_step [OF Suc.prems(1,2) i this] obtain w1 where
    1: "writer_run n src dst acc acks w1" "pump_phase w1 = Packing (Suc i)"
      "concat (data_queue w1) = drop 15000 (concat (data_queue w))" "data_sender w1 = data_sender w" "parked w1 = parked w"
    by metis
  have "Suc i + k \<le> 12" "15000 * k \<le> length (concat (data_queue w1))" using Suc.prems 1(3) by auto
  from Suc.IH [OF 1(1,2) this] 1 show ?case by auto
qed

lemma sender_drain:
  "writer_run n src dst acc acks w \<Longrightarrow>
   \<exists>w'. writer_run n src dst acc acks w' \<and> send_queue w' = [] \<and> data_queue w' = data_queue w \<and>
     data_sender w' = data_sender w \<and> parked w' = parked w \<and> pump_phase w' = pump_phase w"
proof (induction "length (send_queue w)" arbitrary: w)
  case 0
  then show ?case by auto
next
  case (Suc m)
  then obtain d k q where q: "send_queue w = (d, k) # q" by (cases "send_queue w") auto
  obtain w1 where 1: "sender_turn w = Some w1" "send_queue w1 = q" "data_queue w1 = data_queue w"
      "data_sender w1 = data_sender w" "parked w1 = parked w" "pump_phase w1 = pump_phase w"
    by (cases "0 < k"; cases "pending_bytes w = k") (auto simp: sender_turn_def q Let_def)
  have "m = length (send_queue w1)" using Suc.hyps(2) q 1(2) by simp
  from Suc.hyps(1) [OF this writer_run.sender [OF Suc.prems 1(1)]] 1 show ?case by auto
qed

lemma run_one_message:
  assumes "d \<noteq> []"
  obtains w where "writer_run n src dst d [] w" "pump_phase w = Packing 0" "data_queue w = [d]" "parked w = []"
    "data_sender w = Some \<lparr>chan_bound = Some DATA_CHANNEL_BOUND, chan_open = True, chan_queue = []\<rparr>"
    "next_packet_num_shared w = n" "closed w = False" "sent w = []" "pump_packet_num w = n" "send_queue w = []" "pending_bytes w = length d"
proof -
  let ?w0 = "writer_start (writer_new n src dst)"
  let ?c = "\<lparr>chan_bound = Some DATA_CHANNEL_BOUND, chan_open = True, chan_queue = [d]\<rparr>"
  let ?w1 = "?w0\<lparr>pending_bytes := length d, data_sender := Some ?c\<rparr>"
  have "send_bytes d ?w0 = (?w1, Ok (length d))"
    by (simp add: send_bytes_def writer_start_def writer_new_def chan_try_send_def chan_has_room_def DATA_CHANNEL_BOUND_def
        Let_def)
  from writer_run.bytes [OF writer_run.start this] have 1: "writer_run n src dst d [] ?w1" by simp
  let ?w2 = "?w1\<lparr>data_queue := [d], data_sender := Some (?c\<lparr>chan_queue := []\<rparr>), pump_phase := Packing 0\<rparr>"
  have "pump_receive ?w1 = Some ?w2" by (simp add: pump_receive_def writer_start_def writer_new_def)
  from writer_run.receive [OF 1 this] that [of ?w2] show ?thesis by (simp add: writer_start_def writer_new_def)
qed

text \<open>C36. The packetiser can stop with bytes still queued: after accepting one payload of 200000 bytes there is an
  execution in which every task of the writer waits, nothing is in the channel or at the sender, and 20000
  bytes are still pending, so \<open>flush\<close> does not return unless another payload is sent.\<close>

theorem flush_can_hang:
  "\<exists>w. writer_run n src dst (replicate 200000 b) [] w \<and> pending_bytes w = 20000 \<and> \<not> flush_ready w \<and>
     pump_receive w = None \<and> pump_pack w = None \<and> pump_store w = None \<and> sender_turn w = None \<and> parked w = []"
proof -
  let ?d = "replicate 200000 b"
  have "?d \<noteq> []" by simp
  then obtain w0 where 0: "writer_run n src dst ?d [] w0" "pump_phase w0 = Packing 0" "data_queue w0 = [?d]" "parked w0 = []"
    "data_sender w0 = Some \<lparr>chan_bound = Some DATA_CHANNEL_BOUND, chan_open = True, chan_queue = []\<rparr>"
    by (rule run_one_message [of ?d n src dst]) blast
  from pump_pack_many [OF 0(1,2), of 12] 0(3) obtain w1 where
    1: "writer_run n src dst ?d [] w1" "pump_phase w1 = Packing 12" "length (concat (data_queue w1)) = 20000"
      "data_sender w1 = data_sender w0" "parked w1 = parked w0" by auto
  have "pump_pack w1 = Some (Ok (w1\<lparr>pump_phase := Storing\<rparr>))" using 1(2) by (simp add: pump_pack_def)
  note 2 = writer_run.pack [OF 1(1) this]
  have "pump_store (w1\<lparr>pump_phase := Storing\<rparr>) = Some (w1\<lparr>pump_phase := Receiving, next_packet_num_shared := pump_packet_num w1\<rparr>)"
    by (simp add: pump_store_def)
  note 3 = writer_run.store [OF 2 this]
  obtain w where w: "writer_run n src dst ?d [] w" "send_queue w = []" "data_queue w = data_queue w1"
      "data_sender w = data_sender w1" "parked w = parked w1" "pump_phase w = Receiving"
    using sender_drain [OF 3] by auto
  have "count_inv w" using writer_run_inv [OF w(1)] by (simp add: writer_inv_def)
  then have "pending_bytes w = 20000"
    using w(2-5) 1(3-5) 0(4,5) by (simp add: count_inv_def chan_bytes_def)
  then show ?thesis
    using w 1(4,5) 0(4,5)
    by (intro exI [of _ w]) (simp add: flush_ready_def pump_receive_def pump_pack_def pump_store_def sender_turn_def)
qed

text \<open>One byte goes out before the packetiser publishes its counter.\<close>

lemma run_one_byte:
  "\<exists>w. writer_run n src dst [b] [] w \<and> flush_ready w \<and>
     sent w = [DataDatagram (frames (data_packets (data_header src dst security_default) n [[b]]))] \<and>
     next_packet_num_shared w = n \<and> pump_packet_num w = n + 1"
proof -
  have "[b] \<noteq> []" by simp
  then obtain w0 where 0: "writer_run n src dst [b] [] w0" "pump_phase w0 = Packing 0" "data_queue w0 = [[b]]"
    "next_packet_num_shared w0 = n" "sent w0 = []" "pump_packet_num w0 = n" "send_queue w0 = []" "pending_bytes w0 = 1"
    by (rule run_one_message [of "[b]" n src dst]) auto
  let ?f = "frames (data_packets (data_header src dst security_default) n [[b]])"
  have t: "taken 10 [b] = [[b]]" by (simp add: taken_def pieces_short)
  obtain w1 where 1: "writer_run n src dst [b] [] w1" "next_packet_num_shared w1 = n" "sent w1 = []"
      "pending_bytes w1 = 1" "send_queue w1 = [(?f, 1)]" "pump_packet_num w1 = n + 1"
    by (rule pump_pack_step [OF 0(1,2)]) (use 0 t in auto)
  let ?w = "w1\<lparr>send_queue := [], sent := [DataDatagram ?f], pending_bytes := 0, flush_notify := flush_notify w1 + 1\<rparr>"
  have "sender_turn w1 = Some ?w" using 1 by (simp add: sender_turn_def)
  from writer_run.sender [OF 1(1) this] 1(2,6) show ?thesis
    by (intro exI [of _ ?w]) (simp add: flush_ready_def)
qed

text \<open>C37. The FIN number can collide with data: the sender task may put a datagram on the wire, bringing the pending
  count to zero, before the packetiser publishes its counter, and \<open>close()\<close> then reserves for its FIN the number
  of a data packet that is already on the wire.\<close>

theorem fin_number_race:
  "\<exists>w. writer_run n src dst [b] [] w \<and> flush_ready w \<and>
     data_sent w = frames (data_packets (data_header src dst security_default) n [[b]]) \<and>
     snd (reserve_close_packet_num (writer_mark_closed w)) = n"
proof -
  obtain w where "writer_run n src dst [b] [] w" "flush_ready w" "next_packet_num_shared w = n"
    "sent w = [DataDatagram (frames (data_packets (data_header src dst security_default) n [[b]]))]"
    using run_one_byte by blast
  then show ?thesis
    by (intro exI [of _ w]) (simp add: data_sent_def reserve_close_packet_num_def writer_mark_closed_def)
qed

end
