(* ===== verification/Reader_Rx.thy ===== *)
theory Reader_Rx
  imports Conn_Reader Writer
begin

text \<open>
  \<open>bluefin/src/worker/reader.rs\<close>, \<open>ReaderRxChannel\<close>: the application's side of the receive path. A read first waits
  for the future (\<open>reader_poll\<close>), then takes bytes out of the connection buffer, and every 200 packets hands an
  acknowledgement to the writer. The record holds the buffers and the writer the channel shares with the other
  tasks; between the poll and the read the other tasks may run.
\<close>

definition reader_poll :: "bool \<Rightarrow> Waker \<Rightarrow> ConnectionBuffer \<Rightarrow> ConnectionBuffer \<times> unit BluefinResult option" where
  "reader_poll fin_observed cx cb = (case conn_peek cb of
      Ok _ \<Rightarrow> (cb, Some (Ok ()))
    | Panic \<Rightarrow> (cb, Some Panic)
    | Err _ \<Rightarrow> if fin_observed then (cb, Some (Ok ())) else (conn_set_waker_if_changed cx cb, None))"

record ReaderRxChannel =
  rx_bufs :: ConnectionManagedBuffers
  rx_writer :: Writer
  packets_consumed :: usize
  packets_consumed_before_ack :: usize
  rx_diag_tx :: "DiagnosticEvent channel option"

definition reader_rx_new :: "ConnectionManagedBuffers \<Rightarrow> Writer \<Rightarrow> DiagnosticEvent channel option \<Rightarrow> ReaderRxChannel" where
  "reader_rx_new b w diag = \<lparr>rx_bufs = b, rx_writer = w, packets_consumed = 0, packets_consumed_before_ack = 200,
     rx_diag_tx = diag\<rparr>"

text \<open>The bookkeeping after a successful consume, the same in \<open>read\<close> and \<open>read_bytes\<close>.\<close>

definition account_read :: "ConsumeResult \<Rightarrow> ReaderRxChannel \<Rightarrow> ReaderRxChannel" where
  "account_read res rx =
     (let k = num_packets_consumed res; base = base_packet_number res;
          rx1 = rx\<lparr>packets_consumed := packets_consumed rx + k\<rparr>;
          rx2 = (if k > 0
                 then rx1\<lparr>rx_diag_tx := diag_try_send (rx_diag_tx rx1) (DataReceived base k (unat (bytes_consumed res)))\<rparr>
                 else rx1) in
      if k > 0 \<and> base \<noteq> 0 \<and> packets_consumed rx2 \<ge> packets_consumed_before_ack rx2
      then rx2\<lparr>rx_writer := fst (send_ack base k (rx_writer rx2)),
               rx_diag_tx := diag_try_send (rx_diag_tx rx2) (AckSent base k),
               packets_consumed := 0\<rparr>
      else rx2)"

text \<open>The end-of-stream test of both reads: \<open>Some a\<close> when the read returns \<open>(0, a)\<close>.\<close>

definition eof_addr :: "ReaderRxChannel \<Rightarrow> SocketAddr option BluefinResult" where
  "eof_addr rx =
     (if peer_fin_observed (mb_close (rx_bufs rx)) then
        (case conn_peek (mb_conn (rx_bufs rx)) of
           Err _ \<Rightarrow> Ok (cb_addr (mb_conn (rx_bufs rx)))
         | Ok _ \<Rightarrow> Ok None
         | Panic \<Rightarrow> Panic)
      else Ok None)"

definition set_rx_conn :: "ConnectionBuffer \<Rightarrow> ReaderRxChannel \<Rightarrow> ReaderRxChannel" where
  "set_rx_conn cb rx = rx\<lparr>rx_bufs := (rx_bufs rx)\<lparr>mb_conn := cb\<rparr>\<rparr>"

text \<open>\<open>read\<close> after its future has resolved; the result of \<open>consume\<close> is unwrapped.\<close>

definition reader_read :: "usize \<Rightarrow> Bytes \<Rightarrow> ReaderRxChannel \<Rightarrow> ReaderRxChannel \<times> Bytes \<times> (u64 \<times> SocketAddr) BluefinResult" where
  "reader_read bytes_to_read buf rx = (case eof_addr rx of
      Panic \<Rightarrow> (rx, buf, Panic)
    | Err e \<Rightarrow> (rx, buf, Err e)
    | Ok (Some a) \<Rightarrow> (rx, buf, Ok (0, a))
    | Ok None \<Rightarrow>
        (case conn_consume bytes_to_read buf (mb_conn (rx_bufs rx)) of
           (cb, buf', Ok (res, a)) \<Rightarrow> (account_read res (set_rx_conn cb rx), buf', Ok (bytes_consumed res, a))
         | (cb, buf', Err _) \<Rightarrow> (set_rx_conn cb rx, buf', Panic)
         | (cb, buf', Panic) \<Rightarrow> (set_rx_conn cb rx, buf', Panic)))"

text \<open>\<open>read_bytes\<close> passes the error on instead.\<close>

definition reader_read_bytes :: "Bytes list \<Rightarrow> usize \<Rightarrow> ReaderRxChannel \<Rightarrow>
    ReaderRxChannel \<times> Bytes list \<times> (u64 \<times> SocketAddr) BluefinResult" where
  "reader_read_bytes out max_packets rx = (case eof_addr rx of
      Panic \<Rightarrow> (rx, out, Panic)
    | Err e \<Rightarrow> (rx, out, Err e)
    | Ok (Some a) \<Rightarrow> (rx, out, Ok (0, a))
    | Ok None \<Rightarrow>
        (case conn_consume_bytes out max_packets (mb_conn (rx_bufs rx)) of
           (cb, out', Ok (res, a)) \<Rightarrow> (account_read res (set_rx_conn cb rx), out', Ok (bytes_consumed res, a))
         | (cb, out', Err e) \<Rightarrow> (set_rx_conn cb rx, out', Err e)
         | (cb, out', Panic) \<Rightarrow> (set_rx_conn cb rx, out', Panic)))"

section \<open>Waiting\<close>

interpretation reader_buffer: wakeable "reader_poll fin" conn_produce conn_take_waker_clone
proof unfold_locales
  show "conn_take_waker_clone cb' = Some w" if "reader_poll fin w cb = (cb', None)" for w cb cb'
    using that by (auto simp: reader_poll_def conn_take_waker_clone_def split: BluefinResult.splits if_splits)
qed (simp add: conn_take_waker_clone_def conn_produce_waker)

lemma deliver_data_wakes:
  assumes "ob_wf (ordered_bytes (mb_conn b))" and "cb_waker (mb_conn b) = Some w"
  shows "w \<in> set (mb_woken (fst (buffer_in_data_packets ps b)))"
  using buffer_in_data_packets_eq [OF assms(1), of ps] assms(2) by (auto simp: Let_def wake_def)

lemma deliver_fin_wakes:
  assumes "list_all (\<lambda>p. type_field (header p) = Fin \<or> type_field (header p) = FinAck) ps"
    and "\<exists>p \<in> set ps. type_field (header p) = Fin" and "cb_waker (mb_conn b) = Some w"
  shows "w \<in> set (mb_woken (fst (buffer_in_close_packets ps b)))"
proof -
  have "snd (snd (buffer_close_loop ps False (mb_close b) (mb_diag_tx b))) = Ok True"
    using assms(1,2) by (auto simp: buffer_close_loop_result list_all_iff)
  then obtain cl diag where "buffer_close_loop ps False (mb_close b) (mb_diag_tx b) = (cl, diag, Ok True)"
    by (cases "buffer_close_loop ps False (mb_close b) (mb_diag_tx b)") auto
  with assms(3) show ?thesis
    by (cases "pending_fin_ack_send cl"; cases "mb_fin_ack_tx b")
      (simp_all add: buffer_in_close_packets_def take_pending_fin_ack_send_def conn_take_waker_clone_def wake_def)
qed

text \<open>C12. No wake-up is lost: when a read parks on an empty buffer, the next datagram that is buffered, data or FIN,
  wakes exactly that task, whatever else the receive workers put into the buffer in between.\<close>

theorem parked_reader_is_woken:
  assumes "reader_poll fin w cb = (cb', None)" and "mb_conn b = fold conn_produce ops cb'"
    and "ob_wf (ordered_bytes (mb_conn b))" and "ps \<noteq> []" and "type_field (header (hd ps)) \<noteq> Ack"
    and "type_field (header (hd ps)) \<noteq> FinAck" and "\<forall>p \<in> set ps. type_field (header p) = type_field (header (hd ps))"
  shows "w \<in> set (mb_woken (fst (buffer_in_packets ps b)))"
proof -
  have w: "cb_waker (mb_conn b) = Some w"
    using reader_buffer.no_lost_wakeup [OF assms(1), of ops] assms(2) by (simp add: conn_take_waker_clone_def)
  obtain p qs where ps: "ps = p # qs" using assms(4) by (cases ps) auto
  show ?thesis
  proof (cases "type_field (header p) = Fin")
    case True
    have "type_field (header (hd ps)) = Fin" using True ps by simp
    with assms(7) have "list_all (\<lambda>p. type_field (header p) = Fin \<or> type_field (header p) = FinAck) ps"
      unfolding list_all_iff by metis
    from deliver_fin_wakes [OF this _ w] True ps show ?thesis by (simp add: buffer_in_packets_def Let_def)
  next
    case False
    with deliver_data_wakes [OF assms(3) w, of ps] assms(5,6) ps show ?thesis by (simp add: buffer_in_packets_def Let_def)
  qed
qed

theorem parked_reader_is_woken_witness:
  "5 \<in> set (mb_woken (fst (buffer_in_packets [sample_packet 7 [1]]
     (sample_bufs\<lparr>mb_conn := conn_produce (BufferHandshake (sample_packet 6 []))
        (fst (reader_poll False 5 (connection_buffer_new 3 Client)))\<rparr>))))"
proof -
  let ?cb = "fst (reader_poll False 5 (connection_buffer_new 3 Client))"
  have p: "reader_poll False 5 (connection_buffer_new 3 Client) = (?cb, None)"
    by (simp add: reader_poll_def conn_peek_def connection_buffer_new_def)
  have "conn_wf (connection_buffer_new 3 Client)" by (rule connection_buffer_new_wf)
  then have "conn_wf ?cb" by (auto simp: reader_poll_def conn_wf_def split: BluefinResult.splits)
  then have "conn_wf (fst (conn_buffer_in_packet (sample_packet 6 []) ?cb))" by (rule conn_buffer_in_packet_wf)
  then have "ob_wf (ordered_bytes (mb_conn (sample_bufs\<lparr>mb_conn := conn_produce (BufferHandshake (sample_packet 6 [])) ?cb\<rparr>)))"
    by (simp add: conn_wf_def)
  from parked_reader_is_woken [OF p _ this, of "[BufferHandshake (sample_packet 6 [])]" "[sample_packet 7 [1]]"]
  show ?thesis by (simp add: sample_packet_def header_default_def)
qed

section \<open>Reading\<close>

abbreviation rx_ordered :: "ReaderRxChannel \<Rightarrow> OrderedBytes" where
  "rx_ordered rx \<equiv> ordered_bytes (mb_conn (rx_bufs rx))"

lemma peek_eq:
  assumes "ob_wf ob"
  shows "ordered_bytes_peek ob = (if carry_over_bytes ob \<noteq> None \<or> contiguous ob \<noteq> [] then Ok () else Err BufferEmptyError)"
proof -
  have "contiguous ob \<noteq> [] \<longleftrightarrow> packets ob ! smallest_packet_number_index ob \<noteq> None"
    unfolding contiguous_def by (subst view_Cons [OF assms]) simp
  moreover have "smallest_packet_number_index ob < length (packets ob)" using assms by (simp add: ob_wf_def)
  ultimately show ?thesis by (simp add: ordered_bytes_peek_def)
qed

lemma stream_peek:
  assumes "ob_wf ob" and "stream ob \<noteq> []"
  shows "ordered_bytes_peek ob = Ok ()"
  using assms(2) unfolding peek_eq [OF assms(1)] by (auto simp: stream_def carried_def split: option.splits)

lemma account_read_bufs [simp]: "rx_bufs (account_read res rx) = rx_bufs rx"
  by (simp add: account_read_def Let_def)

lemma set_rx_conn_simps [simp]:
  "mb_conn (rx_bufs (set_rx_conn cb rx)) = cb" "mb_close (rx_bufs (set_rx_conn cb rx)) = mb_close (rx_bufs rx)"
  "rx_writer (set_rx_conn cb rx) = rx_writer rx" "packets_consumed (set_rx_conn cb rx) = packets_consumed rx"
  "packets_consumed_before_ack (set_rx_conn cb rx) = packets_consumed_before_ack rx"
  by (simp_all add: set_rx_conn_def)

lemma account_read_writer:
  "rx_writer (account_read res rx) =
     (if num_packets_consumed res > 0 \<and> base_packet_number res \<noteq> 0 \<and>
         packets_consumed rx + num_packets_consumed res \<ge> packets_consumed_before_ack rx
      then fst (send_ack (base_packet_number res) (num_packets_consumed res) (rx_writer rx)) else rx_writer rx)"
  "packets_consumed (account_read res rx) =
     (if num_packets_consumed res > 0 \<and> base_packet_number res \<noteq> 0 \<and>
         packets_consumed rx + num_packets_consumed res \<ge> packets_consumed_before_ack rx
      then 0 else packets_consumed rx + num_packets_consumed res)"
  by (simp_all add: account_read_def Let_def)

text \<open>A read of a non-empty stream: what \<open>consume\<close> does, then the bookkeeping.\<close>

lemma reader_read_stream:
  assumes wf: "conn_wf (mb_conn (rx_bufs rx))" and a: "cb_addr (mb_conn (rx_bufs rx)) = Some a"
    and n: "0 < n" "n \<le> length buf" and S: "stream (rx_ordered rx) \<noteq> []"
  obtains ob k b where
    "reader_read n buf rx = (account_read \<lparr>num_packets_consumed = k, base_packet_number = b,
        bytes_consumed = of_nat (min n (length (stream (rx_ordered rx))))\<rparr>
        (set_rx_conn ((mb_conn (rx_bufs rx))\<lparr>ordered_bytes := ob\<rparr>) rx),
      take n (stream (rx_ordered rx)) @ drop (length (take n (stream (rx_ordered rx)))) buf,
      Ok (of_nat (min n (length (stream (rx_ordered rx)))), a))"
    "ob_wf ob" "stream ob = drop n (stream (rx_ordered rx))"
    "smallest_packet_number ob = smallest_packet_number (rx_ordered rx) + of_nat k"
    "0 < k \<longrightarrow> b = smallest_packet_number (rx_ordered rx)" "k \<le> length (contiguous (rx_ordered rx))"
proof -
  have ow: "ob_wf (rx_ordered rx)" using wf by (simp add: conn_wf_def)
  have "conn_peek (mb_conn (rx_bufs rx)) = Ok ()" using stream_peek [OF ow S] a by (simp add: conn_peek_def)
  then have e: "eof_addr rx = Ok None" by (simp add: eof_addr_def)
  obtain ob k b where c: "consume n buf (rx_ordered rx) = (ob, write_at 0 (take n (stream (rx_ordered rx))) buf,
      Ok \<lparr>num_packets_consumed = k, base_packet_number = b,
         bytes_consumed = of_nat (min n (length (stream (rx_ordered rx))))\<rparr>)"
    "ob_wf ob" "stream ob = drop n (stream (rx_ordered rx))"
    "smallest_packet_number ob = smallest_packet_number (rx_ordered rx) + of_nat k"
    "0 < k \<longrightarrow> b = smallest_packet_number (rx_ordered rx)" "k \<le> length (contiguous (rx_ordered rx))"
    using consume_spec [OF ow n] S by auto
  with that e a show ?thesis by (simp add: reader_read_def conn_consume_def write_at_0)
qed

lemma reader_read_wf:
  assumes "conn_wf (mb_conn (rx_bufs rx))" and "n \<le> length buf" and "reader_read n buf rx = (rx', buf', r)"
  shows "conn_wf (mb_conn (rx_bufs rx'))"
proof -
  obtain cb b1 r1 where c: "conn_consume n buf (mb_conn (rx_bufs rx)) = (cb, b1, r1)" using prod_cases3 by blast
  have "mb_conn (rx_bufs rx') = mb_conn (rx_bufs rx) \<or> mb_conn (rx_bufs rx') = cb"
    using assms(3) by (auto simp: reader_read_def c split: BluefinResult.splits option.splits)
  with conn_consume_wf [OF assms(1,2) c] assms(1) show ?thesis by auto
qed


text \<open>A channel whose buffer holds the start of a stream.\<close>

definition sample_rx :: ReaderRxChannel where
  "sample_rx = reader_rx_new (sample_bufs\<lparr>mb_conn := (connection_buffer_new 3 Client)\<lparr>cb_addr := Some (SocketAddr [] 9),
      ordered_bytes := (ordered_bytes_new 3 7)\<lparr>carry_over_bytes := Some [4, 5, 6]\<rparr>\<rparr>\<rparr>) (writer_start (writer_new 1 3 4)) None"

lemma sample_rx_facts:
  "conn_wf (mb_conn (rx_bufs sample_rx))" "cb_addr (mb_conn (rx_bufs sample_rx)) = Some (SocketAddr [] 9)"
  "stream (rx_ordered sample_rx) = [4, 5, 6]" "carry_over_bytes (rx_ordered sample_rx) = Some [4, 5, 6]"
proof -
  let ?ob = "(ordered_bytes_new 3 7)\<lparr>carry_over_bytes := Some [4, 5, 6]\<rparr>"
  have o: "rx_ordered sample_rx = ?ob" by (simp add: sample_rx_def reader_rx_new_def)
  have "ob_wf ?ob" "view ?ob = replicate MAX_BUFFER_SIZE None"
    using ordered_bytes_new_wf(1,2) by (simp_all add: ob_wf_carry)
  then show "conn_wf (mb_conn (rx_bufs sample_rx))" by (simp add: conn_wf_def o)
  show "stream (rx_ordered sample_rx) = [4, 5, 6]"
    using ordered_bytes_new_wf(2) [of 3 7] by (simp add: o stream_def carried_def contiguous_def takeWhile_replicate)
qed (simp_all add: sample_rx_def reader_rx_new_def)


text \<open>C24. Acknowledgements are sent for what was read: a read that consumes \<open>k\<close> packets hands the writer at most one
  acknowledgement, and only for exactly those \<open>k\<close> packets, from the number that was expected before the read on;
  it does so when the count since the last acknowledgement reaches the threshold (and then restarts the
  count), and otherwise adds \<open>k\<close> to the count. Packets counted by earlier reads are not covered.\<close>

theorem reader_read_acks:
  assumes "conn_wf (mb_conn (rx_bufs rx))" and "cb_addr (mb_conn (rx_bufs rx)) = Some a"
    and "0 < n" and "n \<le> length buf" and "stream (rx_ordered rx) \<noteq> []"
  shows "\<exists>k. let rx' = fst (reader_read n buf rx); s = smallest_packet_number (rx_ordered rx) in
    smallest_packet_number (rx_ordered rx') = s + of_nat k \<and> k \<le> length (contiguous (rx_ordered rx)) \<and>
    (if 0 < k \<and> s \<noteq> 0 \<and> packets_consumed_before_ack rx \<le> packets_consumed rx + k
     then rx_writer rx' = fst (send_ack s k (rx_writer rx)) \<and> packets_consumed rx' = 0
     else rx_writer rx' = rx_writer rx \<and> packets_consumed rx' = packets_consumed rx + k)"
proof -
  obtain ob k b where r: "fst (reader_read n buf rx) = account_read \<lparr>num_packets_consumed = k, base_packet_number = b,
        bytes_consumed = of_nat (min n (length (stream (rx_ordered rx))))\<rparr>
        (set_rx_conn ((mb_conn (rx_bufs rx))\<lparr>ordered_bytes := ob\<rparr>) rx)"
    "smallest_packet_number ob = smallest_packet_number (rx_ordered rx) + of_nat k"
    "0 < k \<longrightarrow> b = smallest_packet_number (rx_ordered rx)" "k \<le> length (contiguous (rx_ordered rx))"
    by (rule reader_read_stream [OF assms]) simp
  then show ?thesis by (intro exI [of _ k]) (auto simp: Let_def account_read_writer)
qed

theorem reader_read_acks_witness:
  "\<exists>k. smallest_packet_number (rx_ordered (fst (reader_read 2 [0, 0] sample_rx))) = smallest_packet_number (rx_ordered sample_rx) + of_nat k \<and>
     packets_consumed (fst (reader_read 2 [0, 0] sample_rx)) \<le> packets_consumed sample_rx + k"
  using reader_read_acks [OF sample_rx_facts(1,2), of 2 "[0, 0]"] sample_rx_facts(3)
  by (auto simp: Let_def split: if_splits)

lemma reader_read_bytes_wf:
  assumes "conn_wf (mb_conn (rx_bufs rx))" and "reader_read_bytes out mx rx = (rx', out', r)"
  shows "conn_wf (mb_conn (rx_bufs rx'))"
proof -
  obtain cb o1 r1 where c: "conn_consume_bytes out mx (mb_conn (rx_bufs rx)) = (cb, o1, r1)" using prod_cases3 by blast
  have "mb_conn (rx_bufs rx') = mb_conn (rx_bufs rx) \<or> mb_conn (rx_bufs rx') = cb"
    using assms(2) by (auto simp: reader_read_bytes_def c split: BluefinResult.splits option.splits)
  with conn_consume_bytes_wf [OF assms(1) c] assms(1) show ?thesis by auto
qed

text \<open>The zero-copy read delivers the same stream: the chunks it pushes, followed by what it leaves, are the
  stream before it, and it returns their total length; with the peer's FIN seen and nothing buffered it pushes
  nothing, changes nothing and returns \<open>Ok(0)\<close>. It fails only when asked for no packets, and never panics.\<close>

lemma reader_read_bytes_correct:
  assumes "conn_wf (mb_conn (rx_bufs rx))" and "cb_addr (mb_conn (rx_bufs rx)) = Some a"
    and "snd (reader_poll (peer_fin_observed (mb_close (rx_bufs rx))) w (mb_conn (rx_bufs rx))) = Some (Ok ())"
  shows "\<exists>rx' chunks r. reader_read_bytes out mx rx = (rx', out @ chunks, r) \<and>
    conn_wf (mb_conn (rx_bufs rx')) \<and> stream (rx_ordered rx) = concat chunks @ stream (rx_ordered rx') \<and>
    (if chunks \<noteq> [] then r = Ok (of_nat (length (concat chunks)), a)
     else if mx = 0 \<and> contiguous (rx_ordered rx) \<noteq> [] then r = Err BufferEmptyError
     else peer_fin_observed (mb_close (rx_bufs rx)) \<and> stream (rx_ordered rx) = [] \<and> rx' = rx \<and> r = Ok (0, a))"
proof -
  have ow: "ob_wf (rx_ordered rx)" using assms(1) by (simp add: conn_wf_def)
  let ?cb = "mb_conn (rx_bufs rx)"
  have pk: "conn_peek ?cb = (if carry_over_bytes (rx_ordered rx) \<noteq> None \<or> contiguous (rx_ordered rx) \<noteq> [] then Ok ()
      else Err BufferEmptyError)" using assms(2) by (simp add: conn_peek_def peek_eq [OF ow])
  show ?thesis
  proof (cases "carry_over_bytes (rx_ordered rx) \<noteq> None \<or> contiguous (rx_ordered rx) \<noteq> []")
    case False
    then have "peer_fin_observed (mb_close (rx_bufs rx))" "eof_addr rx = Ok (Some a)"
      using assms(2,3) pk by (auto simp: reader_poll_def eof_addr_def split: if_splits)
    with False assms(1) show ?thesis
      by (intro exI [of _ rx] exI [of _ "[]"] exI [of _ "Ok (0, a)"]) (simp add: reader_read_bytes_def stream_def carried_def)
  next
    case True
    then have e: "eof_addr rx = Ok None" using pk by (simp add: eof_addr_def)
    define carry where "carry = (case carry_over_bytes (rx_ordered rx) of None \<Rightarrow> [] | Some c \<Rightarrow> [c])"
    define k where "k = min (mx - length carry) (length (contiguous (rx_ordered rx)))"
    define chunks where "chunks = carry @ map payload (take k (contiguous (rx_ordered rx)))"
    obtain ob where c: "consume_bytes out mx (rx_ordered rx) = (ob, out @ chunks, if chunks = [] then Err BufferEmptyError
        else Ok \<lparr>num_packets_consumed = k, base_packet_number = first_packet_number (rx_ordered rx),
                bytes_consumed = of_nat (length (concat chunks))\<rparr>)" "stream (rx_ordered rx) = concat chunks @ stream ob"
      using consume_bytes_spec [OF ow, of out mx, folded carry_def, folded k_def, folded chunks_def] by blast
    have z: "chunks = [] \<Longrightarrow> mx = 0 \<and> contiguous (rx_ordered rx) \<noteq> []"
      using True by (auto simp: chunks_def k_def carry_def min_def split: option.splits if_splits)
    obtain rx' r where r: "reader_read_bytes out mx rx = (rx', out @ chunks, r)" "rx_ordered rx' = ob"
        "r = (if chunks = [] then Err BufferEmptyError else Ok (of_nat (length (concat chunks)), a))"
      using c(1) e assms(2) by (cases "chunks = []") (simp_all add: reader_read_bytes_def conn_consume_bytes_def)
    with reader_read_bytes_wf [OF assms(1) r(1)] c(2) z show ?thesis
      by (intro exI [of _ rx'] exI [of _ chunks] exI [of _ r]) simp
  qed
qed

end
