(* ===== verification/Reader_Tx.thy ===== *)
theory Reader_Tx
  imports Conn_Reader
begin

text \<open>
  \<open>bluefin/src/worker/reader.rs\<close>, \<open>ReaderTxChannel\<close>: the host-wide receive worker that serves handshakes and routes
  packets to registered connections, with the registry \<open>ConnectionManager\<close> of \<open>net/connection.rs\<close>. Registry
  entries share their buffers with the connections through reference counts, so the host state holds a store
  of buffers, and the registry maps a pair of connection ids to an address of that store.
\<close>

type_synonym conn_key = "u32 \<times> u32"

record Host =
  conn_manager :: "conn_key \<Rightarrow> nat option"
  store :: "nat \<Rightarrow> ConnectionManagedBuffers"
  hello_state :: HelloState
  host_kind :: BluefinHost

datatype HelloAction = NotHello | Routed u32 | Queued

definition handle_hello_single :: "BluefinPacket \<Rightarrow> SocketAddr \<Rightarrow> Host \<Rightarrow> Host \<times> HelloAction BluefinResult" where
  "handle_hello_single p a h =
     (if \<not> is_hello_packet (host_kind h) p then (h, Ok NotHello)
      else case host_kind h of
          PackLeader \<Rightarrow>
            (let st = hello_state h in
             case pending_accept_ids st of
               i # ids \<Rightarrow> (h\<lparr>hello_state := st\<lparr>pending_accept_ids := ids\<rparr>\<rparr>, Ok (Routed i))
             | [] \<Rightarrow>
                 if length (hello_queue st) < MAX_QUEUED_HELLOS
                 then (h\<lparr>hello_state := st\<lparr>hello_queue := hello_queue st @ [(p, a)]\<rparr>\<rparr>, Ok Queued)
                 else (h, Ok Queued))
        | Client \<Rightarrow> (h, Ok (Routed 0))
        | PackFollower \<Rightarrow> (h, Panic))"

definition build_conn_buff_key :: "bool \<Rightarrow> u32 \<Rightarrow> u32 \<Rightarrow> conn_key" where
  "build_conn_buff_key is_hello src_conn_id dst_conn_id =
     (if \<not> is_hello then (src_conn_id, dst_conn_id) else (src_conn_id, 0))"

text \<open>The common tail: remember the sender's id and wake the waiting task.\<close>

definition finish_conn_buffer :: "u32 \<Rightarrow> ConnectionBuffer \<Rightarrow> ConnectionManagedBuffers \<Rightarrow>
    ConnectionManagedBuffers \<times> unit BluefinResult" where
  "finish_conn_buffer packet_src_conn_id cb b =
     (let cb' = set_dst_conn_id packet_src_conn_id cb; b' = b\<lparr>mb_conn := cb'\<rparr> in
      case get_waker cb' of Some w \<Rightarrow> (wake w b', Ok ()) | None \<Rightarrow> (b', Err NoSuchWakerError))"

definition buffer_to_conn_buffer :: "BluefinPacket \<Rightarrow> SocketAddr \<Rightarrow> bool \<Rightarrow> bool \<Rightarrow> ConnectionManagedBuffers \<Rightarrow>
    ConnectionManagedBuffers \<times> unit BluefinResult" where
  "buffer_to_conn_buffer p a is_hello is_client_ack b =
     (let packet_src_conn_id = source_connection_id (header p) in
      if \<not> is_hello \<and> \<not> is_client_ack then
        (case buffer_in_bytes p (mb_conn b) of
           (cb, Ok _) \<Rightarrow> finish_conn_buffer packet_src_conn_id cb b
         | (cb, r) \<Rightarrow> (b\<lparr>mb_conn := cb\<rparr>, r))
      else
        (case conn_buffer_in_packet p (mb_conn b) of
           (cb, Ok _) \<Rightarrow> finish_conn_buffer packet_src_conn_id (fst (buffer_in_addr a cb)) b
         | (cb, r) \<Rightarrow> (b\<lparr>mb_conn := cb\<rparr>, r)))"

definition buffer_to_ack_buffer :: "BluefinPacket \<Rightarrow> ConnectionManagedBuffers \<Rightarrow>
    ConnectionManagedBuffers \<times> unit BluefinResult" where
  "buffer_to_ack_buffer p b = (case buffer_in_ack_packet p (mb_ack b) of
      (ab, Ok _) \<Rightarrow>
        (case ack_wake ab of
           Ok w \<Rightarrow> (wake w (b\<lparr>mb_ack := ab\<rparr>), Ok ())
         | Err e \<Rightarrow> (b\<lparr>mb_ack := ab\<rparr>, Err e)
         | Panic \<Rightarrow> (b\<lparr>mb_ack := ab\<rparr>, Panic))
    | (ab, r) \<Rightarrow> (b\<lparr>mb_ack := ab\<rparr>, r))"

definition buffer_in_data :: "bool \<Rightarrow> BluefinHost \<Rightarrow> BluefinPacket \<Rightarrow> SocketAddr \<Rightarrow> ConnectionManagedBuffers \<Rightarrow>
    ConnectionManagedBuffers \<times> unit BluefinResult" where
  "buffer_in_data is_hello host p a b =
     (let is_client_ack = is_client_ack_packet host p in
      if \<not> is_client_ack \<and> \<not> is_hello \<and> type_field (header p) = Ack then buffer_to_ack_buffer p b
      else buffer_to_conn_buffer p a is_hello is_client_ack b)"

text \<open>\<open>for p in packets.drain(..)\<close>: errors are dropped, a panic ends the worker.\<close>

fun buffer_each :: "bool \<Rightarrow> BluefinHost \<Rightarrow> SocketAddr \<Rightarrow> BluefinPacket list \<Rightarrow> ConnectionManagedBuffers \<Rightarrow>
    ConnectionManagedBuffers \<times> bool" where
  "buffer_each is_hello host a [] b = (b, True)"
| "buffer_each is_hello host a (p # ps) b = (case buffer_in_data is_hello host p a b of
      (b', Panic) \<Rightarrow> (b', False)
    | (b', _) \<Rightarrow> buffer_each is_hello host a ps b')"

text \<open>The end of an iteration: look the connection up and buffer the packets.\<close>

definition route :: "bool \<Rightarrow> u32 \<Rightarrow> u32 \<Rightarrow> BluefinPacket list \<Rightarrow> SocketAddr \<Rightarrow> Host \<Rightarrow> Host \<times> bool" where
  "route is_hello src_conn_id dst_conn_id pkts a h =
     (let key = build_conn_buff_key is_hello src_conn_id dst_conn_id in
      case conn_manager h key of
        None \<Rightarrow> (h, True)
      | Some r \<Rightarrow>
          (case buffer_each is_hello (host_kind h) a pkts (store h r) of
             (b, go) \<Rightarrow> (h\<lparr>store := (store h)(r := b)\<rparr>, go)))"

text \<open>One iteration of \<open>run\<close> on what the socket returned; the flag says whether the worker goes on.\<close>

definition reader_tx_step :: "(Bytes \<times> SocketAddr) BluefinResult \<Rightarrow> Host \<Rightarrow> Host \<times> bool" where
  "reader_tx_step recv h = (case recv of
      Ok (frozen, a) \<Rightarrow>
        (case from_bytes_into frozen [] of
           (pkts, Ok _) \<Rightarrow>
             (case pkts of
                [] \<Rightarrow> (h, True)
              | p # rest \<Rightarrow>
                  (let src_conn_id = destination_connection_id (header p);
                       dst_conn_id = source_connection_id (header p) in
                   if rest = [] then
                     (case handle_hello_single p a h of
                        (h', Ok (Routed i)) \<Rightarrow>
                          route True (if host_kind h' = PackLeader then i else src_conn_id) dst_conn_id pkts a h'
                      | (h', Ok NotHello) \<Rightarrow> route False src_conn_id dst_conn_id pkts a h'
                      | (h', Ok Queued) \<Rightarrow> (h', True)
                      | (h', Err e) \<Rightarrow> (h', True)
                      | (h', Panic) \<Rightarrow> (h', False))
                   else route False src_conn_id dst_conn_id pkts a h))
         | (pkts, Err _) \<Rightarrow> (h, True)
         | (pkts, Panic) \<Rightarrow> (h, False))
    | _ \<Rightarrow> (h, False))"

section \<open>Isolation of connections\<close>

text \<open>The address of the buffers a datagram is routed to, if any.\<close>

definition target :: "Bytes \<Rightarrow> Host \<Rightarrow> nat option" where
  "target d h = (case from_bytes d of
      Ok [p] \<Rightarrow>
        (if is_hello_packet (host_kind h) p then
           (case host_kind h of
              PackLeader \<Rightarrow> (case pending_accept_ids (hello_state h) of i # _ \<Rightarrow> conn_manager h (i, 0) | [] \<Rightarrow> None)
            | _ \<Rightarrow> conn_manager h (destination_connection_id (header p), 0))
         else conn_manager h (destination_connection_id (header p), source_connection_id (header p)))
    | Ok (p # _) \<Rightarrow> conn_manager h (destination_connection_id (header p), source_connection_id (header p))
    | _ \<Rightarrow> None)"

lemma route_effect:
  "conn_manager (fst (route ish s d ps a h)) = conn_manager h"
  "hello_state (fst (route ish s d ps a h)) = hello_state h"
  "host_kind (fst (route ish s d ps a h)) = host_kind h"
  "conn_manager h (build_conn_buff_key ish s d) \<noteq> Some r \<Longrightarrow> store (fst (route ish s d ps a h)) r = store h r"
  by (auto simp: route_def Let_def split: option.splits prod.splits)

lemma handle_hello_frame:
  "handle_hello_single p a h = (h', r) \<Longrightarrow>
   conn_manager h' = conn_manager h \<and> store h' = store h \<and> host_kind h' = host_kind h"
  by (auto simp: handle_hello_single_def Let_def split: if_splits BluefinHost.splits list.splits)

text \<open>What one iteration is, in terms of \<open>from_bytes\<close>.\<close>

lemma reader_tx_step_eq:
  "reader_tx_step (Ok (d, a)) h = (case from_bytes d of
      Ok ps \<Rightarrow>
        (let p = hd ps; s = destination_connection_id (header p); t = source_connection_id (header p) in
         if tl ps = [] then
           (case handle_hello_single p a h of
              (h', Ok (Routed i)) \<Rightarrow> route True (if host_kind h' = PackLeader then i else s) t ps a h'
            | (h', Ok NotHello) \<Rightarrow> route False s t ps a h'
            | (h', Ok Queued) \<Rightarrow> (h', True)
            | (h', Err e) \<Rightarrow> (h', True)
            | (h', Panic) \<Rightarrow> (h', False))
         else route False s t ps a h)
    | Err _ \<Rightarrow> (h, True)
    | Panic \<Rightarrow> (h, False))"
proof (cases "from_bytes d")
  case (Ok ps)
  then have "ps \<noteq> []" using from_bytes_iff by blast
  then obtain p qs where "ps = p # qs" by (cases ps) auto
  with Ok from_bytes_into_eq [of d "[]"] show ?thesis by (simp add: reader_tx_step_def Let_def)
qed (use from_bytes_into_eq [of d "[]"] in \<open>auto simp: reader_tx_step_def\<close>)

text \<open>C10. Connections are isolated: whatever datagram arrives, the host-wide receive worker leaves the registry alone and
  changes at most the buffers of the one registered connection the datagram is routed to, which is selected by
  the ids in its first packet or, for a client hello, by the oldest waiting \<open>accept()\<close>.\<close>

theorem reader_tx_isolation:
  "conn_manager (fst (reader_tx_step (Ok (d, a)) h)) = conn_manager h \<and>
   (\<forall>r. target d h \<noteq> Some r \<longrightarrow> store (fst (reader_tx_step (Ok (d, a)) h)) r = store h r)"
proof (cases "from_bytes d")
  case (Ok ps)
  then obtain p qs where ps: "ps = p # qs" using from_bytes_iff [of d ps] by (cases ps) auto
  obtain h1 act where h1: "handle_hello_single p a h = (h1, act)" by fastforce
  note f = handle_hello_frame [OF h1]
  show ?thesis
  proof (cases "qs = []")
    case False
    then have "target d h = conn_manager h (destination_connection_id (header p), source_connection_id (header p))"
      using Ok ps by (simp add: target_def split: list.splits)
    with False Ok ps route_effect show ?thesis by (simp add: reader_tx_step_eq Let_def build_conn_buff_key_def)
  next
    case True
    show ?thesis
    proof (cases "is_hello_packet (host_kind h) p")
      case False
      then have "act = Ok NotHello" "h1 = h" using h1 by (simp_all add: handle_hello_single_def)
      with False True Ok ps h1 route_effect show ?thesis
        by (simp add: reader_tx_step_eq target_def build_conn_buff_key_def)
    next
      case hello: True
      show ?thesis
      proof (cases "host_kind h")
        case PackLeader
        show ?thesis
        proof (cases "pending_accept_ids (hello_state h)")
          case Nil
          then have "act = Ok Queued" using hello PackLeader h1 by (auto simp: handle_hello_single_def Let_def split: if_splits)
          with True Ok ps h1 f show ?thesis by (simp add: reader_tx_step_eq)
        next
          case (Cons i ids)
          then have "act = Ok (Routed i)" using hello PackLeader h1 by (auto simp: handle_hello_single_def Let_def)
          moreover have "target d h = conn_manager h (i, 0)" using Ok ps True hello PackLeader Cons by (simp add: target_def)
          ultimately show ?thesis
            using True Ok ps h1 f PackLeader route_effect [where h = h1] by (simp add: reader_tx_step_eq build_conn_buff_key_def)
        qed
      next
        case PackFollower
        with hello True Ok ps h1 f show ?thesis by (auto simp: reader_tx_step_eq handle_hello_single_def)
      next
        case Client
        with hello True Ok ps h1 f route_effect [where h = h1] show ?thesis
          by (auto simp: reader_tx_step_eq target_def build_conn_buff_key_def handle_hello_single_def)
      qed
    qed
  qed
qed (simp_all add: reader_tx_step_eq)

definition sample_host :: "BluefinHost \<Rightarrow> Host" where
  "sample_host k = \<lparr>conn_manager = Map.empty((3, 0) \<mapsto> 1), store = (\<lambda>_. sample_bufs), hello_state = hello_state_new, host_kind = k\<rparr>"

theorem reader_tx_isolation_witness:
  "target [] (sample_host PackLeader) \<noteq> Some 1 \<and>
   store (fst (reader_tx_step (Ok ([], SocketAddr [] 9)) (sample_host PackLeader))) 1 = sample_bufs"
proof -
  have t: "target [] (sample_host PackLeader) = None" by (simp add: target_def from_bytes_def)
  with reader_tx_isolation [of "[]" "SocketAddr [] 9" "sample_host PackLeader"] show ?thesis
    by (simp add: sample_host_def)
qed

section \<open>Handshake packets\<close>

text \<open>A handshake packet in its slot always comes with an address.\<close>

definition slot_inv :: "ConnectionManagedBuffers \<Rightarrow> bool" where
  "slot_inv b \<longleftrightarrow> (cb_packet (mb_conn b) \<noteq> None \<longrightarrow> cb_addr (mb_conn b) \<noteq> None)"

lemma finish_conn_buffer_slot:
  "slot_inv (fst (finish_conn_buffer i cb b)) \<longleftrightarrow> (cb_packet cb \<noteq> None \<longrightarrow> cb_addr cb \<noteq> None)"
  by (simp add: finish_conn_buffer_def slot_inv_def set_dst_conn_id_def wake_def Let_def split: option.splits)

lemma buffer_to_conn_buffer_handshake:
  "ish \<or> isc \<Longrightarrow> buffer_to_conn_buffer p a ish isc b = (case conn_buffer_in_packet p (mb_conn b) of
      (cb, Ok _) \<Rightarrow> finish_conn_buffer (source_connection_id (header p)) (fst (buffer_in_addr a cb)) b
    | (cb, r) \<Rightarrow> (b\<lparr>mb_conn := cb\<rparr>, r))"
  "buffer_to_conn_buffer p a False False b = (case buffer_in_bytes p (mb_conn b) of
      (cb, Ok _) \<Rightarrow> finish_conn_buffer (source_connection_id (header p)) cb b
    | (cb, r) \<Rightarrow> (b\<lparr>mb_conn := cb\<rparr>, r))"
  unfolding buffer_to_conn_buffer_def Let_def by auto

lemma conn_buffer_in_packet_result:
  "snd (conn_buffer_in_packet p cb) = (if cb_packet cb = None then Ok ()
     else Err (BufferFullError ''Buffer already contains a packet. Could not buffer another packet.''))"
  "cb_packet cb \<noteq> None \<Longrightarrow> fst (conn_buffer_in_packet p cb) = cb"
  by (simp_all add: conn_buffer_in_packet_def Let_def)

lemma buffer_to_conn_buffer_slot:
  assumes "slot_inv b"
  shows "slot_inv (fst (buffer_to_conn_buffer p a ish isc b))"
proof (cases "ish \<or> isc")
  case False
  obtain cb r where b: "buffer_in_bytes p (mb_conn b) = (cb, r)" by fastforce
  then have "cb_packet cb = cb_packet (mb_conn b)" "cb_addr cb = cb_addr (mb_conn b)"
    by (auto simp: buffer_in_bytes_def split: prod.splits)
  with False b assms show ?thesis
    by (cases r) (simp_all add: buffer_to_conn_buffer_handshake(2) finish_conn_buffer_slot, simp_all add: slot_inv_def)
next
  case True
  obtain cb r where c: "conn_buffer_in_packet p (mb_conn b) = (cb, r)" by fastforce
  note res = conn_buffer_in_packet_result [where p = p and cb = "mb_conn b", unfolded c fst_conv snd_conv]
  show ?thesis
  proof (cases "cb_packet (mb_conn b) = None")
    case None: True
    with True c res show ?thesis
      by (simp add: buffer_to_conn_buffer_handshake(1) finish_conn_buffer_slot buffer_in_addr_def)
  next
    case full: False
    with True c res assms show ?thesis by (simp add: buffer_to_conn_buffer_handshake(1))
  qed
qed

lemma buffer_to_ack_buffer_conn: "mb_conn (fst (buffer_to_ack_buffer p b)) = mb_conn b"
  by (simp add: buffer_to_ack_buffer_def wake_def split: prod.splits BluefinResult.splits)

lemma buffer_in_data_slot: "slot_inv b \<Longrightarrow> slot_inv (fst (buffer_in_data ish k p a b))"
  using buffer_to_ack_buffer_conn [of p b] buffer_to_conn_buffer_slot
  by (simp add: buffer_in_data_def Let_def) (simp add: slot_inv_def)

lemma buffer_each_slot: "slot_inv b \<Longrightarrow> slot_inv (fst (buffer_each ish k a ps b))"
proof (induction ps arbitrary: b)
  case (Cons p ps)
  obtain b1 r where b1: "buffer_in_data ish k p a b = (b1, r)" by fastforce
  with buffer_in_data_slot [OF Cons.prems, of ish k p a] have "slot_inv b1" by simp
  with Cons.IH [of b1] b1 show ?case by (cases r) simp_all
qed simp

lemma route_slot: "\<forall>r. slot_inv (store h r) \<Longrightarrow> slot_inv (store (fst (route ish s d ps a h)) r)"
  using buffer_each_slot by (auto simp: route_def Let_def split: option.splits prod.splits) (metis fst_conv)

text \<open>The hello queue is bounded, and is only used while no \<open>accept()\<close> is waiting.\<close>

definition hello_inv :: "HelloState \<Rightarrow> bool" where
  "hello_inv st \<longleftrightarrow> length (hello_queue st) \<le> MAX_QUEUED_HELLOS \<and> (pending_accept_ids st = [] \<or> hello_queue st = [])"

lemma handle_hello_inv:
  "hello_inv (hello_state h) \<Longrightarrow> handle_hello_single p a h = (h', r) \<Longrightarrow> hello_inv (hello_state h')"
  by (auto simp: handle_hello_single_def hello_inv_def Let_def split: if_splits BluefinHost.splits list.splits)

definition host_inv :: "Host \<Rightarrow> bool" where
  "host_inv h \<longleftrightarrow> hello_inv (hello_state h) \<and> (\<forall>r. slot_inv (store h r))"

lemma reader_tx_step_inv:
  assumes "host_inv h"
  shows "host_inv (fst (reader_tx_step recv h))"
proof (cases recv)
  case (Ok da)
  obtain d a where da: "da = (d, a)" by fastforce
  have r: "host_inv (fst (route ish s t ps a h1))" if "host_inv h1" for ish s t ps h1
    using that route_slot [of h1] by (simp add: host_inv_def route_effect)
  show ?thesis
  proof (cases "from_bytes d")
    case parsed: (Ok ps)
    obtain h1 act where h1: "handle_hello_single (hd ps) a h = (h1, act)" by fastforce
    have i1: "host_inv h1"
      using assms handle_hello_inv [OF _ h1] handle_hello_frame [OF h1] by (simp add: host_inv_def)
    show ?thesis
    proof (cases "tl ps = []")
      case True
      then have "reader_tx_step recv h = (h1, True) \<or> reader_tx_step recv h = (h1, False) \<or>
          (\<exists>ish s t. reader_tx_step recv h = route ish s t ps a h1)"
        using Ok da parsed h1 by (auto simp: reader_tx_step_eq Let_def split: BluefinResult.split HelloAction.split)
      with i1 r show ?thesis by fastforce
    next
      case False
      with Ok da parsed assms r show ?thesis by (simp add: reader_tx_step_eq Let_def)
    qed
  qed (use Ok da assms in \<open>simp_all add: reader_tx_step_eq\<close>)
qed (use assms in \<open>simp_all add: reader_tx_step_def\<close>)

section \<open>Data before the handshake\<close>

lemma first_slot_stream:
  assumes "packet_number (header p) = 0"
  shows "fst (buffer_in_packet p (ordered_bytes_new i 0)) = (ordered_bytes_new i 0)\<lparr>packets := (replicate MAX_BUFFER_SIZE None)[0 := Some p]\<rparr>"
    and "snd (buffer_in_packet p (ordered_bytes_new i 0)) = Ok ()"
    and "stream ((ordered_bytes_new i 0)\<lparr>packets := (replicate MAX_BUFFER_SIZE None)[0 := Some p], smallest_packet_number := m\<rparr>) = payload p"
proof -
  obtain k where k: "MAX_BUFFER_SIZE = Suc k" using MAX_BUFFER_SIZE_pos by (cases MAX_BUFFER_SIZE) auto
  show "fst (buffer_in_packet p (ordered_bytes_new i 0)) = (ordered_bytes_new i 0)\<lparr>packets := (replicate MAX_BUFFER_SIZE None)[0 := Some p]\<rparr>"
    "snd (buffer_in_packet p (ordered_bytes_new i 0)) = Ok ()"
    using assms by (simp_all add: buffer_in_packet_def ordered_bytes_new_def Let_def wrap_index_def)
  show "stream ((ordered_bytes_new i 0)\<lparr>packets := (replicate MAX_BUFFER_SIZE None)[0 := Some p], smallest_packet_number := m\<rparr>) = payload p"
    by (simp add: stream_def carried_def contiguous_def view_def ordered_bytes_new_def k takeWhile_replicate)
qed

text \<open>C35. Data sent before the handshake poisons the stream: while a server slot waits for its client hello, a single
  unauthenticated data packet with source id 0 and packet number 0 is accepted into the slot's reassembly
  buffer, and after the hello has set the start number the application's stream begins with that payload,
  although the peer never sent it.\<close>

theorem early_data_poisons:
  assumes "host_kind h = PackLeader" and "conn_manager h (i, 0) = Some r"
    and "pending_accept_ids (hello_state h) = i # ids"
    and "ordered_bytes (mb_conn (store h r)) = ordered_bytes_new i 0" and "cb_packet (mb_conn (store h r)) = None"
    and "\<not> start_packet_number_set (mb_conn (store h r))" and "cb_host_type (mb_conn (store h r)) = PackLeader"
    and "from_bytes d1 = Ok [p]" and "type_field (header p) = UnencryptedData" and "packet_number (header p) = 0"
    and "source_connection_id (header p) = 0" and "destination_connection_id (header p) = i"
    and "from_bytes d2 = Ok [q]" and "is_hello_packet PackLeader q"
  shows "(let h' = fst (reader_tx_step (Ok (d2, a2)) (fst (reader_tx_step (Ok (d1, a1)) h)));
              ob = ordered_bytes (mb_conn (store h' r)) in
    stream ob = payload p \<and> smallest_packet_number ob = packet_number (header q) + 2)"
proof -
  let ?b = "store h r"
  let ?ob = "(ordered_bytes_new i 0)\<lparr>packets := (replicate MAX_BUFFER_SIZE None)[0 := Some p]\<rparr>"
  define b1 where "b1 = fst (buffer_in_data False PackLeader p a1 ?b)"
  have b1: "ordered_bytes (mb_conn b1) = ?ob" "cb_packet (mb_conn b1) = None" "\<not> start_packet_number_set (mb_conn b1)"
      "cb_host_type (mb_conn b1) = PackLeader" "buffer_in_data False PackLeader p a1 ?b = (b1, snd (buffer_in_data False PackLeader p a1 ?b))"
    using assms(4-7,9) first_slot_stream(1,2) [OF assms(10), where i = i]
    by (auto simp: b1_def buffer_in_data_def is_client_ack_packet_def buffer_to_conn_buffer_handshake(2) buffer_in_bytes_def
        finish_conn_buffer_def set_dst_conn_id_def wake_def Let_def split: prod.splits option.splits)
  have np: "snd (buffer_in_data False PackLeader p a1 ?b) \<noteq> Panic"
    using assms(4,9) first_slot_stream(1,2) [OF assms(10), where i = i]
    by (auto simp: buffer_in_data_def is_client_ack_packet_def buffer_to_conn_buffer_handshake(2) buffer_in_bytes_def
        finish_conn_buffer_def Let_def split: prod.splits option.splits)
  define h1 where "h1 = h\<lparr>store := (store h)(r := b1)\<rparr>"
  have nh: "handle_hello_single p a1 h = (h, Ok NotHello)"
    using assms(1,9) by (simp add: handle_hello_single_def is_hello_packet_iff)
  obtain go where "buffer_each False PackLeader a1 [p] ?b = (b1, go)"
    using b1(5) np by (cases "snd (buffer_in_data False PackLeader p a1 ?b)") simp_all
  then have "fst (reader_tx_step (Ok (d1, a1)) h) = h1"
    using assms(1,2,8,11,12) nh
    by (simp add: reader_tx_step_eq route_def build_conn_buff_key_def h1_def del: buffer_each.simps)
  moreover have "handle_hello_single q a2 h1 = (h1\<lparr>hello_state := (hello_state h)\<lparr>pending_accept_ids := ids\<rparr>\<rparr>, Ok (Routed i))"
    using assms(1,3,14) by (simp add: handle_hello_single_def h1_def)
  moreover have "ordered_bytes (mb_conn (fst (buffer_each True PackLeader a2 [q] b1))) =
      ?ob\<lparr>smallest_packet_number := packet_number (header q) + 2\<rparr>"
    using b1(1-4) hello_not_client_ack [OF assms(14)]
    by (simp add: buffer_in_data_def buffer_to_conn_buffer_handshake(1) conn_buffer_in_packet_def finish_conn_buffer_def
        buffer_in_addr_def set_dst_conn_id_def set_start_packet_number_def wake_def get_waker_def Let_def split: option.split)
  ultimately show ?thesis
    using assms(1,2,13) first_slot_stream(3) [OF assms(10), where i = i and m = "packet_number (header q) + 2"]
    by (simp add: reader_tx_step_eq route_def build_conn_buff_key_def h1_def Let_def case_prod_beta del: buffer_each.simps)
qed

definition sample_early :: BluefinPacket where
  "sample_early = \<lparr>header = header_default\<lparr>type_field := UnencryptedData, type_specific_payload := 1, destination_connection_id := 3\<rparr>,
     payload = [66]\<rparr>"

definition sample_hello :: BluefinPacket where
  "sample_hello = \<lparr>header = header_default\<lparr>type_field := UnencryptedClientHello, source_connection_id := 8, packet_number := 50\<rparr>, payload = []\<rparr>"

lemma sample_parses:
  "from_bytes (frames [sample_early]) = Ok [sample_early]" "from_bytes (frames [sample_hello]) = Ok [sample_hello]"
  by (subst from_bytes_iff, simp add: sample_early_def sample_hello_def header_default_def wire_packet_def packet_valid_def
      header_valid_def security_valid_def security_default_def empty_data_def header_only_def)+

theorem early_data_poisons_witness:
  "(let h = (sample_host PackLeader)\<lparr>hello_state := \<lparr>pending_accept_ids = [3], hello_queue = []\<rparr>\<rparr>; a = SocketAddr [] 9;
        h' = fst (reader_tx_step (Ok (frames [sample_hello], a)) (fst (reader_tx_step (Ok (frames [sample_early], a)) h)))
    in stream (ordered_bytes (mb_conn (store h' 1))) = [66])"
proof -
  let ?h = "(sample_host PackLeader)\<lparr>hello_state := \<lparr>pending_accept_ids = [3], hello_queue = []\<rparr>\<rparr>"
  have *: "host_kind ?h = PackLeader" "conn_manager ?h (3, 0) = Some 1" "pending_accept_ids (hello_state ?h) = 3 # []"
    "ordered_bytes (mb_conn (store ?h 1)) = ordered_bytes_new 3 0" "cb_packet (mb_conn (store ?h 1)) = None"
    "\<not> start_packet_number_set (mb_conn (store ?h 1))" "cb_host_type (mb_conn (store ?h 1)) = PackLeader"
    by (simp_all add: sample_host_def sample_bufs_def connection_buffer_new_def)
  have **: "type_field (header sample_early) = UnencryptedData" "packet_number (header sample_early) = 0"
    "source_connection_id (header sample_early) = 0" "destination_connection_id (header sample_early) = 3"
    "is_hello_packet PackLeader sample_hello" "payload sample_early = [66]"
    by (simp_all add: sample_early_def sample_hello_def header_default_def is_hello_packet_iff)
  show ?thesis
    using early_data_poisons [OF * sample_parses(1) **(1-4) sample_parses(2) **(5), of "SocketAddr [] 9" "SocketAddr [] 9"] **(6)
    by (simp add: Let_def)
qed

end
