(* ===== verification/Connection.thy ===== *)
theory Connection
  imports Reader_Rx Reader_Tx
begin

text \<open>
  \<open>bluefin/src/net/connection.rs\<close>, \<open>BluefinConnection\<close>: building a connection from the buffers of a handshake, the
  application's calls, and the graceful close. The reader channel of the record holds the buffers and the
  writer that all parts of a connection share; the registry is that of the host (\<open>conn_manager\<close>), passed along.
  \<open>close()\<close> waits at several points; what the receive path does to the close buffer at each of them, whether
  the timer fires first, and how the socket answers, are arguments.
\<close>

record BluefinConnection =
  bc_src_conn_id :: u32
  bc_dst_conn_id :: u32
  bc_rx :: ReaderRxChannel
  bc_diag_rx :: bool
  bc_version :: u8
  bc_security_fields :: BluefinSecurityFields

abbreviation bc_writer :: "BluefinConnection \<Rightarrow> Writer" where
  "bc_writer c \<equiv> rx_writer (bc_rx c)"

abbreviation bc_close :: "BluefinConnection \<Rightarrow> CloseBuffer" where
  "bc_close c \<equiv> mb_close (rx_bufs (bc_rx c))"

definition set_writer :: "Writer \<Rightarrow> BluefinConnection \<Rightarrow> BluefinConnection" where
  "set_writer w c = c\<lparr>bc_rx := (bc_rx c)\<lparr>rx_writer := w\<rparr>\<rparr>"

definition set_close :: "CloseBuffer \<Rightarrow> BluefinConnection \<Rightarrow> BluefinConnection" where
  "set_close cl c = c\<lparr>bc_rx := (bc_rx c)\<lparr>rx_bufs := (rx_bufs (bc_rx c))\<lparr>mb_close := cl\<rparr>\<rparr>\<rparr>"

text \<open>\<open>connected\<close> is whether the connected socket could be made.\<close>

definition connection_new :: "u32 \<Rightarrow> u32 \<Rightarrow> u64 \<Rightarrow> ConnectionManagedBuffers \<Rightarrow> bool \<Rightarrow> bool \<Rightarrow> BluefinConnection BluefinResult" where
  "connection_new src_conn_id dst_conn_id next_send_packet_num b diagnostics connected =
     (let diag = (if diagnostics then Some \<lparr>chan_bound = Some 256, chan_open = True, chan_queue = []\<rparr> else None) in
      if \<not> connected then Panic
      else
        (let writer_handler = writer_start ((writer_new next_send_packet_num src_conn_id dst_conn_id)\<lparr>diag_tx := diag\<rparr>);
             fin_ack_tx = \<lparr>chan_bound = Some 8, chan_open = True, chan_queue = []\<rparr>;
             conn_bufs = b\<lparr>mb_fin_ack_tx := Some fin_ack_tx, mb_diag_tx := diag\<rparr> in
         Ok \<lparr>bc_src_conn_id = src_conn_id, bc_dst_conn_id = dst_conn_id,
             bc_rx = reader_rx_new conn_bufs writer_handler diag, bc_diag_rx = diagnostics,
             bc_version = 0, bc_security_fields = security_default\<rparr>))"

text \<open>The drainer task of \<open>new\<close>: one FIN-ACK request from the channel onto the wire.\<close>

definition fin_ack_drain :: "string option \<Rightarrow> BluefinConnection \<Rightarrow> BluefinConnection option" where
  "fin_ack_drain io c = (case mb_fin_ack_tx (rx_bufs (bc_rx c)) of
      Some tx \<Rightarrow>
        (case chan_queue tx of
           pn # q \<Rightarrow>
             (let c1 = c\<lparr>bc_rx := (bc_rx c)\<lparr>rx_bufs := (rx_bufs (bc_rx c))\<lparr>mb_fin_ack_tx := Some (tx\<lparr>chan_queue := q\<rparr>)\<rparr>\<rparr>\<rparr> in
              Some (case send_fin_ack io pn (bc_writer c1) of Ok w \<Rightarrow> set_writer w c1 | _ \<Rightarrow> c1))
         | [] \<Rightarrow> None)
    | None \<Rightarrow> None)"

definition conn_recv :: "Bytes \<Rightarrow> usize \<Rightarrow> BluefinConnection \<Rightarrow> BluefinConnection \<times> Bytes \<times> usize BluefinResult" where
  "conn_recv buf len c = (case reader_read len buf (bc_rx c) of
      (rx, buf', r) \<Rightarrow> (c\<lparr>bc_rx := rx\<rparr>, buf', bind_res r (\<lambda>(size, _). Ok (unat size))))"

definition conn_recv_bytes :: "Bytes list \<Rightarrow> usize \<Rightarrow> BluefinConnection \<Rightarrow> BluefinConnection \<times> Bytes list \<times> usize BluefinResult" where
  "conn_recv_bytes out max_packets c = (case reader_read_bytes out max_packets (bc_rx c) of
      (rx, out', r) \<Rightarrow> (c\<lparr>bc_rx := rx\<rparr>, out', bind_res r (\<lambda>(size, _). Ok (unat size))))"

definition conn_send :: "Bytes \<Rightarrow> BluefinConnection \<Rightarrow> BluefinConnection \<times> usize BluefinResult" where
  "conn_send buf c = (case send_data buf (bc_writer c) of (w, r) \<Rightarrow> (set_writer w c, r))"

definition conn_send_bytes :: "Bytes \<Rightarrow> BluefinConnection \<Rightarrow> BluefinConnection \<times> usize BluefinResult" where
  "conn_send_bytes data c = (case send_bytes data (bc_writer c) of (w, r) \<Rightarrow> (set_writer w c, r))"

definition conn_send_bytes_async :: "Bytes \<Rightarrow> BluefinConnection \<Rightarrow> BluefinConnection \<times> usize BluefinResult option" where
  "conn_send_bytes_async data c = (case send_bytes_async data (bc_writer c) of (w, r) \<Rightarrow> (set_writer w c, r))"

definition conn_flush_ready :: "BluefinConnection \<Rightarrow> bool" where
  "conn_flush_ready c = flush_ready (bc_writer c)"

definition deregister_from_conn_manager :: "BluefinConnection \<Rightarrow> Host \<Rightarrow> Host" where
  "deregister_from_conn_manager c h =
     h\<lparr>conn_manager := (conn_manager h)((bc_src_conn_id c, bc_dst_conn_id c) := None)\<rparr>"

definition conn_is_closed :: "BluefinConnection \<Rightarrow> bool" where
  "conn_is_closed c \<longleftrightarrow> close_state (bc_close c) = Closed"

section \<open>The application's reads\<close>

text \<open>A connection is a source of bytes: \<open>recv\<close> into a fresh buffer, keeping the bytes it reports.\<close>

definition conn_read :: "usize \<Rightarrow> BluefinConnection \<Rightarrow> BluefinConnection \<times> Bytes" where
  "conn_read n c = (case conn_recv (replicate n 0) n c of
      (c', buf, Ok k) \<Rightarrow> (c', take k buf)
    | (c', buf, _) \<Rightarrow> (c', []))"

definition conn_stream :: "BluefinConnection \<Rightarrow> Bytes" where
  "conn_stream c = stream (rx_ordered (bc_rx c))"

definition conn_source :: "BluefinConnection \<Rightarrow> bool" where
  "conn_source c \<longleftrightarrow> conn_wf (mb_conn (rx_bufs (bc_rx c))) \<and> cb_addr (mb_conn (rx_bufs (bc_rx c))) \<noteq> None \<and>
     length (conn_stream c) < 2 ^ 64"

lemma reader_read_addr:
  assumes "reader_read n buf rx = (rx', buf', r)"
  shows "cb_addr (mb_conn (rx_bufs rx')) = cb_addr (mb_conn (rx_bufs rx))"
  using assms
  by (auto simp: reader_read_def conn_consume_def split: BluefinResult.splits option.splits prod.splits)

lemma reader_read_empty:
  assumes "conn_wf (mb_conn (rx_bufs rx))" and "cb_addr (mb_conn (rx_bufs rx)) = Some a" and "0 < n" and "n \<le> length buf"
    and "stream (rx_ordered rx) = []" and "reader_read n buf rx = (rx', buf', r)"
  shows "stream (rx_ordered rx') = [] \<and> (r = Ok (0, a) \<or> r = Panic \<or> (\<exists>e. r = Err e))"
proof -
  have ow: "ob_wf (rx_ordered rx)" using assms(1) by (simp add: conn_wf_def)
  obtain ob b1 where "consume n buf (rx_ordered rx) = (ob, b1, Err BufferEmptyError)" "stream ob = []"
    using consume_spec [OF ow assms(3,4)] assms(5) by auto
  with assms(2,5,6) show ?thesis
    by (auto simp: reader_read_def conn_consume_def eof_addr_def split: BluefinResult.splits option.splits if_splits)
qed

lemma conn_read_spec:
  assumes "conn_source c" and "0 < n"
  shows "\<exists>c'. conn_read n c = (c', take n (conn_stream c)) \<and> conn_source c' \<and> conn_stream c' = drop n (conn_stream c)"
proof -
  let ?rx = "bc_rx c" and ?buf = "replicate n (0::u8)" and ?S = "conn_stream c"
  obtain a where a: "cb_addr (mb_conn (rx_bufs ?rx)) = Some a" using assms(1) by (auto simp: conn_source_def)
  have wf: "conn_wf (mb_conn (rx_bufs ?rx))" and short: "length ?S < 2 ^ 64" using assms(1) by (simp_all add: conn_source_def)
  obtain rx' buf' r where r: "reader_read n ?buf ?rx = (rx', buf', r)" using prod_cases3 by blast
  have inv: "conn_wf (mb_conn (rx_bufs rx'))" "cb_addr (mb_conn (rx_bufs rx')) = Some a"
    using reader_read_wf [OF wf _ r] reader_read_addr [OF r] a by simp_all
  have "stream (rx_ordered rx') = drop n ?S \<and> conn_read n c = (c\<lparr>bc_rx := rx'\<rparr>, take n ?S)"
  proof (cases "?S = []")
    case True
    with reader_read_empty [OF wf a assms(2) _ _ r] show ?thesis
      by (auto simp: conn_stream_def conn_read_def conn_recv_def r)
  next
    case False
    have "min n (length ?S) < 2 ^ 64" using short by simp
    then have "unat (of_nat (min n (length ?S)) :: u64) = min n (length ?S)" by (simp add: unat_u64_of_nat)
    moreover obtain rx1 where "reader_read n ?buf ?rx = (rx1, take n ?S @ drop (length (take n ?S)) ?buf, Ok (of_nat (min n (length ?S)), a))"
      "stream (rx_ordered rx1) = drop n ?S"
      by (rule reader_read_stream [OF wf a assms(2), of ?buf]) (use False in \<open>simp_all add: conn_stream_def\<close>)
    ultimately show ?thesis using r by (auto simp: conn_read_def conn_recv_def min_def)
  qed
  with inv short show ?thesis
    by (intro exI [of _ "c\<lparr>bc_rx := rx'\<rparr>"]) (simp add: conn_source_def conn_stream_def)
qed

interpretation application: byte_source conn_source conn_stream conn_read
proof unfold_locales
  fix c n assume "conn_source c" "(0::nat) < n"
  from conn_read_spec [OF this] show "conn_source (fst (conn_read n c))" "snd (conn_read n c) = take n (conn_stream c)"
    "conn_stream (fst (conn_read n c)) = drop n (conn_stream c)" by auto
qed

section \<open>Closing\<close>

text \<open>What happens around one FIN: the socket's answer, the events before the first check, whether the wait is
  ended by a notification rather than the timer, and the events during the wait.\<close>

record fin_attempt =
  att_io :: "string option"
  att_before :: "close_event list"
  att_notified :: bool
  att_wait :: "close_event list"

definition MAX_FIN_ATTEMPTS :: usize where
  "MAX_FIN_ATTEMPTS = 3"

definition apply_events :: "close_event list \<Rightarrow> CloseBuffer \<Rightarrow> CloseBuffer" where
  "apply_events evs cl = fold (\<lambda>ev cl. fst (close_apply ev cl)) evs cl"

definition finish_close :: "BluefinConnection \<Rightarrow> Host \<Rightarrow> BluefinConnection \<times> Host" where
  "finish_close c h = (set_close (mark_closed (bc_close c)) c, deregister_from_conn_manager c h)"

text \<open>The \<open>for\<close> loop of \<open>close\<close>, over the attempts that are left.\<close>

fun close_loop :: "fin_attempt list \<Rightarrow> u64 \<Rightarrow> BluefinConnection \<Rightarrow> Host \<Rightarrow> BluefinConnection \<times> Host \<times> unit BluefinResult" where
  "close_loop [] fin_pn c h =
     (case finish_close c h of (c', h') \<Rightarrow>
        (c', h', Err (TimedOut ''close: peer did not send FinAck within retransmit budget'')))"
| "close_loop (att # atts) fin_pn c h = (case send_fin (att_io att) fin_pn (bc_writer c) of
      Err e \<Rightarrow> (c, h, Err e)
    | Panic \<Rightarrow> (c, h, Panic)
    | Ok w \<Rightarrow>
        (let c1 = set_close (apply_events (att_before att) (bc_close c)) (set_writer w c) in
         if received_fin_ack_for (bc_close c1) = Some fin_pn
         then (case finish_close c1 h of (c', h') \<Rightarrow> (c', h', Ok ()))
         else
           (let c2 = set_close (apply_events (att_wait att) (bc_close c1)) c1 in
            if att_notified att \<and> received_fin_ack_for (bc_close c2) = Some fin_pn
            then (case finish_close c2 h of (c', h') \<Rightarrow> (c', h', Ok ()))
            else close_loop atts fin_pn c2 h)))"

text \<open>\<open>close\<close> from the moment its \<open>flush\<close> returns.\<close>

definition conn_close :: "(nat \<Rightarrow> fin_attempt) \<Rightarrow> BluefinConnection \<Rightarrow> Host \<Rightarrow> BluefinConnection \<times> Host \<times> unit BluefinResult" where
  "conn_close env c h =
     (let c1 = set_writer (writer_mark_closed (bc_writer c)) c;
          (w2, fin_pn) = reserve_close_packet_num (bc_writer c1);
          c2 = set_writer w2 c1;
          c3 = set_close (record_local_fin_sent fin_pn (bc_close c2)) c2 in
      close_loop (map env [0..<MAX_FIN_ATTEMPTS]) fin_pn c3 h)"

lemma set_simps [simp]:
  "bc_writer (set_writer w c) = w" "bc_close (set_writer w c) = bc_close c"
  "bc_writer (set_close cl c) = bc_writer c" "bc_close (set_close cl c) = cl"
  "bc_src_conn_id (set_writer w c) = bc_src_conn_id c" "bc_dst_conn_id (set_writer w c) = bc_dst_conn_id c"
  "bc_src_conn_id (set_close cl c) = bc_src_conn_id c" "bc_dst_conn_id (set_close cl c) = bc_dst_conn_id c"
  by (simp_all add: set_writer_def set_close_def)

text \<open>The FIN datagram of a writer.\<close>

definition fin_datagram :: "Writer \<Rightarrow> u64 \<Rightarrow> SentDatagram" where
  "fin_datagram w n = ControlDatagram (header_serialise (with_packet_number n
     (header_new (wr_src_conn_id w) (wr_dst_conn_id w) Fin 0 security_default)))"

lemma send_fin_cases:
  "send_fin io n w = (case io of
      None \<Rightarrow> Ok (w\<lparr>sent := sent w @ [fin_datagram w n], diag_tx := diag_try_send (diag_tx w) (FinSent n)\<rparr>)
    | Some e \<Rightarrow> Err (StdIoError e))"
  by (simp add: send_fin_def send_control_packet_eq fin_datagram_def split: option.split)

text \<open>Everything the close loop guarantees, for any number of attempts.\<close>

definition close_verdict :: "nat \<Rightarrow> nat \<Rightarrow> u64 \<Rightarrow> Host \<Rightarrow> Host \<Rightarrow> CloseBuffer \<Rightarrow> Host \<Rightarrow> unit BluefinResult \<Rightarrow> bool" where
  "close_verdict m k n gone h cl h' r = (case r of
      Ok _ \<Rightarrow> 0 < k \<and> close_state cl = Closed \<and> received_fin_ack_for cl = Some n \<and> h' = gone
    | Err (TimedOut _) \<Rightarrow> k = m \<and> close_state cl = Closed \<and> h' = gone
    | Err (StdIoError _) \<Rightarrow> k < m \<and> h' = h
    | _ \<Rightarrow> False)"

lemma close_verdict_Suc: "close_verdict m k n gone h cl h' r \<Longrightarrow> close_verdict (Suc m) (Suc k) n gone h cl h' r"
  by (auto simp: close_verdict_def split: BluefinResult.splits BluefinError.splits)

definition close_result :: "nat \<Rightarrow> u64 \<Rightarrow> BluefinConnection \<Rightarrow> Host \<Rightarrow> BluefinConnection \<times> Host \<times> unit BluefinResult \<Rightarrow> bool" where
  "close_result m n c h out = (case out of (c', h', r) \<Rightarrow>
     closed (bc_writer c') = closed (bc_writer c) \<and>
     next_packet_num_shared (bc_writer c') = next_packet_num_shared (bc_writer c) \<and>
     (\<exists>k \<le> m. sent (bc_writer c') = sent (bc_writer c) @ replicate k (fin_datagram (bc_writer c) n) \<and>
        close_verdict m k n (deregister_from_conn_manager c h) h (bc_close c') h' r))"

lemma finish_close_simps:
  "bc_writer (fst (finish_close c h)) = bc_writer c" "close_state (bc_close (fst (finish_close c h))) = Closed"
  "received_fin_ack_for (bc_close (fst (finish_close c h))) = received_fin_ack_for (bc_close c)"
  "snd (finish_close c h) = deregister_from_conn_manager c h"
  by (simp_all add: finish_close_def mark_closed_def)

lemma close_loop_result: "close_result (length atts) n c h (close_loop atts n c h)"
proof (induction atts arbitrary: c)
  case Nil
  show ?case
    using finish_close_simps [of c h] by (simp add: close_result_def close_verdict_def case_prod_beta)
next
  case (Cons att atts)
  show ?case
  proof (cases "att_io att")
    case (Some e)
    then show ?thesis by (simp add: close_result_def close_verdict_def send_fin_cases)
  next
    case None
    define w where "w = (bc_writer c)\<lparr>sent := sent (bc_writer c) @ [fin_datagram (bc_writer c) n],
      diag_tx := diag_try_send (diag_tx (bc_writer c)) (FinSent n)\<rparr>"
    define c1 where "c1 = set_close (apply_events (att_before att) (bc_close c)) (set_writer w c)"
    define c2 where "c2 = set_close (apply_events (att_wait att) (bc_close c1)) c1"
    have f: "send_fin (att_io att) n (bc_writer c) = Ok w" using None by (simp add: send_fin_cases w_def)
    have w1: "bc_writer c1 = w" "bc_writer c2 = w" "deregister_from_conn_manager c1 h = deregister_from_conn_manager c h"
      "deregister_from_conn_manager c2 h = deregister_from_conn_manager c h"
      by (simp_all add: c1_def c2_def deregister_from_conn_manager_def)
    have w_fields: "closed w = closed (bc_writer c)" "next_packet_num_shared w = next_packet_num_shared (bc_writer c)"
      by (simp_all add: w_def)
    have fd: "fin_datagram w n = fin_datagram (bc_writer c) n" by (simp add: fin_datagram_def w_def)
    have ok: "close_result (length (att # atts)) n c h (fst (finish_close d h), snd (finish_close d h), Ok ())"
      if "bc_writer d = w" "received_fin_ack_for (bc_close d) = Some n" "deregister_from_conn_manager d h = deregister_from_conn_manager c h" for d
      unfolding close_result_def
      using that finish_close_simps [of d h] by (auto simp: w_def close_verdict_def intro!: exI [of _ 1])
    have step: "close_loop (att # atts) n c h =
      (if received_fin_ack_for (bc_close c1) = Some n then (fst (finish_close c1 h), snd (finish_close c1 h), Ok ())
       else if att_notified att \<and> received_fin_ack_for (bc_close c2) = Some n
       then (fst (finish_close c2 h), snd (finish_close c2 h), Ok ()) else close_loop atts n c2 h)"
      by (simp add: f c1_def [symmetric] c2_def [symmetric] Let_def case_prod_beta)
    obtain c' h' r where out: "close_loop atts n c2 h = (c', h', r)" using prod_cases3 by blast
    have "close_result (length (att # atts)) n c h (close_loop atts n c2 h)"
    proof -
      from Cons.IH [of c2] obtain k where k: "k \<le> length atts" "sent (bc_writer c') = sent w @ replicate k (fin_datagram w n)"
        "close_verdict (length atts) k n (deregister_from_conn_manager c h) h (bc_close c') h' r"
        "closed (bc_writer c') = closed w" "next_packet_num_shared (bc_writer c') = next_packet_num_shared w"
        unfolding close_result_def out w1 prod.case by blast
      have "sent (bc_writer c') = sent (bc_writer c) @ replicate (Suc k) (fin_datagram (bc_writer c) n)"
        using k(2) fd by (simp add: w_def)
      with k(1,4,5) close_verdict_Suc [OF k(3)] show ?thesis
        unfolding close_result_def out prod.case length_Cons by (metis Suc_le_mono w_fields)
    qed
    with ok [OF w1(1) _ w1(3)] ok [OF w1(2) _ w1(4)] show ?thesis unfolding step by simp
  qed
qed

text \<open>The state in which the loop of \<open>close\<close> starts.\<close>

definition closing :: "BluefinConnection \<Rightarrow> BluefinConnection" where
  "closing c = set_close (record_local_fin_sent (next_packet_num_shared (bc_writer c)) (bc_close c))
     (set_writer ((bc_writer c)\<lparr>closed := True, next_packet_num_shared := next_packet_num_shared (bc_writer c) + 1\<rparr>) c)"

lemma conn_close_eq:
  "conn_close env c h = close_loop (map env [0..<3]) (next_packet_num_shared (bc_writer c)) (closing c) h"
  by (simp add: conn_close_def closing_def reserve_close_packet_num_def writer_mark_closed_def MAX_FIN_ATTEMPTS_def Let_def
      set_writer_def)

lemma closing_simps [simp]:
  "closed (bc_writer (closing c))" "sent (bc_writer (closing c)) = sent (bc_writer c)"
  "next_packet_num_shared (bc_writer (closing c)) = next_packet_num_shared (bc_writer c) + 1"
  "fin_datagram (bc_writer (closing c)) n = fin_datagram (bc_writer c) n"
  "deregister_from_conn_manager (closing c) h = deregister_from_conn_manager c h"
  by (simp_all add: closing_def fin_datagram_def deregister_from_conn_manager_def)


section \<open>The FIN exchange\<close>

lemma close_loop_completes:
  "i < length atts \<Longrightarrow> (\<forall>j \<le> i. att_io (atts ! j) = None) \<Longrightarrow> att_before (atts ! i) = evs @ [FinAckArrives p] \<Longrightarrow>
   packet_number (header p) = n \<Longrightarrow> snd (snd (close_loop atts n c h)) = Ok ()"
proof (induction atts arbitrary: i c)
  case (Cons att atts)
  have "att_io att = None" using Cons.prems(2) by (metis le0 nth_Cons_0)
  then obtain w where w: "send_fin (att_io att) n (bc_writer c) = Ok w" by (simp add: send_fin_cases)
  show ?case
  proof (cases i)
    case 0
    then have "received_fin_ack_for (apply_events (att_before att) (bc_close c)) = Some n"
      using Cons.prems(3,4) by (simp add: apply_events_def buffer_in_fin_ack_def)
    with w show ?thesis by (simp add: Let_def case_prod_beta)
  next
    case (Suc j)
    have "\<forall>ja \<le> j. att_io (atts ! ja) = None" using Cons.prems(2) Suc by (metis Suc_le_mono nth_Cons_Suc)
    then have "snd (snd (close_loop atts n d h)) = Ok ()" for d
      using Cons.IH [of j d] Cons.prems(1,3,4) Suc by simp
    with w show ?thesis by (simp add: Let_def case_prod_beta)
  qed
qed simp


definition sample_connection :: BluefinConnection where
  "sample_connection = \<lparr>bc_src_conn_id = 3, bc_dst_conn_id = 4, bc_rx = reader_rx_new sample_bufs (writer_start (writer_new 7 3 4)) None,
     bc_diag_rx = False, bc_version = 0, bc_security_fields = security_default\<rparr>"


text \<open>A control datagram parses back to its packet.\<close>

definition control_packet :: "PacketType \<Rightarrow> u32 \<Rightarrow> u32 \<Rightarrow> u64 \<Rightarrow> BluefinPacket" where
  "control_packet t src dst n = \<lparr>header = with_packet_number n (header_new src dst t 0 security_default), payload = []\<rparr>"

lemma control_parses:
  assumes "header_only t"
  shows "parses (Ok (header_serialise (with_packet_number n (header_new src dst t 0 security_default)))) = Some [control_packet t src dst n]"
proof -
  have "from_bytes (frames [control_packet t src dst n]) = Ok [control_packet t src dst n]"
    using assms by (subst from_bytes_iff) (simp add: control_packet_def with_packet_number_def header_new_def wire_packet_def
        packet_valid_def header_valid_def security_valid_def security_default_def empty_data_def)
  then show ?thesis by (simp add: parses_def frames_def control_packet_def packet_serialise_def)
qed



end
