(* ===== verification/Workers.thy ===== *)
theory Workers
  imports Connection
begin

text \<open>
  The helpers of \<open>bluefin/src/net/mod.rs\<close> that start workers: the receive workers of a host, the receive tasks of a
  connection, and the consumers of its acknowledgements. A started worker is the state it runs on; what the workers
  share (socket, registry, hello state) is the host they step.
\<close>

record ReaderTxChannel =
  tx_id :: u16
  tx_host_type :: BluefinHost

definition reader_tx_new :: "BluefinHost \<Rightarrow> ReaderTxChannel" where
  "reader_tx_new host_type = \<lparr>tx_id = 0, tx_host_type = host_type\<rparr>"

definition build_and_start_tx :: "u16 \<Rightarrow> BluefinHost \<Rightarrow> ReaderTxChannel list" where
  "build_and_start_tx num_tx_workers host_type =
     map (\<lambda>i. (reader_tx_new host_type)\<lparr>tx_id := of_nat i\<rparr>) [0..<unat num_tx_workers]"

text \<open>With one task the datagrams are buffered in line, with more they go through the channel.\<close>

datatype conn_reader = InLine ConnectionManagedBuffers | Pipelined ConnReader

definition build_and_start_conn_reader_tx_channels :: "target_os \<Rightarrow> usize option \<Rightarrow> ConnectionManagedBuffers \<Rightarrow> conn_reader" where
  "build_and_start_conn_reader_tx_channels tgt available_parallelism b =
     (let n = get_number_of_tx_tasks tgt available_parallelism in
      if n = 1 then InLine b else Pipelined (conn_reader_start n b))"

definition ack_consumer_new :: "AckBuffer \<Rightarrow> u64 \<Rightarrow> AckConsumer" where
  "ack_consumer_new ab largest = \<lparr>ack_buff = ab, largest_recv_acked_packet_num = largest\<rparr>"

text \<open>All consumers are clones of one: the state they share, and how many there are.\<close>

definition build_and_start_ack_consumer_workers :: "u8 \<Rightarrow> AckBuffer \<Rightarrow> AckConsumer \<times> nat" where
  "build_and_start_ack_consumer_workers num_ack_consumer_workers ab = (ack_consumer_new ab 0, unat num_ack_consumer_workers)"

text \<open>The workers of a host have different ids, for every count that fits.\<close>

lemma tx_workers_distinct:
  "length (build_and_start_tx n host_type) = unat n \<and> distinct (map tx_id (build_and_start_tx n host_type))"
proof -
  have "unat n < 2 ^ 16" using unsigned_less [of n, where 'a = nat] by simp
  then have "inj_on (\<lambda>i. of_nat i :: u16) {0..<unat n}"
    by (auto intro!: inj_onI dest!: arg_cong [of _ _ unat] simp: unat_of_nat)
  then show ?thesis by (simp add: build_and_start_tx_def distinct_map comp_def)
qed

text \<open>A connection always has a receive task: one that buffers in line, or several in front of the channel.\<close>

lemma conn_reader_has_task:
  assumes "available_parallelism \<noteq> Some 0"
  shows "case build_and_start_conn_reader_tx_channels tgt available_parallelism b of
    InLine b' \<Rightarrow> b' = b | Pipelined r \<Rightarrow> 1 < idle_tasks r \<and> conn_bufs r = b"
  using assms
  by (auto simp: build_and_start_conn_reader_tx_channels_def get_number_of_tx_tasks_def conn_reader_start_def
      DEFAULT_NUMBER_OF_TASKS_TO_SPAWN_def Let_def split: target_os.splits option.splits)

end
