(* ===== verification/Std_Text.thy ===== *)
theory Std_Text
  imports Prelude
begin

text \<open>
  The text functions of the Rust standard library that the programs use on their arguments and environment: \<open>trim\<close>,
  \<open>str::parse\<close> for the integer types, and the hexadecimal format specifications of \<open>format!\<close>. Strings are lists of
  ASCII characters. Integer parsing follows \<open>from_str_radix\<close>: an optional sign, at least one digit, digits only, and
  an overflow check at every step; \<open>parse_pos_eq\<close> shows that the stepwise check is the check on the value.
\<close>

section \<open>White space\<close>

definition is_white :: "char \<Rightarrow> bool" where
  "is_white c \<longleftrightarrow> of_char c = (32::nat) \<or> 9 \<le> (of_char c :: nat) \<and> of_char c \<le> (13::nat)"

definition trim :: "string \<Rightarrow> string" where
  "trim s = rev (dropWhile is_white (rev (dropWhile is_white s)))"

lemma trim_id: "s \<noteq> [] \<Longrightarrow> \<not> is_white (hd s) \<Longrightarrow> \<not> is_white (last s) \<Longrightarrow> trim s = s"
proof -
  assume s: "s \<noteq> []" "\<not> is_white (hd s)" "\<not> is_white (last s)"
  then have "dropWhile is_white s = s" by (cases s) auto
  moreover have "dropWhile is_white (rev s) = rev s" using s by (cases "rev s") (auto simp: hd_rev [symmetric])
  ultimately show ?thesis by (simp add: trim_def)
qed

section \<open>Integers\<close>

definition digit_val :: "char \<Rightarrow> int option" where
  "digit_val c = (let n = of_char c :: nat in if 48 \<le> n \<and> n \<le> 57 then Some (int n - 48) else None)"

fun parse_pos :: "int \<Rightarrow> int \<Rightarrow> string \<Rightarrow> int option" where
  "parse_pos mx acc [] = Some acc"
| "parse_pos mx acc (c # cs) = (case digit_val c of
      None \<Rightarrow> None
    | Some d \<Rightarrow> if acc * 10 + d > mx then None else parse_pos mx (acc * 10 + d) cs)"

fun parse_neg :: "int \<Rightarrow> int \<Rightarrow> string \<Rightarrow> int option" where
  "parse_neg mn acc [] = Some acc"
| "parse_neg mn acc (c # cs) = (case digit_val c of
      None \<Rightarrow> None
    | Some d \<Rightarrow> if acc * 10 - d < mn then None else parse_neg mn (acc * 10 - d) cs)"

text \<open>The unsigned types, with their largest value, and \<open>i64\<close>.\<close>

definition parse_unsigned :: "int \<Rightarrow> string \<Rightarrow> int option" where
  "parse_unsigned mx s = (case s of
      [] \<Rightarrow> None
    | c # cs \<Rightarrow> if c = CHR ''+'' then (if cs = [] then None else parse_pos mx 0 cs) else parse_pos mx 0 s)"

definition parse_i64 :: "string \<Rightarrow> int option" where
  "parse_i64 s = (case s of
      [] \<Rightarrow> None
    | c # cs \<Rightarrow>
        if c = CHR ''+'' then (if cs = [] then None else parse_pos (2 ^ 63 - 1) 0 cs)
        else if c = CHR ''-'' then (if cs = [] then None else parse_neg (- (2 ^ 63)) 0 cs)
        else parse_pos (2 ^ 63 - 1) 0 s)"

definition parse_u16 :: "string \<Rightarrow> u16 option" where
  "parse_u16 s = map_option word_of_int (parse_unsigned 65535 s)"

text \<open>The value of a string of digits, without any bound.\<close>

definition digits :: "string \<Rightarrow> bool" where
  "digits s \<longleftrightarrow> list_all (\<lambda>c. digit_val c \<noteq> None) s"

fun value_from :: "int \<Rightarrow> string \<Rightarrow> int" where
  "value_from acc [] = acc"
| "value_from acc (c # cs) = value_from (acc * 10 + the (digit_val c)) cs"

lemma digit_val_range: "digit_val c = Some d \<Longrightarrow> 0 \<le> d \<and> d \<le> 9"
  by (auto simp: digit_val_def Let_def split: if_splits)

lemma value_from_mono: "0 \<le> acc \<Longrightarrow> digits s \<Longrightarrow> acc \<le> value_from acc s"
proof (induction s arbitrary: acc)
  case (Cons c cs)
  then obtain d where d: "digit_val c = Some d" by (auto simp: digits_def)
  with digit_val_range [OF d] Cons.prems have "acc \<le> acc * 10 + d" "digits cs" by (auto simp: digits_def)
  with Cons.IH [of "acc * 10 + d"] Cons.prems(1) d show ?case by simp
qed simp

lemma parse_pos_eq:
  "0 \<le> acc \<Longrightarrow> acc \<le> mx \<Longrightarrow> parse_pos mx acc s = (if digits s \<and> value_from acc s \<le> mx then Some (value_from acc s) else None)"
proof (induction s arbitrary: acc)
  case (Cons c cs)
  show ?case
  proof (cases "digit_val c")
    case None
    then show ?thesis by (simp add: digits_def)
  next
    case (Some d)
    note r = digit_val_range [OF Some]
    have eq: "digits (c # cs) = digits cs" using Some by (simp add: digits_def)
    show ?thesis
    proof (cases "acc * 10 + d \<le> mx")
      case True
      with Cons.IH [of "acc * 10 + d"] Cons.prems r Some eq show ?thesis by simp
    next
      case False
      then have "digits cs \<Longrightarrow> \<not> value_from (acc * 10 + d) cs \<le> mx"
        using value_from_mono [of "acc * 10 + d" cs] Cons.prems r by linarith
      with False Some eq show ?thesis by auto
    qed
  qed
qed (simp add: digits_def)

lemma parse_unsigned_range: "0 \<le> mx \<Longrightarrow> parse_unsigned mx s = Some v \<Longrightarrow> 0 \<le> v \<and> v \<le> mx"
proof -
  assume mx: "0 \<le> mx" and p: "parse_unsigned mx s = Some v"
  have "parse_pos mx 0 s' = Some v \<Longrightarrow> 0 \<le> v \<and> v \<le> mx" for s'
    using mx value_from_mono [of 0 s'] by (auto simp: parse_pos_eq split: if_splits)
  with p show ?thesis by (auto simp: parse_unsigned_def simp del: parse_pos.simps split: list.splits if_splits)
qed

section \<open>Decimal and hexadecimal digits\<close>

definition digit_char :: "nat \<Rightarrow> char" where
  "digit_char d = char_of (if d < 10 then 48 + d else 87 + d)"

function decimal :: "nat \<Rightarrow> string" where
  "decimal n = (if n < 10 then [digit_char n] else decimal (n div 10) @ [digit_char (n mod 10)])"
  by pat_completeness auto
termination
  by (relation "measure id") auto

declare decimal.simps [simp del]

lemma digit_val_digit_char: "d < 10 \<Longrightarrow> digit_val (digit_char d) = Some (int d)"
  by (simp add: digit_val_def digit_char_def Let_def)

lemma value_from_append: "value_from acc (s @ t) = value_from (value_from acc s) t"
  by (induction s arbitrary: acc) simp_all

lemma decimal_digits: "digits (decimal n)" "value_from 0 (decimal n) = int n" "decimal n \<noteq> []"
proof (induction n rule: decimal.induct)
  case (1 n)
  {
    case 1
    show ?case using "1.IH"(1) by (subst decimal.simps) (simp add: digits_def digit_val_digit_char)
  next
    case 2
    have "n div 10 * 10 + n mod 10 = n" by simp
    then have "int (n div 10) * 10 + int (n mod 10) = int n" by (metis of_nat_add of_nat_mult of_nat_numeral)
    then show ?case using "1.IH"(2) by (subst decimal.simps) (simp add: value_from_append digit_val_digit_char)
  next
    case 3
    show ?case by (subst decimal.simps) simp
  }
qed

lemma decimal_hd: "hd (decimal n) \<noteq> CHR ''+'' \<and> hd (decimal n) \<noteq> CHR ''-''"
proof -
  have "digit_val (hd (decimal n)) \<noteq> None"
    using decimal_digits(1,3) [of n] by (cases "decimal n") (simp_all add: digits_def)
  then show ?thesis by (auto simp: digit_val_def Let_def)
qed

text \<open>Parsing inverts printing, up to the largest value of the type.\<close>

lemma parse_decimal: "parse_unsigned mx (decimal n) = (if int n \<le> mx then Some (int n) else None)" if "0 \<le> mx"
proof -
  obtain c cs where c: "decimal n = c # cs" "c \<noteq> CHR ''+''" using decimal_digits(3) [of n] decimal_hd [of n] by (cases "decimal n") auto
  then have "parse_unsigned mx (decimal n) = parse_pos mx 0 (decimal n)" by (simp add: parse_unsigned_def)
  with that show ?thesis by (simp add: parse_pos_eq decimal_digits)
qed

lemma parse_u16_decimal: "parse_u16 (decimal (unat (p :: u16))) = Some p"
proof -
  have "uint p < 2 ^ LENGTH(16)" by (rule unsigned_less)
  then show ?thesis by (simp add: parse_u16_def parse_decimal)
qed

function hex :: "nat \<Rightarrow> string" where
  "hex n = (if n < 16 then [digit_char n] else hex (n div 16) @ [digit_char (n mod 16)])"
  by pat_completeness auto
termination
  by (relation "measure id") auto

declare hex.simps [simp del]

text \<open>\<open>{:0wx}\<close>: padded with zeros to at least \<open>w\<close> digits.\<close>

definition fmt_hex :: "nat \<Rightarrow> nat \<Rightarrow> string" where
  "fmt_hex w n = replicate (w - length (hex n)) (digit_char 0) @ hex n"

text \<open>\<open>{:<w}\<close>: padded with blanks on the right.\<close>

definition pad_right :: "nat \<Rightarrow> string \<Rightarrow> string" where
  "pad_right w s = s @ replicate (w - length s) (CHR '' '')"

lemma length_hex: "n < 16 ^ k \<Longrightarrow> 0 < k \<Longrightarrow> length (hex n) \<le> k"
proof (induction n arbitrary: k rule: hex.induct)
  case (1 n)
  show ?case
  proof (cases "n < 16")
    case True
    with "1.prems" show ?thesis by (subst hex.simps) simp
  next
    case False
    then obtain j where k: "k = Suc j" "0 < j" using "1.prems" by (cases k; cases "k - 1") auto
    have "n div 16 < 16 ^ j" using "1.prems" k by (simp add: less_mult_imp_div_less mult.commute)
    with "1.IH" [OF False this k(2)] False k show ?thesis by (subst hex.simps) simp
  qed
qed

lemma length_fmt_hex: "n < 16 ^ w \<Longrightarrow> 0 < w \<Longrightarrow> length (fmt_hex w n) = w"
  using length_hex [of n w] by (simp add: fmt_hex_def)

lemma fmt_hex_byte: "n < 256 \<Longrightarrow> fmt_hex 2 n = [digit_char (n div 16), digit_char (n mod 16)]"
  by (cases "n < 16") (simp_all add: fmt_hex_def hex.simps [of n] hex.simps [of "n div 16"] less_mult_imp_div_less)

end
