(* ===== verification/Handshake.thy ===== *)
theory Handshake
  imports Connection
begin

text \<open>
  \<open>bluefin/src/net/server.rs\<close> and \<open>bluefin/src/net/client.rs\<close>: hosts, \<open>accept()\<close> and \<open>connect()\<close>. Both calls are cut at
  the points where they wait: registering with the host, the arrival of the peer's hello, the end of the
  handshake. The random draws, the address \<open>r\<close> of the newly allocated buffers, the answers of the socket and the
  expiry of the timers are arguments. \<open>sv_sent\<close> and \<open>cl_sent\<close> log what the handshake put on the wire.
\<close>

definition new_buffers :: "BluefinHost \<Rightarrow> u32 \<Rightarrow> u64 \<Rightarrow> DiagnosticEvent channel option \<Rightarrow> ConnectionManagedBuffers" where
  "new_buffers host src_conn_id first_ack diag =
     \<lparr>mb_conn = connection_buffer_new src_conn_id host, mb_ack = ack_buffer_new first_ack, mb_close = close_buffer_new False,
      mb_fin_ack_tx = None, mb_diag_tx = diag, mb_woken = []\<rparr>"

definition host_new :: "BluefinHost \<Rightarrow> Host" where
  "host_new kind = \<lparr>conn_manager = (\<lambda>_. None), store = (\<lambda>_. new_buffers kind 0 0 None), hello_state = hello_state_new, host_kind = kind\<rparr>"

text \<open>Registering and removing entries: \<open>insert\<close> and \<open>remove\<close> of the map return the previous entry.\<close>

definition manager_insert :: "conn_key \<Rightarrow> nat \<Rightarrow> Host \<Rightarrow> Host \<times> nat option" where
  "manager_insert key r h = (h\<lparr>conn_manager := (conn_manager h)(key \<mapsto> r)\<rparr>, conn_manager h key)"

definition manager_remove :: "conn_key \<Rightarrow> Host \<Rightarrow> Host \<times> nat option" where
  "manager_remove key h = (h\<lparr>conn_manager := (conn_manager h)(key := None)\<rparr>, conn_manager h key)"

section \<open>The server\<close>

record BluefinServer =
  sv_socket :: bool
  sv_src_addr :: SocketAddr
  sv_host :: Host
  sv_num_reader_workers :: u16
  sv_diag_tx :: "DiagnosticEvent channel option"
  sv_sent :: "(Bytes \<times> SocketAddr) list"

definition server_new :: "SocketAddr \<Rightarrow> BluefinServer" where
  "server_new a = \<lparr>sv_socket = False, sv_src_addr = a, sv_host = host_new PackLeader, sv_num_reader_workers = 1,
     sv_diag_tx = None, sv_sent = []\<rparr>"

definition server_set_num_reader_workers :: "u16 \<Rightarrow> BluefinServer \<Rightarrow> BluefinServer \<times> unit BluefinResult" where
  "server_set_num_reader_workers n sv =
     (if n = 0 then (sv, Err (Unexpected ''Cannot have zero reader values''))
      else (sv\<lparr>sv_num_reader_workers := n\<rparr>, Ok ()))"

definition server_set_diagnostics :: "DiagnosticEvent channel \<Rightarrow> BluefinServer \<Rightarrow> BluefinServer" where
  "server_set_diagnostics tx sv = sv\<lparr>sv_diag_tx := Some tx\<rparr>"

text \<open>\<open>sock\<close>: whether the socket could be made.\<close>

definition server_bind :: "unit BluefinResult \<Rightarrow> BluefinServer \<Rightarrow> BluefinServer \<times> unit BluefinResult" where
  "server_bind sock sv = (case sock of Ok _ \<Rightarrow> (sv\<lparr>sv_socket := True\<rparr>, Ok ()) | r \<Rightarrow> (sv, r))"

record AcceptTask =
  ac_src_conn_id :: u32
  ac_packet_number :: u64
  ac_ref :: nat
  ac_queued :: "(BluefinPacket \<times> SocketAddr) option"
  ac_dst_conn_id :: u32
  ac_client_packet_num :: u64

text \<open>\<open>accept\<close> up to its first wait.\<close>

definition accept_register :: "u32 \<times> u64 \<Rightarrow> nat \<Rightarrow> BluefinServer \<Rightarrow> BluefinServer \<times> AcceptTask BluefinResult" where
  "accept_register rnd r sv =
     (let (src_conn_id, pn) = rnd;
          h0 = sv_host sv;
          h1 = h0\<lparr>store := (store h0)(r := new_buffers PackLeader src_conn_id (pn + 1) (sv_diag_tx sv))\<rparr>;
          (h2, old) = manager_insert (src_conn_id, 0) r h1 in
      if old \<noteq> None then (sv\<lparr>sv_host := h2\<rparr>, Err ConnectionAlreadyExists)
      else
        (let st = hello_state h2;
             (st', queued_hello) = (case hello_queue st of
                 hello # q \<Rightarrow> (st\<lparr>hello_queue := q\<rparr>, Some hello)
               | [] \<Rightarrow> (st\<lparr>pending_accept_ids := pending_accept_ids st @ [src_conn_id]\<rparr>, None)) in
         (sv\<lparr>sv_host := h2\<lparr>hello_state := st'\<rparr>\<rparr>,
          Ok \<lparr>ac_src_conn_id = src_conn_id, ac_packet_number = pn, ac_ref = r, ac_queued = queued_hello,
              ac_dst_conn_id = 0, ac_client_packet_num = 0\<rparr>)))"

text \<open>A poll of the handshake future on the task's buffers.\<close>

definition host_poll :: "Waker \<Rightarrow> nat \<Rightarrow> Host \<Rightarrow> Host \<times> (BluefinPacket \<times> SocketAddr) option" where
  "host_poll cx r h = (case handshake_poll cx (mb_conn (store h r)) of
      (cb, res) \<Rightarrow> (h\<lparr>store := (store h)(r := (store h r)\<lparr>mb_conn := cb\<rparr>)\<rparr>, res))"

definition accept_poll :: "Waker \<Rightarrow> AcceptTask \<Rightarrow> BluefinServer \<Rightarrow> BluefinServer \<times> (BluefinPacket \<times> SocketAddr) option" where
  "accept_poll cx t sv = (case host_poll cx (ac_ref t) (sv_host sv) of (h, res) \<Rightarrow> (sv\<lparr>sv_host := h\<rparr>, res))"

text \<open>\<open>accept\<close> from the client hello to the wait for the client's ack; \<open>io\<close> is the socket's error, if any.\<close>

definition accept_hello :: "BluefinPacket \<times> SocketAddr \<Rightarrow> string option \<Rightarrow> AcceptTask \<Rightarrow> BluefinServer \<Rightarrow>
    BluefinServer \<times> AcceptTask BluefinResult" where
  "accept_hello hello io t sv =
     (let (p, a) = hello;
          src_conn_id = ac_src_conn_id t;
          dst_conn_id = source_connection_id (header p);
          client_packet_num = packet_number (header p) in
      if client_packet_num = 0 then (sv, Err UnexpectedPacketNumberError)
      else
        (let (h1, gone) = manager_remove (src_conn_id, 0) (sv_host sv) in
         if gone = None then (sv\<lparr>sv_host := h1\<rparr>, Err NoSuchConnectionError)
         else
           (let (h2, old) = manager_insert (src_conn_id, dst_conn_id) (ac_ref t) h1; sv2 = sv\<lparr>sv_host := h2\<rparr> in
            if old \<noteq> None then (sv2, Err ConnectionAlreadyExists)
            else
              (case build_empty_encrypted_packet src_conn_id dst_conn_id (ac_packet_number t) UnencryptedServerHello of
                 Err e \<Rightarrow> (sv2, Err e)
               | Panic \<Rightarrow> (sv2, Panic)
               | Ok reply \<Rightarrow>
                   if \<not> sv_socket sv2 then (sv2, Panic)
                   else (case io of
                       Some e \<Rightarrow> (sv2, Err (StdIoError e))
                     | None \<Rightarrow> (sv2\<lparr>sv_sent := sv_sent sv2 @ [(packet_serialise reply, a)]\<rparr>,
                         Ok (t\<lparr>ac_dst_conn_id := dst_conn_id, ac_client_packet_num := client_packet_num\<rparr>)))))))"

text \<open>The end of \<open>accept\<close>, on what its wait for the ack yielded before the timer fired.\<close>

definition accept_finish :: "(BluefinPacket \<times> SocketAddr) option \<Rightarrow> bool \<Rightarrow> AcceptTask \<Rightarrow> BluefinServer \<Rightarrow>
    BluefinConnection BluefinResult" where
  "accept_finish ack connected t sv =
     bind_res (read_with_timeout ack) (\<lambda>(client_ack, _).
       if packet_number (header client_ack) \<noteq> ac_client_packet_num t + 1 then Err UnexpectedPacketNumberError
       else connection_new (ac_src_conn_id t) (ac_dst_conn_id t) (ac_packet_number t + 1) (store (sv_host sv) (ac_ref t))
         (sv_diag_tx sv \<noteq> None) connected)"

section \<open>The client\<close>

record BluefinClient =
  cl_socket :: bool
  cl_src_addr :: SocketAddr
  cl_dst_addr :: "SocketAddr option"
  cl_host :: Host
  cl_num_reader_workers :: u16
  cl_handshake_handler :: HandshakeHandler
  cl_diag_tx :: "DiagnosticEvent channel option"
  cl_sent :: "(Bytes \<times> SocketAddr) list"

definition client_new :: "SocketAddr \<Rightarrow> BluefinClient BluefinResult" where
  "client_new a = bind_res (handshake_new Client) (\<lambda>hs.
     Ok \<lparr>cl_socket = False, cl_src_addr = a, cl_dst_addr = None, cl_host = host_new Client, cl_num_reader_workers = 1,
         cl_handshake_handler = hs, cl_diag_tx = None, cl_sent = []\<rparr>)"

definition client_set_num_reader_workers :: "u16 \<Rightarrow> BluefinClient \<Rightarrow> BluefinClient \<times> unit BluefinResult" where
  "client_set_num_reader_workers n cl =
     (if n = 0 then (cl, Err (Unexpected ''Cannot have zero reader values''))
      else (cl\<lparr>cl_num_reader_workers := n\<rparr>, Ok ()))"

definition client_set_diagnostics :: "DiagnosticEvent channel \<Rightarrow> BluefinClient \<Rightarrow> BluefinClient" where
  "client_set_diagnostics tx cl = cl\<lparr>cl_diag_tx := Some tx\<rparr>"

record ConnectTask =
  ct_src_conn_id :: u32
  ct_packet_number :: u64
  ct_ref :: nat

text \<open>\<open>connect\<close> up to the wait for the server hello.\<close>

definition connect_start :: "unit BluefinResult \<Rightarrow> u32 \<times> u64 \<Rightarrow> u32 \<times> u64 \<Rightarrow> nat \<Rightarrow> SocketAddr \<Rightarrow> string option \<Rightarrow> BluefinClient \<Rightarrow>
    BluefinClient \<times> ConnectTask BluefinResult" where
  "connect_start sock hs_rnd rnd r dst_addr io cl = (case sock of
      Err e \<Rightarrow> (cl, Err e)
    | Panic \<Rightarrow> (cl, Panic)
    | Ok _ \<Rightarrow>
        (let cl1 = cl\<lparr>cl_socket := True, cl_dst_addr := Some dst_addr\<rparr>;
             (hs, begun) = handshake_begin hs_rnd (cl_handshake_handler cl1);
             cl2 = cl1\<lparr>cl_handshake_handler := hs\<rparr> in
         case begun of
           Err e \<Rightarrow> (cl2, Err e)
         | Panic \<Rightarrow> (cl2, Panic)
         | Ok _ \<Rightarrow>
             (let (src_conn_id, pn) = rnd;
                  h0 = cl_host cl2;
                  h1 = h0\<lparr>store := (store h0)(r := new_buffers Client src_conn_id (pn + 2) (cl_diag_tx cl2)), hello_state := hello_state_new\<rparr>;
                  (h2, old) = manager_insert (src_conn_id, 0) r h1;
                  cl3 = cl2\<lparr>cl_host := h2\<rparr> in
              if old \<noteq> None then (cl3, Err ConnectionAlreadyExists)
              else
                (case build_empty_encrypted_packet src_conn_id 0 pn UnencryptedClientHello of
                   Err e \<Rightarrow> (cl3, Err e)
                 | Panic \<Rightarrow> (cl3, Panic)
                 | Ok hello \<Rightarrow>
                     (case io of
                        Some e \<Rightarrow> (cl3, Err (StdIoError e))
                      | None \<Rightarrow> (cl3\<lparr>cl_sent := cl_sent cl3 @ [(packet_serialise hello, dst_addr)]\<rparr>,
                          Ok \<lparr>ct_src_conn_id = src_conn_id, ct_packet_number = pn, ct_ref = r\<rparr>))))))"

definition connect_poll :: "Waker \<Rightarrow> ConnectTask \<Rightarrow> BluefinClient \<Rightarrow> BluefinClient \<times> (BluefinPacket \<times> SocketAddr) option" where
  "connect_poll cx t cl = (case host_poll cx (ct_ref t) (cl_host cl) of (h, res) \<Rightarrow> (cl\<lparr>cl_host := h\<rparr>, res))"

text \<open>The end of \<open>connect\<close>, on what its wait for the server hello yielded before the timer fired.\<close>

definition connect_finish :: "(BluefinPacket \<times> SocketAddr) option \<Rightarrow> string option \<Rightarrow> bool \<Rightarrow> ConnectTask \<Rightarrow> BluefinClient \<Rightarrow>
    BluefinClient \<times> BluefinConnection BluefinResult" where
  "connect_finish got io connected t cl = (case read_with_timeout got of
      Err e \<Rightarrow> (cl, Err e)
    | Panic \<Rightarrow> (cl, Panic)
    | Ok (server_hello, _) \<Rightarrow>
        (let src_conn_id = ct_src_conn_id t;
             dst_conn_id = source_connection_id (header server_hello);
             server_packet_number = packet_number (header server_hello) in
         if server_packet_number = 0 then (cl, Err UnexpectedPacketNumberError)
         else
           (let (h1, gone) = manager_remove (src_conn_id, 0) (cl_host cl) in
            if gone = None then (cl\<lparr>cl_host := h1\<rparr>, Err NoSuchConnectionError)
            else
              (let (h2, old) = manager_insert (src_conn_id, dst_conn_id) (ct_ref t) h1; cl2 = cl\<lparr>cl_host := h2\<rparr> in
               if old \<noteq> None then (cl2, Err ConnectionAlreadyExists)
               else
                 (case build_empty_encrypted_packet src_conn_id dst_conn_id (ct_packet_number t + 1) ClientAck of
                    Err e \<Rightarrow> (cl2, Err e)
                  | Panic \<Rightarrow> (cl2, Panic)
                  | Ok ack \<Rightarrow>
                      (case (io, cl_dst_addr cl2) of
                         (Some e, _) \<Rightarrow> (cl2, Err (StdIoError e))
                       | (None, None) \<Rightarrow> (cl2, Panic)
                       | (None, Some dst_addr) \<Rightarrow>
                           (cl2\<lparr>cl_sent := cl_sent cl2 @ [(packet_serialise ack, dst_addr)]\<rparr>,
                            connection_new src_conn_id dst_conn_id (ct_packet_number t + 2) (store (cl_host cl2) (ct_ref t))
                              (cl_diag_tx cl2 \<noteq> None) connected)))))))"

text \<open>A datagram reaches a host.\<close>

definition server_recv :: "Bytes \<Rightarrow> SocketAddr \<Rightarrow> BluefinServer \<Rightarrow> BluefinServer" where
  "server_recv d a sv = sv\<lparr>sv_host := fst (reader_tx_step (Ok (d, a)) (sv_host sv))\<rparr>"

definition client_recv :: "Bytes \<Rightarrow> SocketAddr \<Rightarrow> BluefinClient \<Rightarrow> BluefinClient" where
  "client_recv d a cl = cl\<lparr>cl_host := fst (reader_tx_step (Ok (d, a)) (cl_host cl))\<rparr>"

section \<open>A handshake between two fresh hosts\<close>

text \<open>Every step of a handshake in which no datagram is lost, from fresh hosts: the server draws \<open>srv\<close>, the client
  \<open>cli\<close>. When \<open>early\<close> holds, the client hello reaches the server before it calls \<open>accept()\<close>. The result holds the
  server's and the client's connection.\<close>

definition handshake_exchange :: "bool \<Rightarrow> u32 \<times> u64 \<Rightarrow> u32 \<times> u64 \<Rightarrow> SocketAddr \<Rightarrow> SocketAddr \<Rightarrow>
    (BluefinConnection \<times> BluefinConnection) BluefinResult" where
  "handshake_exchange early srv cli sa ca =
     bind_res (client_new ca) (\<lambda>cl0.
       let sv0 = fst (server_bind (Ok ()) (server_new sa));
           (cl1, started) = connect_start (Ok ()) (0, 0) cli 0 sa None cl0 in
       bind_res started (\<lambda>u.
         let hello = fst (last (cl_sent cl1));
             sv1 = (if early then server_recv hello ca sv0 else sv0);
             (sv2, registered) = accept_register srv 0 sv1 in
         bind_res registered (\<lambda>t.
           let (sv3, got) = (case ac_queued t of
                   Some x \<Rightarrow> (sv2, Some x)
                 | None \<Rightarrow> accept_poll 1 t (server_recv hello ca (fst (accept_poll 1 t sv2)))) in
           bind_res (read_with_timeout got) (\<lambda>x.
             let (sv4, greeted) = accept_hello x None t sv3 in
             bind_res greeted (\<lambda>t'.
               let cl2 = client_recv (fst (last (sv_sent sv4))) sa (fst (connect_poll 2 u cl1));
                   (cl3, sh) = connect_poll 2 u cl2;
                   (cl4, connected) = connect_finish sh None True u cl3 in
               bind_res connected (\<lambda>cc.
                 let sv5 = server_recv (fst (last (cl_sent cl4))) ca (fst (accept_poll 1 t' sv4));
                     (sv6, ack) = accept_poll 1 t' sv5 in
                 bind_res (accept_finish ack True t' sv6) (\<lambda>sc. Ok (sc, cc))))))))"

definition hs_packet :: "PacketType \<Rightarrow> u32 \<Rightarrow> u32 \<Rightarrow> u64 \<Rightarrow> BluefinPacket" where
  "hs_packet t s d n = \<lparr>header = \<lparr>version = 0, type_field = t, type_specific_payload = 0,
     security_fields = \<lparr>header_encrypted = False, header_protection_mask = 0\<rparr>,
     source_connection_id = s, destination_connection_id = d, packet_number = n\<rparr>, payload = []\<rparr>"

lemma build_hs_packet: "build_empty_encrypted_packet s d n t = Ok (hs_packet t s d n)"
  by (simp add: build_empty_encrypted_packet_Ok hs_packet_def)

lemma hs_packet_simps [simp]:
  "type_field (header (hs_packet t s d n)) = t" "source_connection_id (header (hs_packet t s d n)) = s"
  "destination_connection_id (header (hs_packet t s d n)) = d" "packet_number (header (hs_packet t s d n)) = n"
  by (simp_all add: hs_packet_def)

lemma hs_packet_parses:
  assumes "header_only t"
  shows "from_bytes (packet_serialise (hs_packet t s d n)) = Ok [hs_packet t s d n]"
proof -
  have "from_bytes (frames [hs_packet t s d n]) = Ok [hs_packet t s d n]"
    using assms by (subst from_bytes_iff) (simp add: hs_packet_def wire_packet_def packet_valid_def header_valid_def
        security_valid_def empty_data_def)
  then show ?thesis by (simp add: frames_def)
qed

lemma hs_header_only: "header_only UnencryptedClientHello" "header_only UnencryptedServerHello" "header_only ClientAck"
  by (simp_all add: header_only_def)

text \<open>What one handshake datagram does to a host.\<close>

lemma buffer_each_single: "fst (buffer_each ish k a [p] b) = fst (buffer_in_data ish k p a b)"
  by (cases "buffer_in_data ish k p a b"; cases "snd (buffer_in_data ish k p a b)") auto

lemma leader_hello_step:
  assumes "host_kind h = PackLeader" and "s \<noteq> 0"
  shows "fst (reader_tx_step (Ok (packet_serialise (hs_packet UnencryptedClientHello s 0 n), a)) h) =
    (case pending_accept_ids (hello_state h) of
       [] \<Rightarrow> (if length (hello_queue (hello_state h)) < MAX_QUEUED_HELLOS
              then h\<lparr>hello_state := (hello_state h)\<lparr>hello_queue := hello_queue (hello_state h) @ [(hs_packet UnencryptedClientHello s 0 n, a)]\<rparr>\<rparr>
              else h)
     | i # ids \<Rightarrow>
         (let h1 = h\<lparr>hello_state := (hello_state h)\<lparr>pending_accept_ids := ids\<rparr>\<rparr> in
          case conn_manager h (i, 0) of
            None \<Rightarrow> h1
          | Some r \<Rightarrow> h1\<lparr>store := (store h)(r := fst (buffer_in_data True PackLeader (hs_packet UnencryptedClientHello s 0 n) a (store h r)))\<rparr>))"
  using assms hs_packet_parses [OF hs_header_only(1)] buffer_each_single
  by (simp add: reader_tx_step_eq handle_hello_single_def is_hello_packet_iff route_def build_conn_buff_key_def Let_def
      case_prod_beta del: buffer_each.simps split: list.split option.split)

lemma client_hello_step:
  assumes "host_kind h = Client" and "s \<noteq> 0" and "d \<noteq> 0" and "conn_manager h (d, 0) = Some r"
  shows "fst (reader_tx_step (Ok (packet_serialise (hs_packet UnencryptedServerHello s d n), a)) h) =
    h\<lparr>store := (store h)(r := fst (buffer_in_data True Client (hs_packet UnencryptedServerHello s d n) a (store h r)))\<rparr>"
  using assms hs_packet_parses [OF hs_header_only(2)] buffer_each_single
  by (simp add: reader_tx_step_eq handle_hello_single_def is_hello_packet_iff route_def build_conn_buff_key_def Let_def
      case_prod_beta del: buffer_each.simps)

lemma client_ack_step:
  assumes "host_kind h = PackLeader" and "conn_manager h (d, s) = Some r"
  shows "fst (reader_tx_step (Ok (packet_serialise (hs_packet ClientAck s d n), a)) h) =
    h\<lparr>store := (store h)(r := fst (buffer_in_data False PackLeader (hs_packet ClientAck s d n) a (store h r)))\<rparr>"
  using assms hs_packet_parses [OF hs_header_only(3)] buffer_each_single
  by (simp add: reader_tx_step_eq handle_hello_single_def is_hello_packet_iff route_def build_conn_buff_key_def Let_def
      case_prod_beta del: buffer_each.simps)

lemmas handshake_defs = client_new_def handshake_new_def server_bind_def server_new_def connect_start_def handshake_begin_def
  host_new_def new_buffers_def manager_insert_def manager_remove_def hello_state_new_def build_hs_packet accept_register_def
  accept_poll_def host_poll_def handshake_poll_def connection_buffer_new_def conn_set_waker_if_changed_def server_recv_def
  client_recv_def connect_poll_def read_with_timeout_def

lemmas buffering_defs = buffer_in_data_def is_client_ack_packet_def buffer_to_conn_buffer_def conn_buffer_in_packet_def
  finish_conn_buffer_def buffer_in_addr_def set_dst_conn_id_def get_waker_def wake_def set_start_packet_number_def

lemma start_new: "set_start_packet_number m (ordered_bytes_new i 0) = ordered_bytes_new i m"
  by (simp add: set_start_packet_number_def ordered_bytes_new_def)

text \<open>The connections the two ends hold after a handshake in which the server expects the client's data from \<open>first\<close> on.\<close>

definition agreed :: "u32 \<times> u64 \<Rightarrow> u32 \<times> u64 \<Rightarrow> u64 \<Rightarrow> BluefinConnection \<Rightarrow> BluefinConnection \<Rightarrow> bool" where
  "agreed srv cli first sc cc \<longleftrightarrow> (case (srv, cli) of ((sid, spn), (cid, cpn)) \<Rightarrow>
     bc_src_conn_id sc = sid \<and> bc_dst_conn_id sc = cid \<and> bc_src_conn_id cc = cid \<and> bc_dst_conn_id cc = sid \<and>
     bc_writer sc = writer_start (writer_new (spn + 1) sid cid) \<and> rx_ordered (bc_rx cc) = ordered_bytes_new cid (spn + 1) \<and>
     bc_writer cc = writer_start (writer_new (cpn + 2) cid sid) \<and> rx_ordered (bc_rx sc) = ordered_bytes_new sid first \<and>
     mb_ack (rx_bufs (bc_rx sc)) = ack_buffer_new (spn + 1) \<and> mb_ack (rx_bufs (bc_rx cc)) = ack_buffer_new (cpn + 2) \<and>
     cb_addr (mb_conn (rx_bufs (bc_rx sc))) \<noteq> None \<and> cb_addr (mb_conn (rx_bufs (bc_rx cc))) \<noteq> None \<and>
     start_packet_number_set (mb_conn (rx_bufs (bc_rx sc))) \<and> start_packet_number_set (mb_conn (rx_bufs (bc_rx cc))) \<and>
     close_state (bc_close sc) = Active \<and> close_state (bc_close cc) = Active)"

lemmas finishing_defs = accept_hello_def connect_finish_def accept_finish_def connection_new_def reader_rx_new_def
  writer_start_def writer_new_def close_buffer_new_def

lemma handshake_outcome:
  assumes "sid \<noteq> 0" and "cid \<noteq> 0" and "spn \<noteq> 0" and "cpn \<noteq> 0"
  shows "\<exists>sc cc. handshake_exchange early (sid, spn) (cid, cpn) sa ca = Ok (sc, cc) \<and>
    agreed (sid, spn) (cid, cpn) (if early then cpn + 3 else cpn + 2) sc cc"
proof (cases early)
  case True
  with assms show ?thesis
    apply (simp add: handshake_exchange_def Let_def handshake_defs leader_hello_step buffering_defs MAX_QUEUED_HELLOS_def)
    apply (simp add: accept_hello_def Let_def handshake_defs leader_hello_step client_hello_step buffering_defs)
    apply (simp add: connect_finish_def client_ack_step Let_def handshake_defs buffering_defs)
    by (simp add: finishing_defs agreed_def Let_def handshake_defs buffering_defs) (simp add: ordered_bytes_new_def)
next
  case False
  with assms show ?thesis
    apply (simp add: handshake_exchange_def Let_def handshake_defs leader_hello_step buffering_defs)
    apply (simp add: accept_hello_def Let_def handshake_defs leader_hello_step client_hello_step buffering_defs)
    apply (simp add: connect_finish_def client_ack_step Let_def handshake_defs buffering_defs)
    by (simp add: finishing_defs agreed_def Let_def handshake_defs buffering_defs) (simp add: ordered_bytes_new_def)
qed



text \<open>C34. A queued hello loses data: when the client hello reaches the server before \<open>accept()\<close> is called, the handshake
  still succeeds on both sides, but the server takes its start number from the client's ack and expects the
  client's data one number too late: it refuses the first data packet of the stream, and reads on from the second.\<close>

theorem queued_hello_loses_data:
  assumes "sid \<noteq> 0" and "cid \<noteq> 0" and "spn \<noteq> 0" and "cpn \<noteq> 0" and "cpn < 2 ^ 64 - 3"
    and "packet_number (header p) = cpn + 2"
  shows "\<exists>sc cc. handshake_exchange True (sid, spn) (cid, cpn) sa ca = Ok (sc, cc) \<and>
    pump_packet_num (bc_writer cc) = packet_number (header p) \<and>
    smallest_packet_number (rx_ordered (bc_rx sc)) = pump_packet_num (bc_writer cc) + 1 \<and>
    buffer_in_packet p (rx_ordered (bc_rx sc)) = (rx_ordered (bc_rx sc), Err UnexpectedPacketNumberError)"
proof -
  obtain sc cc where e: "handshake_exchange True (sid, spn) (cid, cpn) sa ca = Ok (sc, cc)" "agreed (sid, spn) (cid, cpn) (cpn + 3) sc cc"
    using handshake_outcome [OF assms(1-4), of True sa ca] by auto
  have "unat cpn < 2 ^ 64 - 3" using assms(5) by (simp add: word_less_nat_alt)
  then have "cpn + 2 < cpn + 3" by (simp add: word_less_nat_alt unat_word_ariths)
  with e assms(6) show ?thesis
    by (intro exI [of _ sc] exI [of _ cc])
      (simp add: agreed_def ordered_bytes_new_def writer_start_def writer_new_def buffer_in_packet_def Let_def)
qed

theorem queued_hello_loses_data_witness:
  "\<exists>sc cc. handshake_exchange True (3, 70) (4, 50) (SocketAddr [] 1) (SocketAddr [] 2) = Ok (sc, cc) \<and>
     snd (buffer_in_packet (sample_packet 52 [1]) (rx_ordered (bc_rx sc))) = Err UnexpectedPacketNumberError"
proof -
  have "(3::u32) \<noteq> 0" "(4::u32) \<noteq> 0" "(70::u64) \<noteq> 0" "(50::u64) \<noteq> 0" "(50::u64) < 2 ^ 64 - 3"
    "packet_number (header (sample_packet 52 [1])) = 50 + 2" by (simp_all add: sample_packet_def)
  from queued_hello_loses_data [OF this, of "SocketAddr [] 1" "SocketAddr [] 2"] show ?thesis by (metis snd_conv)
qed

section \<open>Executions of a server\<close>

inductive server_run :: "BluefinServer \<Rightarrow> bool" where
  new: "server_run (server_new a)"
| bind: "server_run sv \<Longrightarrow> server_run (fst (server_bind sock sv))"
| recv: "server_run sv \<Longrightarrow> server_run (sv\<lparr>sv_host := fst (reader_tx_step rcv (sv_host sv))\<rparr>)"
| register: "server_run sv \<Longrightarrow> server_run (fst (accept_register rnd r sv))"
| poll: "server_run sv \<Longrightarrow> server_run (fst (accept_poll w t sv))"
| hello: "server_run sv \<Longrightarrow> server_run (fst (accept_hello x io t sv))"
| deregister: "server_run sv \<Longrightarrow> server_run (sv\<lparr>sv_host := deregister_from_conn_manager c (sv_host sv)\<rparr>)"

lemma host_inv_manager [simp]: "host_inv (h\<lparr>conn_manager := m\<rparr>) = host_inv h"
  by (simp add: host_inv_def)

lemma accept_register_inv: "host_inv (sv_host sv) \<Longrightarrow> host_inv (sv_host (fst (accept_register rnd r sv)))"
  by (auto simp: accept_register_def manager_insert_def host_inv_def hello_inv_def slot_inv_def new_buffers_def connection_buffer_new_def
      Let_def split: prod.splits list.splits)

lemma accept_poll_inv:
  assumes "host_inv (sv_host sv)"
  shows "host_inv (sv_host (fst (accept_poll w t sv)))"
proof -
  obtain cb r where p: "handshake_poll w (mb_conn (store (sv_host sv) (ac_ref t))) = (cb, r)" by fastforce
  have "cb_packet cb = None" using handshake_poll_frame [OF p] by simp
  with p assms show ?thesis by (simp add: accept_poll_def host_poll_def host_inv_def slot_inv_def)
qed

lemma accept_hello_inv: "host_inv (sv_host sv) \<Longrightarrow> host_inv (sv_host (fst (accept_hello x io t sv)))"
  by (auto simp: accept_hello_def manager_insert_def manager_remove_def build_hs_packet Let_def split: prod.splits option.splits)

lemma server_run_inv: "server_run sv \<Longrightarrow> host_inv (sv_host sv)"
proof (induction rule: server_run.induct)
  case new
  then show ?case
    by (simp add: server_new_def host_new_def host_inv_def hello_inv_def hello_state_new_def slot_inv_def new_buffers_def connection_buffer_new_def)
next
  case (bind sv sock)
  then show ?case by (cases sock) (simp_all add: server_bind_def)
next
  case recv
  then show ?case by (simp add: reader_tx_step_inv)
next
  case deregister
  then show ?case by (simp add: deregister_from_conn_manager_def)
qed (simp_all add: accept_register_inv accept_poll_inv accept_hello_inv)

text \<open>C21. The server's handshake state stays bounded and consistent: in every execution of a server at most 64 client
  hellos are queued, none is queued while an \<open>accept()\<close> waits, and a handshake packet always comes with its
  sender's address, so polling the handshake future never drops one.\<close>

theorem server_handshake_inv:
  assumes "server_run sv"
  shows "length (hello_queue (hello_state (sv_host sv))) \<le> 64 \<and>
    (pending_accept_ids (hello_state (sv_host sv)) = [] \<or> hello_queue (hello_state (sv_host sv)) = []) \<and>
    (snd (accept_poll w t sv) = None \<longrightarrow> cb_packet (mb_conn (store (sv_host sv) (ac_ref t))) = None)"
proof -
  have i: "hello_inv (hello_state (sv_host sv))" "slot_inv (store (sv_host sv) (ac_ref t))"
    using server_run_inv [OF assms] by (auto simp: host_inv_def)
  have "snd (accept_poll w t sv) \<noteq> None" if "cb_packet (mb_conn (store (sv_host sv) (ac_ref t))) \<noteq> None"
    using that i(2) by (auto simp: slot_inv_def accept_poll_def host_poll_def handshake_poll_def Let_def)
  with i(1) show ?thesis unfolding hello_inv_def MAX_QUEUED_HELLOS_def by blast
qed

theorem server_handshake_inv_witness:
  "length (hello_queue (hello_state (sv_host (fst (accept_register (3, 7) 0 (server_new (SocketAddr [] 1))))))) \<le> 64"
  using server_handshake_inv [OF server_run.register [OF server_run.new], of "(3, 7)" 0 "SocketAddr [] 1"] by blast

end
