(* ===== verification/Settings.thy ===== *)
theory Settings
  imports Std_Text Handshake
begin

text \<open>
  What the programs read from their environment and command line: the socket buffer sizes of
  \<open>bluefin-io/src/socket/udp_socket.rs\<close>, the settings of the benchmark programs \<open>bluefin/src/bin/server.rs\<close> and
  \<open>client.rs\<close>, and the processor helpers of \<open>bluefin/src/utils/cpu_affinity.rs\<close>. An environment maps the names of the
  variables that are set (to valid text) to their values; \<open>args\<close> are the arguments, the program name first.
\<close>

type_synonym environment = "string \<Rightarrow> string option"

definition u64_max :: int where
  "u64_max = 2 ^ 64 - 1"

section \<open>Definitions\<close>

definition socket_buf_size_from_env :: "environment \<Rightarrow> string \<Rightarrow> int \<Rightarrow> int" where
  "socket_buf_size_from_env env var default_bytes =
     (case Option.bind (env var) (\<lambda>s. parse_i64 (trim s)) of
        Some n \<Rightarrow> if n > 0 \<and> n \<le> 2 ^ 31 - 1 then n else default_bytes
      | None \<Rightarrow> default_bytes)"

definition socket_buf_sizes :: "environment \<Rightarrow> int \<times> int" where
  "socket_buf_sizes env = (socket_buf_size_from_env env ''BLUEFIN_SOCKET_SNDBUF'' 524288,
     socket_buf_size_from_env env ''BLUEFIN_SOCKET_RCVBUF'' 524288)"

text \<open>In seconds.\<close>

definition DEFAULT_RECV_IDLE_TIMEOUT :: int where
  "DEFAULT_RECV_IDLE_TIMEOUT = 2"

definition recv_idle_timeout :: "environment \<Rightarrow> int" where
  "recv_idle_timeout env = (case Option.bind (env ''BLUEFIN_RECV_IDLE_TIMEOUT_SECS'') (\<lambda>s. parse_unsigned u64_max (trim s)) of
      Some n \<Rightarrow> if n > 0 then n else DEFAULT_RECV_IDLE_TIMEOUT
    | None \<Rightarrow> DEFAULT_RECV_IDLE_TIMEOUT)"

definition DEFAULT_NUM_READER_WORKERS :: u16 where
  "DEFAULT_NUM_READER_WORKERS = 3"

definition num_reader_workers :: "environment \<Rightarrow> u16" where
  "num_reader_workers env = (case Option.bind (env ''BLUEFIN_NUM_READER_WORKERS'') (\<lambda>s. parse_u16 (trim s)) of
      Some n \<Rightarrow> if n > 0 then n else DEFAULT_NUM_READER_WORKERS
    | None \<Rightarrow> DEFAULT_NUM_READER_WORKERS)"

text \<open>The argument comes first, then the variable (neither is trimmed), then 2; the assertion panics.\<close>

definition num_expected_connections :: "string list \<Rightarrow> environment \<Rightarrow> usize BluefinResult" where
  "num_expected_connections args env =
     (let from_arg = (if 1 < length args then parse_unsigned u64_max (args ! 1) else None);
          from_env = Option.bind (env ''BLUEFIN_BENCH_NUM_CONNS'') (parse_unsigned u64_max);
          n = nat (case from_arg of Some n \<Rightarrow> n | None \<Rightarrow> (case from_env of Some n \<Rightarrow> n | None \<Rightarrow> 2)) in
      if n \<ge> 1 then Ok n else Panic)"

definition DEFAULT_PORTS :: "u16 list" where
  "DEFAULT_PORTS = [1320, 1322, 1323, 1324, 1325]"

definition SENDS_PER_YIELD :: usize where
  "SENDS_PER_YIELD = 256"

definition DEFAULT_NUM_SENDS :: usize where
  "DEFAULT_NUM_SENDS = 10000000"

definition num_sends :: "environment \<Rightarrow> usize" where
  "num_sends env = (case Option.bind (env ''BLUEFIN_NUM_SENDS'') (\<lambda>s. parse_unsigned u64_max (trim s)) of
      Some n \<Rightarrow> if n > 0 then nat n else DEFAULT_NUM_SENDS
    | None \<Rightarrow> DEFAULT_NUM_SENDS)"

definition DEFAULT_SEND_THROTTLE_US :: int where
  "DEFAULT_SEND_THROTTLE_US = 0"

definition DEFAULT_SEND_THROTTLE_EVERY :: usize where
  "DEFAULT_SEND_THROTTLE_EVERY = SENDS_PER_YIELD"

definition send_throttle_us :: "environment \<Rightarrow> int" where
  "send_throttle_us env = (case Option.bind (env ''BLUEFIN_CLIENT_SEND_THROTTLE_US'') (\<lambda>s. parse_unsigned u64_max (trim s)) of
      Some n \<Rightarrow> n
    | None \<Rightarrow> DEFAULT_SEND_THROTTLE_US)"

definition send_throttle_every :: "environment \<Rightarrow> usize" where
  "send_throttle_every env = (case Option.bind (env ''BLUEFIN_CLIENT_SEND_THROTTLE_EVERY'') (\<lambda>s. parse_unsigned u64_max (trim s)) of
      Some n \<Rightarrow> if n > 0 then nat n else DEFAULT_SEND_THROTTLE_EVERY
    | None \<Rightarrow> DEFAULT_SEND_THROTTLE_EVERY)"

text \<open>The index of the connection to run, if one is given.\<close>

definition single_task_index :: "string list \<Rightarrow> usize option BluefinResult" where
  "single_task_index args =
     (if length args \<le> 1 then Ok None
      else if args ! 1 = ''--task'' then
        (if length args \<le> 2 then Panic
         else (case parse_unsigned u64_max (args ! 2) of Some ix \<Rightarrow> Ok (Some (nat ix)) | None \<Rightarrow> Panic))
      else Panic)"

text \<open>The connections that are spawned, with their source ports.\<close>

definition client_tasks :: "string list \<Rightarrow> (usize \<times> u16) list BluefinResult" where
  "client_tasks args = bind_res (single_task_index args) (\<lambda>single.
     bind_res (case single of
         Some ix \<Rightarrow> if ix < length DEFAULT_PORTS then Ok [ix] else Panic
       | None \<Rightarrow> Ok [0..<2]) (\<lambda>task_indices.
       Ok (map (\<lambda>task_ix. (task_ix, DEFAULT_PORTS ! task_ix)) task_indices)))"

text \<open>\<open>online\<close> is what \<open>sysconf\<close> reports, -1 on failure.\<close>

definition num_cpus_impl :: "target_os \<Rightarrow> int \<Rightarrow> usize" where
  "num_cpus_impl os online = (case os of OtherOs \<Rightarrow> 1 | _ \<Rightarrow> if online < 1 then 1 else nat online)"

definition get_num_cpus :: "target_os \<Rightarrow> int \<Rightarrow> usize" where
  "get_num_cpus os online = num_cpus_impl os online"

text \<open>Only the result: on macOS the tag is advisory and the kernel's answer is ignored.\<close>

definition set_current_thread_affinity :: "target_os \<Rightarrow> usize \<Rightarrow> unit BluefinResult" where
  "set_current_thread_affinity os cpu_id = (case os of
      Macos \<Rightarrow> Ok ()
    | Linux \<Rightarrow> Err (StdIoError ''CPU affinity not yet implemented for Linux'')
    | OtherOs \<Rightarrow> Err (StdIoError ''CPU affinity not supported on this platform''))"

lemmas settings_defs = socket_buf_sizes_def socket_buf_size_from_env_def recv_idle_timeout_def num_reader_workers_def
  num_sends_def send_throttle_us_def send_throttle_every_def
  DEFAULT_RECV_IDLE_TIMEOUT_def DEFAULT_NUM_READER_WORKERS_def DEFAULT_NUM_SENDS_def DEFAULT_SEND_THROTTLE_US_def
  DEFAULT_SEND_THROTTLE_EVERY_def SENDS_PER_YIELD_def

section \<open>Properties\<close>

lemma trim_decimal:
  assumes "list_all is_white a" and "list_all is_white b"
  shows "trim (a @ decimal n @ b) = decimal n"
proof -
  have d: "list_all (\<lambda>c. \<not> is_white c) (decimal n)"
    using decimal_digits(1) [of n] by (auto simp: digits_def list_all_iff digit_val_def is_white_def Let_def split: if_splits)
  have w: "dropWhile is_white (ws @ xs) = dropWhile is_white xs" if "list_all is_white ws" for ws xs
    using that by (auto simp: list_all_iff intro: dropWhile_append2)
  have r: "dropWhile is_white (xs @ ys) = xs @ ys" if "list_all (\<lambda>c. \<not> is_white c) xs" "xs \<noteq> []" for xs ys
    using that by (cases xs) auto
  have "list_all is_white (rev b)" "list_all (\<lambda>c. \<not> is_white c) (rev (decimal n))" using assms(2) d by (simp_all add: list_all_iff)
  with w [OF assms(1)] w [of "rev b"] r [OF d decimal_digits(3)] r [of "rev (decimal n)" "[]"] decimal_digits(3) [of n]
  show ?thesis by (simp add: trim_def)
qed

lemma parse_i64_decimal: "parse_i64 (decimal n) = (if int n \<le> 2 ^ 63 - 1 then Some (int n) else None)"
proof -
  obtain c cs where c: "decimal n = c # cs" "c \<noteq> CHR ''+''" "c \<noteq> CHR ''-''"
    using decimal_digits(3) [of n] decimal_hd [of n] by (cases "decimal n") auto
  then have "parse_i64 (decimal n) = parse_pos (2 ^ 63 - 1) 0 (decimal n)" by (simp add: parse_i64_def)
  then show ?thesis by (simp add: parse_pos_eq decimal_digits)
qed


text \<open>A setting is what the user wrote: a socket buffer size printed in decimal, with blanks around it, is used as it is
  when it is between 1 and the largest C integer, and otherwise the default is.\<close>

lemma socket_buf_size_roundtrip:
  assumes "env v = Some (a @ decimal n @ b)" and "list_all is_white a" and "list_all is_white b"
  shows "socket_buf_size_from_env env v d = (if 1 \<le> n \<and> n < 2 ^ 31 then int n else d)"
  using assms by (auto simp: socket_buf_size_from_env_def trim_decimal parse_i64_decimal)

text \<open>The benchmark client starts at most five connections, each from its own port: without arguments the first two,
  with \<open>--task i\<close> for an index below five exactly that one; every other command line panics before anything is sent.\<close>

lemma client_tasks_cases:
  "client_tasks args =
     (if length args \<le> 1 then Ok [(0, 1320), (1, 1322)]
      else if args ! 1 = ''--task'' \<and> 2 < length args \<and>
              (\<exists>i < 5. parse_unsigned u64_max (args ! 2) = Some (int i))
      then Ok [(nat (the (parse_unsigned u64_max (args ! 2))), [1320, 1322, 1323, 1324, 1325] ! nat (the (parse_unsigned u64_max (args ! 2))))]
      else Panic)"
proof -
  have "nat n < 5 \<longleftrightarrow> (\<exists>i < 5. n = int i)" if "parse_unsigned u64_max s = Some n" for n s
    using parse_unsigned_range [OF _ that] by (auto simp: u64_max_def intro: exI [of _ "nat n"])
  moreover have "[0..<2] = [0, Suc 0]" by (simp add: upt_rec)
  moreover have "length DEFAULT_PORTS = 5" "DEFAULT_PORTS ! 0 = 1320" "DEFAULT_PORTS ! Suc 0 = 1322"
    by (simp_all add: DEFAULT_PORTS_def)
  ultimately show ?thesis
    unfolding client_tasks_def single_task_index_def
    by (auto simp: DEFAULT_PORTS_def [symmetric] split: option.splits)
qed

end
