(* ===== verification/Socket_Io.thy ===== *)
theory Socket_Io
  imports Settings
begin

text \<open>
  The socket crate, \<open>bluefin-io\<close>: its errors (\<open>error.rs\<close>), \<open>set_sock_opt\<close> (\<open>socket/mod.rs\<close>), the ancillary data writer
  (\<open>socket/cmsghdr.rs\<close>) and \<open>BluefinSocket\<close> (\<open>socket/udp_socket.rs\<close>) in both its portable and its \<open>macos_fast\<close> form; and the
  socket constructors the runtime uses (\<open>bluefin/src/utils/mod.rs\<close>). System calls and the \<open>CMSG\<close> macros of libc are
  parameters: the answers of the calls come as lists, one element per call made, the macros as a record of
  functions. A pointer is the local variable it points to, with the function whose frame holds the variable.
\<close>

section \<open>Errors\<close>

datatype BluefinIoError = IoStdIoError string | InsufficientBufferSize string | Unsupported string

datatype 'a BluefinIoResult = IoOk 'a | IoErr BluefinIoError | IoPanic

datatype ErrorKind = Interrupted | WouldBlock | OtherKind string

text \<open>\<open>std::io::Error\<close>: its kind and its text.\<close>

record io_error =
  err_kind :: ErrorKind
  err_text :: string

definition io_from_error :: "io_error \<Rightarrow> BluefinIoError" where
  "io_from_error e = IoStdIoError (err_text e)"

definition io_from_kind :: "(ErrorKind \<Rightarrow> string) \<Rightarrow> ErrorKind \<Rightarrow> BluefinIoError" where
  "io_from_kind to_string k = IoStdIoError (to_string k)"

text \<open>The answer of a system call: its return value, and the last error should that be negative.\<close>

type_synonym sys_answer = "int \<times> io_error"

definition set_sock_opt :: "sys_answer \<Rightarrow> unit BluefinIoResult" where
  "set_sock_opt answer = (case answer of (rc, e) \<Rightarrow> if rc = 0 then IoOk () else IoErr (IoStdIoError (err_text e)))"

section \<open>Making a socket\<close>

datatype sock_opt = IP_RECVTOS | SO_SNDBUF | SO_RCVBUF | IP_RECVDSTADDR | SO_NOSIGPIPE | IP_PKTINFO | UDP_SEGMENT

text \<open>The calls that set up a socket.\<close>

datatype sock_call = NewSocket "string option" | ReuseAddress | ReusePort | Cloexec | Nonblocking
  | RecvBufferSize nat | SendBufferSize nat | Bind SocketAddr | Connect SocketAddr | SetOpt sock_opt int | IntoTokio

text \<open>Calls made one after the other, each followed by \<open>?\<close>: the calls made, and the first failure.\<close>

fun run_calls :: "(sock_call \<Rightarrow> io_error option) \<Rightarrow> sock_call list \<Rightarrow> sock_call list \<times> io_error option" where
  "run_calls os [] = ([], None)"
| "run_calls os (c # cs) = (case os c of
      Some e \<Rightarrow> ([c], Some e)
    | None \<Rightarrow> (case run_calls os cs of (made, r) \<Rightarrow> (c # made, r)))"

definition socket_script :: "target_os \<Rightarrow> environment \<Rightarrow> SocketAddr \<Rightarrow> sock_call list" where
  "socket_script tgt env src_addr = (case socket_buf_sizes env of (sndbuf, rcvbuf) \<Rightarrow>
     [NewSocket (Some ''UDP''), ReuseAddress, ReusePort, Cloexec, Nonblocking, Bind src_addr, SetOpt IP_RECVTOS 1,
      SetOpt SO_SNDBUF sndbuf, SetOpt SO_RCVBUF rcvbuf] @
     (case tgt of
        Macos \<Rightarrow> [SetOpt IP_RECVDSTADDR 1, SetOpt SO_NOSIGPIPE 1]
      | Linux \<Rightarrow> [SetOpt IP_PKTINFO 1, SetOpt UDP_SEGMENT 1500]
      | OtherOs \<Rightarrow> []) @ [IntoTokio])"

definition socket_new :: "target_os \<Rightarrow> environment \<Rightarrow> (sock_call \<Rightarrow> io_error option) \<Rightarrow> SocketAddr \<Rightarrow> sock_call list \<times> unit BluefinIoResult" where
  "socket_new tgt env os src_addr = (case run_calls os (socket_script tgt env src_addr) of
      (made, None) \<Rightarrow> (made, IoOk ())
    | (made, Some e) \<Rightarrow> (made, IoErr (io_from_error e)))"

text \<open>The sockets of the runtime; the result of \<open>set_nonblocking\<close> is unwrapped.\<close>

definition get_udp_socket_impl :: "(sock_call \<Rightarrow> io_error option) \<Rightarrow> SocketAddr \<Rightarrow> sock_call list \<times> unit BluefinResult" where
  "get_udp_socket_impl os src_addr = (case run_calls os [NewSocket None, ReuseAddress, ReusePort, Cloexec] of
      (made, Some e) \<Rightarrow> (made, Err (StdIoError (err_text e)))
    | (made, None) \<Rightarrow>
        (case os Nonblocking of
           Some _ \<Rightarrow> (made @ [Nonblocking], Panic)
         | None \<Rightarrow>
             (case run_calls os [RecvBufferSize (32 * 1024 * 1024), SendBufferSize (32 * 1024 * 1024), Bind src_addr] of
                (made', Some e) \<Rightarrow> (made @ [Nonblocking] @ made', Err (StdIoError (err_text e)))
              | (made', None) \<Rightarrow> (made @ [Nonblocking] @ made', Ok ()))))"

text \<open>More calls on the socket, if it could be made.\<close>

definition then_calls :: "(sock_call \<Rightarrow> io_error option) \<Rightarrow> sock_call list \<Rightarrow> sock_call list \<times> unit BluefinResult \<Rightarrow>
    sock_call list \<times> unit BluefinResult" where
  "then_calls os cs out = (case out of
      (made, Ok _) \<Rightarrow>
        (case run_calls os cs of
           (made', Some e) \<Rightarrow> (made @ made', Err (StdIoError (err_text e)))
         | (made', None) \<Rightarrow> (made @ made', Ok ()))
    | (made, r) \<Rightarrow> (made, r))"

definition get_udp_socket :: "(sock_call \<Rightarrow> io_error option) \<Rightarrow> SocketAddr \<Rightarrow> sock_call list \<times> unit BluefinResult" where
  "get_udp_socket os src_addr = then_calls os [IntoTokio] (get_udp_socket_impl os src_addr)"

definition get_connected_udp_socket :: "(sock_call \<Rightarrow> io_error option) \<Rightarrow> SocketAddr \<Rightarrow> SocketAddr \<Rightarrow> sock_call list \<times> unit BluefinResult" where
  "get_connected_udp_socket os src_addr dst_addr = then_calls os [Connect dst_addr, IntoTokio] (get_udp_socket_impl os src_addr)"

section \<open>Message headers\<close>

text \<open>A pointer to a local variable, or to an object of the caller of the crate (frame \<open>''caller''\<close>).\<close>

datatype ptr = Null | Ptr (ptr_frame: string) string

record iovec =
  iov_base :: ptr
  iov_len :: usize

record msghdr =
  msg_name :: ptr
  msg_namelen :: usize
  msg_iov :: ptr
  msg_iovlen :: usize
  msg_control :: ptr
  msg_controllen :: usize
  msg_flags :: usize
  msg_datalen :: usize

definition MSG_CONTROLLEN :: usize where "MSG_CONTROLLEN = 8 * 11"
definition IOVEC_SIZE :: usize where "IOVEC_SIZE = 8"
definition MAX_CHUNK_SIZE :: usize where "MAX_CHUNK_SIZE = 1500"

definition msghdr_zeroed :: msghdr where
  "msghdr_zeroed = \<lparr>msg_name = Null, msg_namelen = 0, msg_iov = Null, msg_iovlen = 0, msg_control = Null,
     msg_controllen = 0, msg_flags = 0, msg_datalen = 0\<rparr>"

definition iovec_zeroed :: iovec where
  "iovec_zeroed = \<lparr>iov_base = Null, iov_len = 0\<rparr>"

record TransmitData =
  td_src_addr :: SocketAddr
  td_dst_addr :: SocketAddr
  td_data :: Bytes

text \<open>The portable form; \<open>storage_size\<close> is the size of \<open>sockaddr_storage\<close>, and \<open>msg_control\<close> of \<open>init_buf\<close> is a variable of its own.\<close>

definition init_buf :: "usize \<Rightarrow> ptr \<Rightarrow> ptr \<Rightarrow> msghdr" where
  "init_buf storage_size buf msg_name_ptr = msghdr_zeroed\<lparr>msg_name := msg_name_ptr, msg_namelen := storage_size,
     msg_iov := buf, msg_iovlen := 1, msg_control := Ptr ''init_buf'' ''msg_control'', msg_controllen := MSG_CONTROLLEN,
     msg_flags := 0\<rparr>"

definition init_buf_for_send :: "TransmitData \<Rightarrow> ptr \<Rightarrow> ptr \<Rightarrow> usize \<Rightarrow> msghdr \<Rightarrow> iovec \<Rightarrow> msghdr \<times> iovec" where
  "init_buf_for_send t iov_ptr dst_ptr dst_len h v =
     (h\<lparr>msg_name := dst_ptr, msg_namelen := dst_len, msg_iov := iov_ptr, msg_iovlen := 1, msg_control := Null, msg_controllen := 0\<rparr>,
      v\<lparr>iov_base := Ptr ''caller'' ''data'', iov_len := length (td_data t)\<rparr>)"

text \<open>The \<open>macos_fast\<close> form, whose last assignment to the control length is the length of the buffer.\<close>

definition init_buf_fast :: "usize \<Rightarrow> ptr \<Rightarrow> usize \<Rightarrow> ptr \<Rightarrow> ptr \<Rightarrow> msghdr \<Rightarrow> msghdr" where
  "init_buf_fast storage_size buf buf_len msg_name_ptr control_ptr h =
     (h\<lparr>msg_name := msg_name_ptr, msg_namelen := storage_size, msg_iov := buf, msg_iovlen := 1,
        msg_control := control_ptr, msg_controllen := MSG_CONTROLLEN, msg_flags := 0\<rparr>)\<lparr>msg_controllen := buf_len\<rparr>"

definition init_buf_for_send_fast :: "TransmitData \<Rightarrow> usize \<Rightarrow> msghdr" where
  "init_buf_for_send_fast t dst_len = msghdr_zeroed\<lparr>
     msg_iov := Ptr ''init_buf_for_send'' ''msg_iov'', msg_iovlen := 1,
     msg_control := Ptr ''init_buf_for_send'' ''msg_control'', msg_controllen := MSG_CONTROLLEN,
     msg_name := Ptr ''init_buf_for_send'' ''dst_addr'', msg_namelen := dst_len\<rparr>"

section \<open>Sending\<close>

text \<open>The retry loop; \<open>None\<close>: the answers given do not end it.\<close>

fun send_loop :: "sys_answer list \<Rightarrow> (int \<Rightarrow> usize) \<Rightarrow> usize BluefinIoResult option" where
  "send_loop [] ok = None"
| "send_loop ((sz, err) # answers) ok =
     (if sz \<ge> 0 then Some (IoOk (ok sz))
      else case err_kind err of
          Interrupted \<Rightarrow> send_loop answers ok
        | _ \<Rightarrow> Some (IoErr (io_from_error err)))"

definition send_to :: "TransmitData \<Rightarrow> usize \<Rightarrow> sys_answer list \<Rightarrow> (msghdr \<times> iovec) \<times> usize BluefinIoResult option" where
  "send_to t dst_len answers =
     (init_buf_for_send t (Ptr ''send_to'' ''msg_iov'') (Ptr ''send_to'' ''dst_addr'') dst_len msghdr_zeroed iovec_zeroed,
      send_loop answers (\<lambda>_. 1))"

fun chunks :: "usize \<Rightarrow> Bytes \<Rightarrow> Bytes list" where
  "chunks n bs = (if n = 0 \<or> bs = [] then [] else take n bs # chunks n (drop n bs))"

declare chunks.simps [simp del]

definition send_to_fast :: "TransmitData \<Rightarrow> usize \<Rightarrow> sys_answer list \<Rightarrow> (msghdr \<times> Bytes) list \<times> usize BluefinIoResult option" where
  "send_to_fast t dst_len answers =
     (map (\<lambda>bytes. (init_buf_for_send_fast (t\<lparr>td_data := bytes\<rparr>) dst_len, bytes)) (take IOVEC_SIZE (chunks MAX_CHUNK_SIZE (td_data t))),
      send_loop answers nat)"

section \<open>Receiving\<close>

text \<open>\<open>sockaddr_storage\<close>: its family, and the bytes in memory of the port and address of an IPv4 \<open>sockaddr_in\<close>.\<close>

record sockaddr_storage =
  ss_family :: int
  sin_port :: Bytes
  sin_addr :: Bytes

datatype endian = Little | Big

definition from_ne_bytes :: "endian \<Rightarrow> Bytes \<Rightarrow> 'a::len word" where
  "from_ne_bytes en bs = from_be_bytes (case en of Little \<Rightarrow> rev bs | Big \<Rightarrow> bs)"

definition to_ne_bytes :: "endian \<Rightarrow> nat \<Rightarrow> 'a::len word \<Rightarrow> Bytes" where
  "to_ne_bytes en n w = (case en of Little \<Rightarrow> rev (to_be_bytes n w) | Big \<Rightarrow> to_be_bytes n w)"

text \<open>\<open>u16::from_be\<close> swaps the bytes on a little-endian machine.\<close>

definition u16_from_be :: "endian \<Rightarrow> u16 \<Rightarrow> u16" where
  "u16_from_be en w = (case en of Little \<Rightarrow> from_be_bytes (rev (to_be_bytes 2 w)) | Big \<Rightarrow> w)"

record BufMetadata =
  bm_src_addr :: SocketAddr
  bm_len :: usize

definition buf_metadata_default :: BufMetadata where
  "buf_metadata_default = \<lparr>bm_src_addr = SocketAddr [0, 0, 0, 0] 0, bm_len = 0\<rparr>"

definition get_metadata_buf :: "int \<Rightarrow> endian \<Rightarrow> sockaddr_storage \<Rightarrow> usize \<Rightarrow> BufMetadata BluefinIoResult" where
  "get_metadata_buf AF_INET en nm len =
     (if ss_family nm = AF_INET
      then IoOk \<lparr>bm_src_addr = SocketAddr (to_ne_bytes en 4 (from_ne_bytes en (sin_addr nm) :: u32)) (u16_from_be en (from_ne_bytes en (sin_port nm))),
                bm_len = len\<rparr>
      else IoErr (IoStdIoError ''Unknown ss_family received''))"

text \<open>The answer of \<open>recvmsg\<close>: return value, last error, whether \<open>MSG_TRUNC\<close> is set, the buffer and the name afterwards.\<close>

record recv_answer =
  rv_n :: int
  rv_err :: io_error
  rv_trunc :: bool
  rv_buf :: Bytes
  rv_name :: sockaddr_storage

fun recv_loop :: "recv_answer list \<Rightarrow> Bytes \<Rightarrow> Bytes \<times> recv_answer BluefinIoResult option" where
  "recv_loop [] buf = (buf, None)"
| "recv_loop (a # answers) buf =
     (if rv_n a = -1 then
        (if err_kind (rv_err a) = Interrupted then recv_loop answers (rv_buf a)
         else (rv_buf a, Some (IoErr (io_from_error (rv_err a)))))
      else if rv_trunc a then recv_loop answers (rv_buf a)
      else (rv_buf a, Some (IoOk a)))"

definition recv_header :: "usize \<Rightarrow> msghdr" where
  "recv_header storage_size = init_buf storage_size (Ptr ''caller'' ''bufs[0]'') (Ptr ''poll_recv_impl'' ''msg_name'')"

definition poll_recv_impl :: "int \<Rightarrow> endian \<Rightarrow> recv_answer list \<Rightarrow> Bytes list \<Rightarrow> BufMetadata list \<Rightarrow>
    Bytes list \<times> BufMetadata list \<times> usize BluefinIoResult option" where
  "poll_recv_impl AF_INET en answers bufs meta = (case bufs of
      [] \<Rightarrow> (bufs, meta, Some IoPanic)
    | buf # rest \<Rightarrow>
        (case recv_loop answers buf of
           (buf', None) \<Rightarrow> (buf' # rest, meta, None)
         | (buf', Some (IoErr e)) \<Rightarrow> (buf' # rest, meta, Some (IoErr e))
         | (buf', Some IoPanic) \<Rightarrow> (buf' # rest, meta, Some IoPanic)
         | (buf', Some (IoOk a)) \<Rightarrow>
             (case get_metadata_buf AF_INET en (rv_name a) (nat (rv_n a)) of
                IoOk m \<Rightarrow> (case meta of
                    [] \<Rightarrow> (buf' # rest, meta, Some IoPanic)
                  | _ # ms \<Rightarrow> (buf' # rest, m # ms, Some (IoOk 1)))
              | IoErr e \<Rightarrow> (buf' # rest, meta, Some (IoErr e))
              | IoPanic \<Rightarrow> (buf' # rest, meta, Some IoPanic))))"

text \<open>\<open>poll_recv\<close>: \<open>ready\<close> is the answer of tokio's \<open>poll_recv_ready\<close>, which registers the waker exactly when it is pending. The
  first component is the waker registered, the last the poll (\<open>None\<close> is pending), absent when the receive loop goes on.\<close>

definition poll_recv :: "int \<Rightarrow> endian \<Rightarrow> bool \<Rightarrow> Waker \<Rightarrow> recv_answer list \<Rightarrow> Bytes list \<Rightarrow> BufMetadata list \<Rightarrow>
    Waker option \<times> Bytes list \<times> BufMetadata list \<times> usize BluefinIoResult option option" where
  "poll_recv AF_INET en ready cx answers bufs meta =
     (if \<not> ready then (Some cx, bufs, meta, Some None)
      else case poll_recv_impl AF_INET en answers bufs meta of
          (bufs', meta', None) \<Rightarrow> (None, bufs', meta', None)
        | (bufs', meta', Some (IoOk n)) \<Rightarrow> (None, bufs', meta', Some (Some (IoOk n)))
        | (bufs', meta', Some (IoErr e)) \<Rightarrow> (None, bufs', meta', Some None)
        | (bufs', meta', Some IoPanic) \<Rightarrow> (None, bufs', meta', Some (Some IoPanic)))"

text \<open>The \<open>macos_fast\<close> form: \<open>recvmsg_x\<close> answers with a count, the buffers, and the name and length of each message.\<close>

record recvx_answer =
  rx_n :: int
  rx_err :: io_error
  rx_bufs_after :: "Bytes list"
  rx_msgs :: "(sockaddr_storage \<times> usize) list"

fun recvx_loop :: "recvx_answer list \<Rightarrow> Bytes list \<Rightarrow> Bytes list \<times> recvx_answer BluefinIoResult option" where
  "recvx_loop [] bufs = (bufs, None)"
| "recvx_loop (a # answers) bufs =
     (if rx_n a = -1 then
        (if err_kind (rx_err a) = Interrupted then recvx_loop answers (rx_bufs_after a)
         else (rx_bufs_after a, Some (IoErr (io_from_error (rx_err a)))))
      else (rx_bufs_after a, Some (IoOk a)))"

fun metadata_loop :: "int \<Rightarrow> endian \<Rightarrow> (sockaddr_storage \<times> usize) list \<Rightarrow> usize \<Rightarrow> BufMetadata list \<Rightarrow>
    BufMetadata list \<times> unit BluefinIoResult" where
  "metadata_loop AF_INET en [] ix meta = (meta, IoOk ())"
| "metadata_loop AF_INET en ((nm, len) # msgs) ix meta =
     (if ix \<ge> IOVEC_SIZE then (meta, IoPanic)
      else case get_metadata_buf AF_INET en nm len of
          IoOk m \<Rightarrow> if ix \<ge> length meta then (meta, IoPanic) else metadata_loop AF_INET en msgs (Suc ix) (meta[ix := m])
        | IoErr e \<Rightarrow> (meta, IoErr e)
        | IoPanic \<Rightarrow> (meta, IoPanic))"

definition recv_headers_fast :: "usize \<Rightarrow> Bytes list \<Rightarrow> msghdr list" where
  "recv_headers_fast storage_size bufs = map (\<lambda>buf. init_buf_fast storage_size (Ptr ''caller'' ''bufs'') (length buf)
     (Ptr ''poll_recv_impl'' ''msg_names'') (Ptr ''poll_recv_impl'' ''msg_controls'') msghdr_zeroed) (take IOVEC_SIZE bufs)"

definition poll_recv_impl_fast :: "int \<Rightarrow> endian \<Rightarrow> recvx_answer list \<Rightarrow> Bytes list \<Rightarrow> BufMetadata list \<Rightarrow>
    Bytes list \<times> BufMetadata list \<times> usize BluefinIoResult option" where
  "poll_recv_impl_fast AF_INET en answers bufs meta = (case recvx_loop answers bufs of
      (bufs', None) \<Rightarrow> (bufs', meta, None)
    | (bufs', Some (IoErr e)) \<Rightarrow> (bufs', meta, Some (IoErr e))
    | (bufs', Some IoPanic) \<Rightarrow> (bufs', meta, Some IoPanic)
    | (bufs', Some (IoOk a)) \<Rightarrow>
        (case metadata_loop AF_INET en (take (nat (rx_n a)) (rx_msgs a)) 0 meta of
           (meta', IoOk _) \<Rightarrow> (bufs', meta', Some (IoOk 1))
         | (meta', IoErr e) \<Rightarrow> (bufs', meta', Some (IoErr e))
         | (meta', IoPanic) \<Rightarrow> (bufs', meta', Some IoPanic)))"

section \<open>Ancillary data\<close>

text \<open>The macros of \<open>cmsg(3)\<close>: \<open>CMSG_SPACE\<close>, \<open>CMSG_LEN\<close>, and \<open>CMSG_FIRSTHDR\<close> and \<open>CMSG_NXTHDR\<close> as offsets into the control buffer,
  given its length (and the offset and length of the current header).\<close>

record cmsg_api =
  CMSG_SPACE :: "usize \<Rightarrow> usize"
  CMSG_LEN :: "usize \<Rightarrow> usize"
  CMSG_FIRSTHDR :: "usize \<Rightarrow> usize option"
  CMSG_NXTHDR :: "usize \<Rightarrow> usize \<Rightarrow> usize \<Rightarrow> usize option"

text \<open>A header written at an offset, with its data.\<close>

record cmsg_entry =
  ce_offset :: usize
  ce_level :: int
  ce_type :: int
  ce_len :: usize
  ce_data :: Bytes

text \<open>\<open>ch_written\<close> is what the buffer holds.\<close>

record CmsghdrBufferHandler =
  ch_cmsghdr_ptr :: "usize option"
  ch_size :: usize
  ch_total_bytes :: usize
  ch_written :: "cmsg_entry list"

definition cmsghdr_new :: "cmsg_api \<Rightarrow> msghdr \<Rightarrow> CmsghdrBufferHandler" where
  "cmsghdr_new api h = \<lparr>ch_cmsghdr_ptr = CMSG_FIRSTHDR api (msg_controllen h), ch_size = 0,
     ch_total_bytes = msg_controllen h, ch_written = []\<rparr>"

definition cmsghdr_append :: "cmsg_api \<Rightarrow> int \<Rightarrow> int \<Rightarrow> Bytes \<Rightarrow> CmsghdrBufferHandler \<Rightarrow>
    CmsghdrBufferHandler \<times> unit BluefinIoResult" where
  "cmsghdr_append api level typ data ch =
     (let val_size = CMSG_SPACE api (length data) in
      if ch_size ch + val_size > ch_total_bytes ch
      then (ch, IoErr (InsufficientBufferSize ''Could not add value to ancillary data as data exceeds available free space''))
      else case ch_cmsghdr_ptr ch of
          None \<Rightarrow> (ch, IoPanic)
        | Some off \<Rightarrow>
            (let len = CMSG_LEN api (length data) in
             (ch\<lparr>ch_written := ch_written ch @ [\<lparr>ce_offset = off, ce_level = level, ce_type = typ, ce_len = len, ce_data = data\<rparr>],
                 ch_size := ch_size ch + val_size,
                 ch_cmsghdr_ptr := CMSG_NXTHDR api (ch_total_bytes ch) off len\<rparr>, IoOk ())))"

section \<open>Set-up\<close>

text \<open>The calls up to the first that fails.\<close>

definition attempted :: "(sock_call \<Rightarrow> io_error option) \<Rightarrow> sock_call list \<Rightarrow> sock_call list" where
  "attempted os cs = takeWhile (\<lambda>c. os c = None) cs @ take 1 (dropWhile (\<lambda>c. os c = None) cs)"

lemma run_calls_eq: "run_calls os cs = (attempted os cs, Option.bind (find (\<lambda>c. os c \<noteq> None) cs) os)"
  by (induction cs) (auto simp: attempted_def split: option.split)

lemma find_append: "find P (xs @ ys) = (case find P xs of None \<Rightarrow> find P ys | Some x \<Rightarrow> Some x)"
  by (induction xs) auto

lemma attempted_append: "attempted os (xs @ ys) =
    (case find (\<lambda>c. os c \<noteq> None) xs of None \<Rightarrow> xs @ attempted os ys | Some _ \<Rightarrow> attempted os xs)"
  by (induction xs) (auto simp: attempted_def split: option.splits)

lemma attempted_all: "find (\<lambda>c. os c \<noteq> None) xs = None \<Longrightarrow> attempted os xs = xs"
  using attempted_append [of os xs "[]"] by (simp add: attempted_def)

lemma find_failed: "find (\<lambda>c. os c \<noteq> None) xs = Some c \<Longrightarrow> c \<in> set xs \<and> os c \<noteq> None"
  by (auto simp: find_Some_iff)

definition setup_calls :: "sock_call list" where
  "setup_calls = [NewSocket None, ReuseAddress, ReusePort, Cloexec]"

definition bind_calls :: "SocketAddr \<Rightarrow> sock_call list" where
  "bind_calls src = [RecvBufferSize (32 * 1024 * 1024), SendBufferSize (32 * 1024 * 1024), Bind src]"

definition connect_calls :: "SocketAddr \<Rightarrow> sock_call list" where
  "connect_calls dst = [Connect dst, IntoTokio]"

text \<open>A connected socket takes ten calls; the first failure ends it, as an error, or as a panic if it is that of
  \<open>set_nonblocking\<close>.\<close>

lemma connected_socket_setup:
  defines "script src dst \<equiv> setup_calls @ [Nonblocking] @ bind_calls src @ connect_calls dst"
  shows "get_connected_udp_socket os src dst = (attempted os (script src dst),
     case find (\<lambda>c. os c \<noteq> None) (script src dst) of
       None \<Rightarrow> Ok ()
     | Some c \<Rightarrow> if c = Nonblocking then Panic else Err (StdIoError (err_text (the (os c)))))"
proof -
  have no: "Nonblocking \<notin> set setup_calls" "Nonblocking \<notin> set (bind_calls src)" "Nonblocking \<notin> set (connect_calls dst)"
    by (simp_all add: setup_calls_def bind_calls_def connect_calls_def)
  have eq: "get_connected_udp_socket os src dst = then_calls os (connect_calls dst) (case run_calls os setup_calls of
      (made, Some e) \<Rightarrow> (made, Err (StdIoError (err_text e)))
    | (made, None) \<Rightarrow>
        (case os Nonblocking of
           Some _ \<Rightarrow> (made @ [Nonblocking], Panic)
         | None \<Rightarrow>
             (case run_calls os (bind_calls src) of
                (made', Some e) \<Rightarrow> (made @ [Nonblocking] @ made', Err (StdIoError (err_text e)))
              | (made', None) \<Rightarrow> (made @ [Nonblocking] @ made', Ok ()))))"
    unfolding get_connected_udp_socket_def get_udp_socket_impl_def setup_calls_def bind_calls_def connect_calls_def ..
  have nb: "attempted os (Nonblocking # xs) = (if os Nonblocking = None then Nonblocking # attempted os xs else [Nonblocking])" for xs
    by (simp add: attempted_def)
  let ?f = "find (\<lambda>c. os c \<noteq> None)"
  show ?thesis
  proof (cases "?f setup_calls")
    case (Some c)
    then show ?thesis using find_failed [OF Some] no(1)
      by (auto simp: eq script_def run_calls_eq then_calls_def attempted_append find_append)
  next
    case S: None
    show ?thesis
    proof (cases "os Nonblocking")
      case N: None
      show ?thesis
      proof (cases "?f (bind_calls src)")
        case (Some c)
        then show ?thesis using find_failed [OF Some] no(2) S N
          by (auto simp: eq script_def run_calls_eq then_calls_def attempted_append find_append attempted_all nb)
      next
        case B: None
        then show ?thesis using find_failed [of os "connect_calls dst"] no(3) S N
          by (cases "?f (connect_calls dst)")
            (auto simp: eq script_def run_calls_eq then_calls_def attempted_append find_append attempted_all nb)
      qed
    qed (use S in \<open>simp add: eq script_def run_calls_eq then_calls_def attempted_append find_append attempted_all nb\<close>)
  qed
qed

section \<open>Sending and receiving\<close>

lemma chunks_concat: "0 < n \<Longrightarrow> concat (take k (chunks n bs)) = take (k * n) bs"
proof (induction k arbitrary: bs)
  case (Suc k)
  show ?case
  proof (cases "bs = []")
    case False
    then have "concat (take (Suc k) (chunks n bs)) = take n bs @ take (k * n) (drop n bs)"
      using Suc by (simp add: chunks.simps [of n bs])
    then show ?thesis by (simp add: take_add)
  qed (simp add: chunks.simps)
qed simp

text \<open>The vectored send carries the first 12000 bytes and reports no error for the others.\<close>

lemma send_to_fast_data: "concat (map snd (fst (send_to_fast t dst_len answers))) = take 12000 (td_data t)"
  using chunks_concat [of MAX_CHUNK_SIZE IOVEC_SIZE "td_data t"]
  by (simp add: send_to_fast_def MAX_CHUNK_SIZE_def IOVEC_SIZE_def comp_def)

text \<open>A receive keeps the first answer that is neither interrupted nor truncated.\<close>

definition retried :: "recv_answer \<Rightarrow> bool" where
  "retried a \<longleftrightarrow> (if rv_n a = -1 then err_kind (rv_err a) = Interrupted else rv_trunc a)"

lemma recv_loop_first:
  "snd (recv_loop answers buf) = (case dropWhile retried answers of
      [] \<Rightarrow> None
    | a # _ \<Rightarrow> Some (if rv_n a = -1 then IoErr (io_from_error (rv_err a)) else IoOk a))"
  by (induction answers arbitrary: buf) (auto simp: retried_def)

lemma get_metadata_buf_address:
  assumes "ss_family nm = AF_INET" and "length (sin_addr nm) = 4" and "length (sin_port nm) = 2"
  shows "get_metadata_buf AF_INET en nm len =
    IoOk \<lparr>bm_src_addr = SocketAddr (sin_addr nm) (from_be_bytes (sin_port nm)), bm_len = len\<rparr>"
proof -
  have a: "to_be_bytes 4 (from_be_bytes bs :: u32) = bs" if "length bs = 4" for bs
    using to_from_be_bytes [of bs, where 'a = 32] that by simp
  have p: "to_be_bytes 2 (from_be_bytes bs :: u16) = bs" if "length bs = 2" for bs
    using to_from_be_bytes [of bs, where 'a = 16] that by simp
  show ?thesis using assms
    by (cases en) (simp_all add: get_metadata_buf_def to_ne_bytes_def from_ne_bytes_def u16_from_be_def a p)
qed

section \<open>Ancillary data\<close>

definition align :: "usize \<Rightarrow> usize \<Rightarrow> usize" where
  "align a n = (n + a - 1) div a * a"

text \<open>What \<open>cmsg(3)\<close> documents, for alignment \<open>a\<close> and header size \<open>hs\<close>.\<close>

definition documented :: "usize \<Rightarrow> usize \<Rightarrow> cmsg_api \<Rightarrow> bool" where
  "documented a hs api \<longleftrightarrow> 0 < a \<and>
     (\<forall>k. CMSG_SPACE api k = align a hs + align a k) \<and> (\<forall>k. CMSG_LEN api k = align a hs + k) \<and>
     (\<forall>total. CMSG_FIRSTHDR api total = (if hs \<le> total then Some 0 else None)) \<and>
     (\<forall>total off len. CMSG_NXTHDR api total off len =
        (if off + align a len + hs \<le> total then Some (off + align a len) else None))"

lemma align_ge: "0 < a \<Longrightarrow> n \<le> align a n"
  unfolding align_def using div_mult_mod_eq [of "n + a - 1" a] mod_less_divisor [of a "n + a - 1"] by linarith

lemma align_add: "0 < a \<Longrightarrow> align a (align a m + n) = align a m + align a n"
proof -
  assume a: "0 < a"
  have "(m' * a + n + a - 1) div a = m' + (n + a - 1) div a" for m'
  proof -
    have "m' * a + n + a - 1 = (n + a - 1) + m' * a" using a by simp
    then show ?thesis using a div_mult_self1 [of a "n + a - 1" m'] by simp
  qed
  from this [of "(m + a - 1) div a"] show ?thesis by (simp add: align_def algebra_simps)
qed

definition cmsg_inv :: "usize \<Rightarrow> usize \<Rightarrow> CmsghdrBufferHandler \<Rightarrow> bool" where
  "cmsg_inv a hs ch \<longleftrightarrow> ch_size ch \<le> ch_total_bytes ch \<and>
     ch_cmsghdr_ptr ch = (if ch_size ch + hs \<le> ch_total_bytes ch then Some (ch_size ch) else None) \<and>
     list_all (\<lambda>e. ce_len e = align a hs + length (ce_data e) \<and> ce_offset e + ce_len e \<le> ch_size ch) (ch_written ch) \<and>
     sorted_wrt (\<lambda>e f. ce_offset e + ce_len e \<le> ce_offset f) (ch_written ch)"

lemma cmsghdr_new_inv: "documented a hs api \<Longrightarrow> cmsg_inv a hs (cmsghdr_new api h)"
  by (simp add: cmsg_inv_def cmsghdr_new_def documented_def)

lemma cmsghdr_append_inv:
  assumes d: "documented a hs api" and i: "cmsg_inv a hs ch" and app: "cmsghdr_append api level typ data ch = (ch', r)"
  shows "cmsg_inv a hs ch' \<and> r \<noteq> IoPanic \<and> ch_total_bytes ch' = ch_total_bytes ch \<and>
    map ce_data (ch_written ch') = map ce_data (ch_written ch) @ (if r = IoOk () then [data] else [])"
proof (cases "ch_size ch + CMSG_SPACE api (length data) > ch_total_bytes ch")
  case True
  with app i show ?thesis by (auto simp: cmsghdr_append_def)
next
  case False
  have a: "0 < a" using d by (simp add: documented_def)
  have sp: "CMSG_SPACE api (length data) = align a hs + align a (length data)" and
    ln: "CMSG_LEN api (length data) = align a hs + length data" using d by (simp_all add: documented_def)
  have "ch_size ch + hs \<le> ch_total_bytes ch" using False sp align_ge [OF a, of hs] by simp
  then have ptr: "ch_cmsghdr_ptr ch = Some (ch_size ch)" using i by (simp add: cmsg_inv_def)
  have nx: "CMSG_NXTHDR api (ch_total_bytes ch) (ch_size ch) (align a hs + length data) =
      (if ch_size ch + (align a hs + align a (length data)) + hs \<le> ch_total_bytes ch
       then Some (ch_size ch + (align a hs + align a (length data))) else None)"
    using d by (simp add: documented_def align_add [OF a])
  let ?e = "\<lparr>ce_offset = ch_size ch, ce_level = level, ce_type = typ, ce_len = align a hs + length data, ce_data = data\<rparr>"
  let ?size = "ch_size ch + (align a hs + align a (length data))"
  have out: "ch' = ch\<lparr>ch_written := ch_written ch @ [?e], ch_size := ?size,
      ch_cmsghdr_ptr := (if ?size + hs \<le> ch_total_bytes ch then Some ?size else None)\<rparr>" "r = IoOk ()"
    using app False unfolding cmsghdr_append_def Let_def sp ln ptr nx option.case by simp_all
  have old: "ce_len e = align a hs + length (ce_data e)" "ce_offset e + ce_len e \<le> ch_size ch" if "e \<in> set (ch_written ch)" for e
    using i that by (auto simp: cmsg_inv_def list_all_iff)
  have "list_all (\<lambda>e. ce_len e = align a hs + length (ce_data e) \<and> ce_offset e + ce_len e \<le> ?size) (ch_written ch @ [?e])"
    using old align_ge [OF a, of "length data"] by (fastforce simp: list_all_iff)
  moreover have "sorted_wrt (\<lambda>e f. ce_offset e + ce_len e \<le> ce_offset f) (ch_written ch @ [?e])"
    using i old(2) by (simp add: cmsg_inv_def sorted_wrt_append)
  ultimately show ?thesis using False sp by (simp add: out cmsg_inv_def)
qed

fun append_all :: "cmsg_api \<Rightarrow> (int \<times> int \<times> Bytes) list \<Rightarrow> CmsghdrBufferHandler \<Rightarrow>
    CmsghdrBufferHandler \<times> unit BluefinIoResult list" where
  "append_all api [] ch = (ch, [])"
| "append_all api ((level, typ, data) # xs) ch = (case cmsghdr_append api level typ data ch of
      (ch1, r) \<Rightarrow> (case append_all api xs ch1 of (ch2, rs) \<Rightarrow> (ch2, r # rs)))"

lemma append_all_inv:
  assumes "documented a hs api" and "cmsg_inv a hs ch" and "append_all api xs ch = (ch', rs)"
  shows "cmsg_inv a hs ch' \<and> IoPanic \<notin> set rs \<and> ch_total_bytes ch' = ch_total_bytes ch"
  using assms(2,3)
proof (induction xs arbitrary: ch rs)
  case (Cons x xs)
  obtain lv ty dat where x: "x = (lv, ty, dat)" using prod_cases3 by blast
  obtain ch1 r where 1: "cmsghdr_append api lv ty dat ch = (ch1, r)" by fastforce
  obtain rs1 where 2: "append_all api xs ch1 = (ch', rs1)" "rs = r # rs1"
    using Cons.prems(2) 1 by (auto simp: x split: prod.splits)
  from cmsghdr_append_inv [OF assms(1) Cons.prems(1) 1] Cons.IH [OF _ 2(1)] 2(2) show ?case by auto
qed simp

text \<open>The macros of 64-bit Linux.\<close>

definition linux_cmsg :: cmsg_api where
  "linux_cmsg = \<lparr>CMSG_SPACE = \<lambda>k. 16 + align 8 k, CMSG_LEN = \<lambda>k. 16 + k,
     CMSG_FIRSTHDR = \<lambda>total. if 16 \<le> total then Some 0 else None,
     CMSG_NXTHDR = \<lambda>total off len. if off + align 8 len + 16 \<le> total then Some (off + align 8 len) else None\<rparr>"

lemma linux_cmsg_documented: "documented 8 16 linux_cmsg"
  by (simp add: documented_def linux_cmsg_def align_def)

section \<open>Properties\<close>

text \<open>Ancillary data stays inside its buffer: with the \<open>CMSG\<close> macros as \<open>cmsg(3)\<close> documents them, whatever is appended to a fresh
  control buffer, no append panics, and the headers with their data lie in the buffer without overlapping.\<close>

lemma cmsg_append_safe:
  assumes "documented a hs api" and "append_all api xs (cmsghdr_new api h) = (ch, rs)"
  shows "IoPanic \<notin> set rs \<and> list_all (\<lambda>e. ce_offset e + align a hs + length (ce_data e) \<le> msg_controllen h) (ch_written ch) \<and>
    sorted_wrt (\<lambda>e f. ce_offset e + align a hs + length (ce_data e) \<le> ce_offset f) (ch_written ch)"
proof -
  have i: "cmsg_inv a hs ch" "IoPanic \<notin> set rs" "ch_total_bytes ch = msg_controllen h"
    using append_all_inv [OF assms(1) cmsghdr_new_inv [OF assms(1)] assms(2)] by (simp_all add: cmsghdr_new_def)
  then have l: "list_all (\<lambda>e. ce_len e = align a hs + length (ce_data e) \<and> ce_offset e + ce_len e \<le> msg_controllen h) (ch_written ch)"
    by (auto simp: cmsg_inv_def list_all_iff)
  have "sorted_wrt (\<lambda>e f. ce_offset e + ce_len e \<le> ce_offset f) (ch_written ch)" using i(1) by (simp add: cmsg_inv_def)
  then have "sorted_wrt (\<lambda>e f. ce_offset e + align a hs + length (ce_data e) \<le> ce_offset f) (ch_written ch)"
    by (rule sorted_wrt_mono_rel [rotated]) (use l in \<open>auto simp: list_all_iff\<close>)
  with i(2) l show ?thesis by (auto simp: list_all_iff)
qed

text \<open>The objects a header points to.\<close>

definition header_ptrs :: "msghdr \<Rightarrow> ptr list" where
  "header_ptrs h = [msg_name h, msg_iov h, msg_control h]"

text \<open>A pointer is good while the frame of its variable is on the stack.\<close>

definition points_into :: "string list \<Rightarrow> ptr \<Rightarrow> bool" where
  "points_into stack p \<longleftrightarrow> p = Null \<or> ptr_frame p \<in> set stack"




end
