(* ===== verification/Batch_Io.thy ===== *)
theory Batch_Io
  imports Socket_Io
begin

text \<open>
  \<open>bluefin/src/utils/macos_io.rs\<close>: the wrappers of the batched datagram calls of macOS. A system call is its answer: the
  return value, the last error, and for \<open>recvmsg_x\<close> the lengths it wrote into the message headers. \<open>debug\<close> says whether
  debug assertions are compiled in. \<open>None\<close> is a panic; an array index out of range is one in either build.
\<close>

definition MAX_BATCH :: usize where
  "MAX_BATCH = 16"

text \<open>The header of one datagram of a batch: the buffer descriptors are locals of the wrapper, the bytes its caller's.\<close>

definition send_batch_header :: "Bytes \<Rightarrow> msghdr \<times> iovec" where
  "send_batch_header d = (msghdr_zeroed\<lparr>msg_iov := Ptr ''sendmsg_x_connected'' ''iovs'', msg_iovlen := 1\<rparr>,
     \<lparr>iov_base = Ptr ''caller'' ''datagrams'', iov_len = length d\<rparr>)"

definition sendmsg_x_connected :: "bool \<Rightarrow> sys_answer \<Rightarrow> Bytes list \<Rightarrow> ((msghdr \<times> iovec) list \<times> (io_error + usize)) option" where
  "sendmsg_x_connected debug answer datagrams =
     (if debug \<and> (datagrams = [] \<or> length datagrams > MAX_BATCH) then None
      else if length datagrams > MAX_BATCH then None
      else Some (map send_batch_header datagrams,
             case answer of (rc, e) \<Rightarrow> if rc < 0 then Inl e else Inr (nat rc)))"

definition recv_batch_header :: "usize \<Rightarrow> Bytes \<Rightarrow> msghdr \<times> iovec" where
  "recv_batch_header storage_size buf = (msghdr_zeroed\<lparr>msg_name := Ptr ''recvmsg_x_into'' ''names'', msg_namelen := storage_size,
     msg_iov := Ptr ''recvmsg_x_into'' ''iovs'', msg_iovlen := 1\<rparr>, \<lparr>iov_base = Ptr ''caller'' ''bufs'', iov_len = length buf\<rparr>)"

text \<open>The loop that copies the lengths; \<open>hdr_lens\<close> are the lengths in the \<open>MAX_BATCH\<close> headers.\<close>

fun copy_lens :: "usize list \<Rightarrow> usize \<Rightarrow> usize \<Rightarrow> usize list \<Rightarrow> usize list option" where
  "copy_lens hdr_lens i 0 lens = Some lens"
| "copy_lens hdr_lens i (Suc k) lens =
     (if i \<ge> length hdr_lens \<or> i \<ge> length lens then None
      else copy_lens hdr_lens (Suc i) k (lens[i := hdr_lens ! i]))"

definition recvmsg_x_into :: "bool \<Rightarrow> usize \<Rightarrow> sys_answer \<Rightarrow> usize list \<Rightarrow> Bytes list \<Rightarrow> usize list \<Rightarrow>
    ((msghdr \<times> iovec) list \<times> usize list \<times> (io_error + usize)) option" where
  "recvmsg_x_into debug storage_size answer hdr_lens bufs lens =
     (if debug \<and> (bufs = [] \<or> length bufs > MAX_BATCH \<or> length lens < length bufs) then None
      else if length bufs > MAX_BATCH then None
      else let hdrs = map (recv_batch_header storage_size) bufs in
           case answer of (rc, e) \<Rightarrow>
             if rc < 0 then Some (hdrs, lens, Inl e)
             else let received = nat rc in
                  if debug \<and> received > length bufs then None
                  else (case copy_lens hdr_lens 0 received lens of
                          None \<Rightarrow> None
                        | Some lens' \<Rightarrow> Some (hdrs, lens', Inr received)))"

lemma copy_lens_eq:
  "i + k \<le> length hdr_lens \<Longrightarrow> i + k \<le> length lens \<Longrightarrow>
   copy_lens hdr_lens i k lens = Some (take i lens @ take k (drop i hdr_lens) @ drop (i + k) lens)"
proof (induction k arbitrary: i lens)
  case (Suc k)
  then have "copy_lens hdr_lens i (Suc k) lens =
      Some (take (Suc i) (lens[i := hdr_lens ! i]) @ take k (drop (Suc i) hdr_lens) @ drop (Suc i + k) (lens[i := hdr_lens ! i]))"
    by simp
  also have "take (Suc i) (lens[i := hdr_lens ! i]) = take i lens @ [hdr_lens ! i]"
    using Suc.prems by (simp add: take_Suc_conv_app_nth)
  finally show ?case using Suc.prems by (simp add: Cons_nth_drop_Suc [symmetric])
qed simp

text \<open>A batch of one to sixteen datagrams is described one header each, in order, in live memory; the count is the kernel's.\<close>

lemma sendmsg_x_batch:
  assumes "datagrams \<noteq> []" and "length datagrams \<le> MAX_BATCH"
  shows "\<exists>hdrs r. sendmsg_x_connected debug (rc, e) datagrams = Some (hdrs, r) \<and> map (iov_len \<circ> snd) hdrs = map length datagrams \<and>
    list_all (\<lambda>(h, v). list_all (points_into [''sendmsg_x_connected'', ''caller'']) (iov_base v # header_ptrs h)) hdrs \<and>
    r = (if rc < 0 then Inl e else Inr (nat rc))"
  using assms
  by (auto simp: sendmsg_x_connected_def send_batch_header_def msghdr_zeroed_def header_ptrs_def points_into_def list_all_iff comp_def)

text \<open>If the kernel fills no more messages than it was given, the lengths of those, and only those, are handed on.\<close>

lemma recvmsg_x_batch:
  assumes "bufs \<noteq> []" and "length bufs \<le> MAX_BATCH" and "length bufs \<le> length lens" and "length hdr_lens = MAX_BATCH"
    and "0 \<le> rc" and "nat rc \<le> length bufs"
  shows "\<exists>hdrs. recvmsg_x_into debug n (rc, e) hdr_lens bufs lens =
    Some (hdrs, take (nat rc) hdr_lens @ drop (nat rc) lens, Inr (nat rc)) \<and> map (iov_len \<circ> snd) hdrs = map length bufs"
  using assms copy_lens_eq [of 0 "nat rc" hdr_lens lens]
  by (simp add: recvmsg_x_into_def Let_def recv_batch_header_def comp_def)

end
