(* ===== verification/Tasks.thy ===== *)
theory Tasks
  imports Connection
begin

text \<open>
  The tasks that run behind a connection while the application is elsewhere: the writer's packetiser, sender and
  acknowledgement tasks (\<open>bluefin/src/worker/writer.rs\<close>), the receive task that hands over one parsed datagram
  (\<open>conn_reader.rs\<close>), and the drainer that answers FINs (\<open>connection.rs\<close>). A step of any of them leaves the
  connection a source of bytes, only ever extends what the application can read, and keeps the history of its writer.
\<close>

definition set_bufs :: "ConnectionManagedBuffers \<Rightarrow> BluefinConnection \<Rightarrow> BluefinConnection" where
  "set_bufs b c = c\<lparr>bc_rx := (bc_rx c)\<lparr>rx_bufs := b\<rparr>\<rparr>"

lemma set_bufs_simps [simp]:
  "rx_bufs (bc_rx (set_bufs b c)) = b" "bc_writer (set_bufs b c) = bc_writer c"
  "rx_bufs (bc_rx (set_writer w c)) = rx_bufs (bc_rx c)"
  by (simp_all add: set_bufs_def set_writer_def)

text \<open>One step of one task, with the bytes it makes readable.\<close>

inductive conn_task :: "BluefinConnection \<Rightarrow> Bytes \<Rightarrow> BluefinConnection \<Rightarrow> bool" where
  receive: "pump_receive (bc_writer c) = Some w \<Longrightarrow> conn_task c [] (set_writer w c)"
| pack: "pump_pack (bc_writer c) = Some (Ok w) \<Longrightarrow> conn_task c [] (set_writer w c)"
| store: "pump_store (bc_writer c) = Some w \<Longrightarrow> conn_task c [] (set_writer w c)"
| sender: "sender_turn (bc_writer c) = Some w \<Longrightarrow> conn_task c [] (set_writer w c)"
| acks: "ack_turn oks (bc_writer c) = Some (Ok w) \<Longrightarrow> conn_task c [] (set_writer w c)"
| fin_ack: "fin_ack_drain io c = Some c' \<Longrightarrow> conn_task c [] c'"
| datagram: "c' = set_bufs (fst (buffer_in_packets ps (rx_bufs (bc_rx c)))) c \<Longrightarrow> length (conn_stream c') < 2 ^ 64 \<Longrightarrow>
    conn_task c (drop (length (conn_stream c)) (conn_stream c')) c'"

text \<open>A connection past its handshake.\<close>

definition live :: "BluefinConnection \<Rightarrow> bool" where
  "live c \<longleftrightarrow> conn_source c \<and> start_packet_number_set (mb_conn (rx_bufs (bc_rx c)))"

section \<open>Buffering only extends the stream\<close>

lemma takeWhile_fill:
  "i < length v \<Longrightarrow> v ! i = None \<Longrightarrow> \<exists>zs. takeWhile (\<lambda>x. x \<noteq> None) (v[i := Some p]) = takeWhile (\<lambda>x. x \<noteq> None) v @ zs"
proof (induction v arbitrary: i)
  case (Cons a v)
  then show ?case by (cases i) auto
qed simp

lemma buffer_in_packet_extends:
  assumes "ob_wf ob"
  shows "\<exists>xs. stream (fst (buffer_in_packet p ob)) = stream ob @ xs"
proof -
  obtain ob' r where b: "buffer_in_packet p ob = (ob', r)" by fastforce
  note v = buffer_in_packet_view [OF assms b]
  let ?i = "unat (packet_number (header p) - smallest_packet_number ob)"
  have "\<exists>zs. takeWhile (\<lambda>x. x \<noteq> None) (view ob') = takeWhile (\<lambda>x. x \<noteq> None) (view ob) @ zs"
  proof (cases "r = Ok ()")
    case True
    with v(4) have "?i < length (view ob)" "view ob ! ?i = None" using assms by (simp_all add: ob_wf_def)
    from takeWhile_fill [OF this] show ?thesis using v(1) True by simp
  qed (use v(1) in simp)
  then show ?thesis using v(3) b by (auto simp: stream_def carried_def contiguous_def)
qed

lemma buffer_all_extends: "ob_wf ob \<Longrightarrow> \<exists>xs. stream (buffer_all ps ob) = stream ob @ xs"
proof (induction ps arbitrary: ob)
  case (Cons p ps)
  obtain ob' r where b: "buffer_in_packet p ob = (ob', r)" by fastforce
  then obtain xs ys where "stream ob' = stream ob @ xs" "stream (buffer_all ps ob') = stream ob' @ ys"
    using buffer_in_packet_extends [OF Cons.prems, of p] Cons.IH [OF buffer_in_packet_wf [OF Cons.prems b]] by auto
  then show ?case using b by (simp add: buffer_all_def)
qed (simp add: buffer_all_def)

lemma wake_conn [simp]: "mb_conn (wake w b) = mb_conn b"
  by (simp add: wake_def)

lemma buffer_in_packets_conn:
  assumes "ob_wf (ordered_bytes (mb_conn b))"
  shows "\<exists>qs. mb_conn (fst (buffer_in_packets ps b)) = (mb_conn b)\<lparr>ordered_bytes := buffer_all qs (ordered_bytes (mb_conn b))\<rparr>"
proof -
  obtain e where d: "buffer_data_loop ps None (mb_conn b) = ((mb_conn b)\<lparr>ordered_bytes := buffer_all ps (ordered_bytes (mb_conn b))\<rparr>, Ok e)"
    using buffer_data_loop_eq [OF assms] by blast
  have "mb_conn (fst (buffer_in_data_packets ps b)) = (mb_conn b)\<lparr>ordered_bytes := buffer_all ps (ordered_bytes (mb_conn b))\<rparr>"
    by (simp add: buffer_in_data_packets_def d wake_and_report_def split: option.split)
  moreover have "mb_conn (fst (buffer_in_ack_packets ps b)) = mb_conn b"
    by (auto simp: buffer_in_ack_packets_def wake_and_report_def split: BluefinResult.split prod.split option.split)
  moreover have "mb_conn (fst (buffer_in_close_packets ps b)) = mb_conn b"
    by (auto simp: buffer_in_close_packets_def Let_def split: BluefinResult.split prod.split option.split)
  moreover have "mb_conn b = (mb_conn b)\<lparr>ordered_bytes := buffer_all [] (ordered_bytes (mb_conn b))\<rparr>"
    by (simp add: buffer_all_def)
  ultimately show ?thesis
    by (cases ps) (auto simp: buffer_in_packets_def Let_def)
qed

section \<open>What a step keeps\<close>

lemma set_writer_source [simp]:
  "conn_stream (set_writer w c) = conn_stream c" "live (set_writer w c) = live c"
  by (simp_all add: conn_stream_def conn_source_def live_def set_writer_def)

lemma fin_ack_drain_effect:
  assumes "fin_ack_drain io c = Some c'"
  shows "conn_stream c' = conn_stream c" and "live c' = live c"
    and "bc_writer c' = bc_writer c \<or> (\<exists>k. send_fin_ack io k (bc_writer c) = Ok (bc_writer c'))"
  using assms
  by (auto simp: fin_ack_drain_def Let_def conn_stream_def conn_source_def live_def set_writer_def
      split: option.splits list.splits BluefinResult.splits)

lemma datagram_effect:
  assumes "live c" and "c' = set_bufs (fst (buffer_in_packets ps (rx_bufs (bc_rx c)))) c" and "length (conn_stream c') < 2 ^ 64"
  shows "live c'" and "\<exists>xs. conn_stream c' = conn_stream c @ xs"
proof -
  let ?cb = "mb_conn (rx_bufs (bc_rx c))"
  have wf: "ob_wf (ordered_bytes ?cb)" using assms(1) by (simp add: live_def conn_source_def conn_wf_def)
  obtain qs where q: "mb_conn (rx_bufs (bc_rx c')) = ?cb\<lparr>ordered_bytes := buffer_all qs (ordered_bytes ?cb)\<rparr>"
    using buffer_in_packets_conn [OF wf, of ps] assms(2) by auto
  with buffer_all_extends [OF wf, of qs] show "\<exists>xs. conn_stream c' = conn_stream c @ xs" by (simp add: conn_stream_def)
  from q buffer_all_frame [OF wf, of qs] assms(1,3) show "live c'"
    by (simp add: live_def conn_source_def conn_wf_def)
qed

lemma conn_task_live: "conn_task c xs c' \<Longrightarrow> live c \<Longrightarrow> live c' \<and> conn_stream c' = conn_stream c @ xs"
proof (induction rule: conn_task.induct)
  case (fin_ack io c c')
  then show ?case using fin_ack_drain_effect [OF fin_ack.hyps] by simp
next
  case (datagram c' ps c)
  then show ?case using datagram_effect [OF datagram.prems datagram.hyps] by auto
qed simp_all

lemma conn_task_writer:
  "conn_task c xs c' \<Longrightarrow> writer_run n src dst acc acks (bc_writer c) \<Longrightarrow> writer_run n src dst acc acks (bc_writer c')"
proof (induction rule: conn_task.induct)
  case (fin_ack io c c')
  then show ?case using fin_ack_drain_effect(3) [OF fin_ack.hyps] by (auto intro: writer_run.fin_ack)
qed (auto intro: writer_run.receive writer_run.pack writer_run.store writer_run.sender writer_run.acks)

lemma conn_task_ids: "conn_task c xs c' \<Longrightarrow> bc_src_conn_id c' = bc_src_conn_id c \<and> bc_dst_conn_id c' = bc_dst_conn_id c"
  by (induction rule: conn_task.induct)
    (auto simp: fin_ack_drain_def Let_def set_bufs_def set_writer_def split: option.splits list.splits BluefinResult.splits)

section \<open>What a read does\<close>

lemma account_read_writer_run:
  assumes "writer_run n src dst acc acks (rx_writer rx)"
  shows "\<exists>acks'. writer_run n src dst acc acks' (rx_writer (account_read res rx))"
proof (cases "send_ack (base_packet_number res) (num_packets_consumed res) (rx_writer rx)")
  case (Pair w r)
  from writer_run.ack [OF assms Pair] assms Pair show ?thesis unfolding account_read_writer(1) by auto
qed

lemma reader_read_writer_run:
  assumes "writer_run n src dst acc acks (rx_writer rx)" and "reader_read k buf rx = (rx', buf', r)"
  shows "\<exists>acks'. writer_run n src dst acc acks' (rx_writer rx')"
proof -
  have "rx_writer (set_rx_conn cb rx) = rx_writer rx" for cb by simp
  then show ?thesis
    using assms account_read_writer_run [of n src dst acc acks "set_rx_conn _ rx"]
    by (auto simp: reader_read_def split: BluefinResult.splits option.splits prod.splits)
qed

lemma reader_read_empty_buf:
  assumes "conn_wf (mb_conn (rx_bufs rx))" and "cb_addr (mb_conn (rx_bufs rx)) = Some a" and "0 < n" and "n \<le> length buf"
    and "stream (rx_ordered rx) = []" and "reader_read n buf rx = (rx', buf', r)"
  shows "buf' = buf"
proof -
  have ow: "ob_wf (rx_ordered rx)" using assms(1) by (simp add: conn_wf_def)
  obtain ob where "consume n buf (rx_ordered rx) = (ob, buf, Err BufferEmptyError)"
    using consume_spec [OF ow assms(3,4)] assms(5) by (auto simp: write_at_def)
  with assms(2,6) show ?thesis
    by (auto simp: reader_read_def conn_consume_def eof_addr_def split: BluefinResult.splits option.splits if_splits)
qed

text \<open>One \<open>recv\<close> into a buffer: what it reports, what it leaves.\<close>

lemma conn_recv_live:
  assumes "live c" and "0 < n" and "n \<le> length buf" and "conn_recv buf n c = (c', buf', r)"
  shows "live c'" and "length buf' = length buf" and "conn_stream c' = drop n (conn_stream c)"
    and "conn_stream c \<noteq> [] \<Longrightarrow> r = Ok (min n (length (conn_stream c))) \<and> take (min n (length (conn_stream c))) buf' = take n (conn_stream c)"
    and "conn_stream c = [] \<Longrightarrow> r = Ok 0 \<or> r = Panic \<or> (\<exists>e. r = Err e)"
    and "writer_run m src dst acc acks (bc_writer c) \<Longrightarrow> \<exists>acks'. writer_run m src dst acc acks' (bc_writer c')"
proof -
  let ?rx = "bc_rx c" and ?S = "conn_stream c"
  obtain rx' r0 where r0: "reader_read n buf ?rx = (rx', buf', r0)" and c': "c' = c\<lparr>bc_rx := rx'\<rparr>"
    and r: "r = bind_res r0 (\<lambda>(size, _). Ok (unat size))"
    using assms(4) by (auto simp: conn_recv_def split: prod.splits)
  obtain a where a: "cb_addr (mb_conn (rx_bufs ?rx)) = Some a" using assms(1) by (auto simp: live_def conn_source_def)
  have wf: "conn_wf (mb_conn (rx_bufs ?rx))" and short: "length ?S < 2 ^ 64"
    using assms(1) by (simp_all add: live_def conn_source_def)
  show "\<exists>acks'. writer_run m src dst acc acks' (bc_writer c')" if "writer_run m src dst acc acks (bc_writer c)"
    using reader_read_writer_run [OF that r0] by (simp add: c')
  have set: "start_packet_number_set (mb_conn (rx_bufs rx')) = start_packet_number_set (mb_conn (rx_bufs ?rx))"
    using r0 by (auto simp: reader_read_def conn_consume_def split: BluefinResult.splits option.splits prod.splits)
  have S: "stream (rx_ordered rx') = drop n ?S \<and> length buf' = length buf \<and>
     (?S \<noteq> [] \<longrightarrow> r0 = Ok (of_nat (min n (length ?S)), a) \<and> take (min n (length ?S)) buf' = take n ?S) \<and>
     (?S = [] \<longrightarrow> r0 = Ok (0, a) \<or> r0 = Panic \<or> (\<exists>e. r0 = Err e))"
  proof (cases "?S = []")
    case True
    then show ?thesis using reader_read_empty [OF wf a assms(2,3) _ r0] reader_read_empty_buf [OF wf a assms(2,3) _ r0]
      by (simp add: conn_stream_def)
  next
    case False
    then obtain rx1 where "reader_read n buf ?rx = (rx1, take n ?S @ drop (length (take n ?S)) buf, Ok (of_nat (min n (length ?S)), a))"
      "stream (rx_ordered rx1) = drop n ?S"
      by (rule_tac reader_read_stream [OF wf a assms(2,3)]) (simp_all add: conn_stream_def)
    with r0 False assms(3) show ?thesis by (auto simp: min_def)
  qed
  then show "conn_stream c' = drop n ?S" and "length buf' = length buf" by (simp_all add: c' conn_stream_def)
  show "live c'" using reader_read_wf [OF wf assms(3) r0] reader_read_addr [OF r0] assms(1) set S short
    by (auto simp: c' live_def conn_source_def conn_stream_def)
  show "r = Ok (min n (length ?S)) \<and> take (min n (length ?S)) buf' = take n ?S" if "?S \<noteq> []"
    using S that short by (simp add: r unat_u64_of_nat)
  show "r = Ok 0 \<or> r = Panic \<or> (\<exists>e. r = Err e)" if "?S = []" using S that by (auto simp: r)
qed

text \<open>One byte sent on a new connection, through the tasks and onto the wire.\<close>

lemma one_byte_turns:
  assumes "bc_writer c = writer_start (writer_new n src dst)"
  obtains c1 c2 c3 c4 where "conn_send [b] c = (c1, Ok 1)" "conn_task c1 [] c2" "conn_task c2 [] c3" "conn_task c3 [] c4"
    "conn_flush_ready c4" "sent (bc_writer c4) = [DataDatagram (frames (data_packets (data_header src dst security_default) n [[b]]))]"
    "pump_packet_num (bc_writer c4) = n + 1"
proof -
  let ?w0 = "writer_start (writer_new n src dst)" and ?f = "frames (data_packets (data_header src dst security_default) n [[b]])"
  let ?ch = "\<lparr>chan_bound = Some DATA_CHANNEL_BOUND, chan_open = True, chan_queue = [[b]]\<rparr>"
  let ?w1 = "?w0\<lparr>pending_bytes := 1, data_sender := Some ?ch\<rparr>"
  let ?w2 = "?w1\<lparr>data_queue := [[b]], data_sender := Some (?ch\<lparr>chan_queue := []\<rparr>), pump_phase := Packing 0\<rparr>"
  have 1: "send_data [b] ?w0 = (?w1, Ok 1)"
    by (simp add: send_data_def writer_start_def writer_new_def chan_try_send_def chan_has_room_def DATA_CHANNEL_BOUND_def Let_def)
  have 2: "pump_receive ?w1 = Some ?w2" by (simp add: pump_receive_def writer_start_def writer_new_def)
  from writer_run.receive [OF writer_run.data [OF writer_run.start 1] 2] have run: "writer_run n src dst [b] [] ?w2" by simp
  have t: "taken 10 [b] = [[b]]" by (simp add: taken_def pieces_short)
  obtain w3 where 3: "pump_pack ?w2 = Some (Ok w3)" "sent w3 = []" "pending_bytes w3 = 1" "send_queue w3 = [(?f, 1)]"
      "pump_packet_num w3 = n + 1"
    by (rule pump_pack_step [OF run, of 0]) (use t in \<open>auto simp: writer_start_def writer_new_def\<close>)
  let ?w4 = "w3\<lparr>send_queue := [], sent := [DataDatagram ?f], pending_bytes := 0, flush_notify := flush_notify w3 + 1\<rparr>"
  have 4: "sender_turn w3 = Some ?w4" using 3 by (simp add: sender_turn_def)
  let ?c1 = "set_writer ?w1 c" and ?c2 = "set_writer ?w2 c" and ?c3 = "set_writer w3 c" and ?c4 = "set_writer ?w4 c"
  have ss: "set_writer v (set_writer w c) = set_writer v c" for v w by (simp add: set_writer_def)
  have "conn_send [b] c = (?c1, Ok 1)" using 1 by (simp add: conn_send_def assms)
  moreover have "conn_task ?c1 [] ?c2" using conn_task.receive [of ?c1 ?w2] 2 by (simp add: ss)
  moreover have "conn_task ?c2 [] ?c3" using conn_task.pack [of ?c2 w3] 3(1) by (simp add: ss)
  moreover have "conn_task ?c3 [] ?c4" using conn_task.sender [of ?c3 ?w4] 4 by (simp add: ss)
  ultimately show ?thesis by (rule that) (use 3(5) in \<open>simp_all add: conn_flush_ready_def flush_ready_def\<close>)
qed

end
