(* ===== verification/Bench.thy ===== *)
theory Bench
  imports Tasks Settings
begin

text \<open>
  The benchmark programs. \<open>bluefin/src/bin/server.rs\<close>: the connections \<open>run\<close> accepts, and the loop it runs over each, with
  its counters and its idle timer. \<open>bluefin/src/bin/client.rs\<close>: what \<open>run_connection\<close> sends, waits for and closes. Both
  loops are state machines whose steps end at the awaits, interleaved with the tasks of the connection; time is in
  milliseconds. The throughput figures (floating point, to standard error) are left out, the counters they are
  computed from are kept.
\<close>

section \<open>The server\<close>

definition IDLE_RESET_EVERY :: int where
  "IDLE_RESET_EVERY = 4096"

text \<open>The accept loop of \<open>run\<close>, given what the calls of \<open>accept\<close> returned: the connections with their numbers.\<close>

fun accept_each :: "usize \<Rightarrow> BluefinConnection BluefinResult list \<Rightarrow> (usize \<times> BluefinConnection) list" where
  "accept_each conn_num [] = []"
| "accept_each conn_num (Ok c # rs) = (conn_num, c) # accept_each (Suc conn_num) rs"
| "accept_each conn_num (_ # rs) = accept_each (Suc conn_num) rs"

datatype bench_end = ByShutdown | ByError BluefinError | ByIdle | ByEof

datatype bench_phase = LoopHead | InSelect | Ended bench_end | BenchPanicked

text \<open>What a periodic print reports: the total, the iteration, the extremes, and the bytes since the previous print.\<close>

record bench_print =
  bp_total :: usize
  bp_iteration :: int
  bp_min :: usize
  bp_max :: usize
  bp_window :: usize

record BenchServer =
  bs_phase :: bench_phase
  bs_conn :: BluefinConnection
  bs_total_bytes :: usize
  bs_min_bytes :: usize
  bs_max_bytes :: usize
  bs_iteration :: int
  bs_without_print :: usize
  bs_last_print_bytes :: usize
  bs_idle_deadline :: usize
  bs_prints :: "bench_print list"

definition bench_start :: "usize \<Rightarrow> usize \<Rightarrow> BluefinConnection \<Rightarrow> BenchServer" where
  "bench_start recv_idle now c = \<lparr>bs_phase = LoopHead, bs_conn = c, bs_total_bytes = 0, bs_min_bytes = 2 ^ 64 - 1, bs_max_bytes = 0,
     bs_iteration = 1, bs_without_print = 0, bs_last_print_bytes = 0, bs_idle_deadline = now + recv_idle, bs_prints = []\<rparr>"

definition bench_head :: "bool \<Rightarrow> BenchServer \<Rightarrow> BenchServer option" where
  "bench_head shutdown s = (case bs_phase s of
      LoopHead \<Rightarrow> Some (s\<lparr>bs_phase := (if shutdown then Ended ByShutdown else InSelect)\<rparr>)
    | _ \<Rightarrow> None)"

definition bench_report :: "BenchServer \<Rightarrow> BenchServer" where
  "bench_report s =
     (if bs_total_bytes s \<ge> 1000000 \<and> bs_without_print s \<ge> 3500
      then s\<lparr>bs_prints := bs_prints s @ [\<lparr>bp_total = bs_total_bytes s, bp_iteration = bs_iteration s, bp_min = bs_min_bytes s,
               bp_max = bs_max_bytes s, bp_window = bs_total_bytes s - bs_last_print_bytes s\<rparr>],
             bs_last_print_bytes := bs_total_bytes s, bs_without_print := 0\<rparr>
      else s)"

text \<open>The rest of an iteration, after \<open>recv_bytes\<close> returned \<open>size\<close> bytes in \<open>chunks\<close>.\<close>

definition bench_account :: "usize \<Rightarrow> usize \<Rightarrow> usize \<Rightarrow> Bytes list \<Rightarrow> BenchServer \<Rightarrow> BenchServer" where
  "bench_account recv_idle now sz chunks s =
     (if sz = 0 \<and> chunks = [] then s\<lparr>bs_phase := Ended ByEof\<rparr>
      else
        (let s1 = (if bs_iteration s mod IDLE_RESET_EVERY = 0 then s\<lparr>bs_idle_deadline := now + recv_idle\<rparr> else s);
             s2 = s1\<lparr>bs_total_bytes := bs_total_bytes s1 + sz,
                     bs_min_bytes := fold (\<lambda>b m. min (length b) m) chunks (bs_min_bytes s1),
                     bs_max_bytes := fold (\<lambda>b m. max (length b) m) chunks (bs_max_bytes s1),
                     bs_without_print := bs_without_print s1 + 1\<rparr>;
             s3 = bench_report s2 in
         s3\<lparr>bs_iteration := bs_iteration s3 + 1, bs_phase := LoopHead\<rparr>))"

text \<open>One poll of the biased \<open>select!\<close>: \<open>recv_bytes\<close> first, then the idle timer.\<close>

definition bench_select :: "usize \<Rightarrow> usize \<Rightarrow> Waker \<Rightarrow> BenchServer \<Rightarrow> BenchServer option" where
  "bench_select recv_idle now cx s = (case bs_phase s of
      InSelect \<Rightarrow>
        (let c = bs_conn s in
         case reader_poll (peer_fin_observed (bc_close c)) cx (mb_conn (rx_bufs (bc_rx c))) of
           (cb, None) \<Rightarrow>
             (let s1 = s\<lparr>bs_conn := c\<lparr>bc_rx := set_rx_conn cb (bc_rx c)\<rparr>\<rparr> in
              Some (if bs_idle_deadline s1 \<le> now then s1\<lparr>bs_phase := Ended ByIdle\<rparr> else s1))
         | (cb, Some Panic) \<Rightarrow> Some (s\<lparr>bs_phase := BenchPanicked\<rparr>)
         | (cb, Some _) \<Rightarrow>
             (case conn_recv_bytes [] 16 c of
                (c', chunks, Ok sz) \<Rightarrow> Some (bench_account recv_idle now sz chunks (s\<lparr>bs_conn := c'\<rparr>))
              | (c', chunks, Err e) \<Rightarrow> Some (s\<lparr>bs_conn := c', bs_phase := Ended (ByError e)\<rparr>)
              | (c', chunks, Panic) \<Rightarrow> Some (s\<lparr>bs_conn := c', bs_phase := BenchPanicked\<rparr>)))
    | _ \<Rightarrow> None)"

text \<open>After the loop: the server closes unless the peer did.\<close>

definition bench_finish :: "(nat \<Rightarrow> fin_attempt) \<Rightarrow> BenchServer \<Rightarrow> Host \<Rightarrow> (BenchServer \<times> Host) option" where
  "bench_finish env s h = (case bs_phase s of
      Ended ByEof \<Rightarrow> Some (s, h)
    | Ended _ \<Rightarrow> (case conn_close env (bs_conn s) h of (c, h', _) \<Rightarrow> Some (s\<lparr>bs_conn := c\<rparr>, h'))
    | _ \<Rightarrow> None)"

section \<open>The client\<close>

definition warm_up :: "Bytes list" where
  "warm_up = [[1, 2, 3, 4, 5, 6, 7], replicate 6 12, replicate 100 13, replicate 6 14]"

definition bench_payload :: Bytes where
  "bench_payload = replicate 1500 0"

text \<open>Where \<open>run_connection\<close> is: in the warm-up, about to make or inside send \<open>i\<close>, past it (to yield and pace), flushing, or closing.\<close>

datatype client_phase = WarmUp "Bytes list" | AboutToSend usize | InSend usize | Sent usize | ClientFlushing | ClientClosing
  | ClientFailed BluefinError | ClientPanicked

record BenchClient =
  cl_phase :: client_phase
  cl_conn :: BluefinConnection
  cl_total_bytes :: usize

definition client_start :: "BluefinConnection \<Rightarrow> BenchClient" where
  "client_start c = \<lparr>cl_phase = WarmUp warm_up, cl_conn = c, cl_total_bytes = 0\<rparr>"

definition client_warm_up :: "BenchClient \<Rightarrow> BenchClient option" where
  "client_warm_up s = (case cl_phase s of
      WarmUp [] \<Rightarrow> Some (s\<lparr>cl_phase := AboutToSend 0\<rparr>)
    | WarmUp (d # ds) \<Rightarrow>
        (case conn_send d (cl_conn s) of
           (c, Ok n) \<Rightarrow> Some (s\<lparr>cl_conn := c, cl_total_bytes := cl_total_bytes s + n, cl_phase := WarmUp ds\<rparr>)
         | (c, Err e) \<Rightarrow> Some (s\<lparr>cl_conn := c, cl_phase := ClientFailed e\<rparr>)
         | (c, Panic) \<Rightarrow> Some (s\<lparr>cl_conn := c, cl_phase := ClientPanicked\<rparr>))
    | _ \<Rightarrow> None)"

text \<open>What a completed send does to the loop.\<close>

definition client_sent :: "usize \<Rightarrow> usize BluefinResult \<Rightarrow> BenchClient \<Rightarrow> BenchClient" where
  "client_sent i r s = (case r of
      Ok n \<Rightarrow> s\<lparr>cl_total_bytes := cl_total_bytes s + n, cl_phase := Sent i\<rparr>
    | Err e \<Rightarrow> s\<lparr>cl_phase := ClientFailed e\<rparr>
    | Panic \<Rightarrow> s\<lparr>cl_phase := ClientPanicked\<rparr>)"

definition client_send :: "usize \<Rightarrow> BenchClient \<Rightarrow> BenchClient option" where
  "client_send n_sends s = (case cl_phase s of
      AboutToSend i \<Rightarrow>
        if i < n_sends then
          (case conn_send_bytes_async bench_payload (cl_conn s) of
             (c, Some r) \<Rightarrow> Some (client_sent i r (s\<lparr>cl_conn := c\<rparr>))
           | (c, None) \<Rightarrow> Some (s\<lparr>cl_conn := c, cl_phase := InSend i\<rparr>))
        else Some (s\<lparr>cl_phase := ClientFlushing\<rparr>)
    | _ \<Rightarrow> None)"

text \<open>The parked send goes on once there is room; it is the connection's only one.\<close>

definition client_resume :: "BenchClient \<Rightarrow> BenchClient option" where
  "client_resume s = (case cl_phase s of
      InSend i \<Rightarrow>
        (case send_bytes_resume 0 (bc_writer (cl_conn s)) of
           Some (w, r) \<Rightarrow> Some (client_sent i r (s\<lparr>cl_conn := set_writer w (cl_conn s)\<rparr>))
         | None \<Rightarrow> None)
    | _ \<Rightarrow> None)"

text \<open>After a send: every 256 sends a yield and a look at the shutdown flag; the pacing sleep only passes time.\<close>

definition client_yield :: "bool \<Rightarrow> BenchClient \<Rightarrow> BenchClient option" where
  "client_yield shutdown s = (case cl_phase s of
      Sent i \<Rightarrow> Some (s\<lparr>cl_phase := (if i mod SENDS_PER_YIELD = 0 \<and> shutdown then ClientFlushing else AboutToSend (Suc i))\<rparr>)
    | _ \<Rightarrow> None)"

definition client_flushed :: "BenchClient \<Rightarrow> BenchClient option" where
  "client_flushed s = (case cl_phase s of
      ClientFlushing \<Rightarrow> if conn_flush_ready (cl_conn s) then Some (s\<lparr>cl_phase := ClientClosing\<rparr>) else None
    | _ \<Rightarrow> None)"

text \<open>What follows the flush: the close, whose failure is only logged.\<close>

definition client_finish :: "(nat \<Rightarrow> fin_attempt) \<Rightarrow> BenchClient \<Rightarrow> Host \<Rightarrow> (BenchClient \<times> Host) option" where
  "client_finish env s h = (case cl_phase s of
      ClientClosing \<Rightarrow> (case conn_close env (cl_conn s) h of (c, h', _) \<Rightarrow> Some (s\<lparr>cl_conn := c\<rparr>, h'))
    | _ \<Rightarrow> None)"

text \<open>The exit code of the program: 1 if a connection task failed (\<open>None\<close>: it panicked).\<close>

definition client_exit_code :: "(BluefinError option) option list \<Rightarrow> int" where
  "client_exit_code results = (if list_all (\<lambda>r. r = Some None) results then 0 else 1)"

section \<open>Runs of the server loop\<close>

text \<open>The loop with the tasks of the connection interleaved: the bytes that became readable, the time of the last receive
  that brought any, and the state.\<close>

inductive bench_run :: "usize \<Rightarrow> BenchServer \<Rightarrow> Bytes \<Rightarrow> usize \<Rightarrow> BenchServer \<Rightarrow> bool" for recv_idle s0 where
  start: "bench_run recv_idle s0 [] 0 s0"
| tasks: "bench_run recv_idle s0 arr t s \<Longrightarrow> bs_phase s \<in> {LoopHead, InSelect} \<Longrightarrow> conn_task (bs_conn s) xs c \<Longrightarrow>
    bench_run recv_idle s0 (arr @ xs) t (s\<lparr>bs_conn := c\<rparr>)"
| head: "bench_run recv_idle s0 arr t s \<Longrightarrow> bench_head shutdown s = Some s' \<Longrightarrow> bench_run recv_idle s0 arr t s'"
| select: "bench_run recv_idle s0 arr t s \<Longrightarrow> bench_select recv_idle now cx s = Some s' \<Longrightarrow>
    bench_run recv_idle s0 arr (if bs_total_bytes s < bs_total_bytes s' then now else t) s'"

lemma conn_recv_bytes_live:
  assumes "live c" and "snd (reader_poll (peer_fin_observed (bc_close c)) cx (mb_conn (rx_bufs (bc_rx c)))) = Some (Ok ())"
    and "conn_recv_bytes [] 16 c = (c', chunks, r)"
  shows "live c'" and "conn_stream c = concat chunks @ conn_stream c'" and "r = Ok (length (concat chunks))"
    and "chunks = [] \<Longrightarrow> conn_stream c = []"
proof -
  let ?rx = "bc_rx c"
  have l: "conn_wf (mb_conn (rx_bufs ?rx))" "length (stream (rx_ordered ?rx)) < 2 ^ 64" "start_packet_number_set (mb_conn (rx_bufs ?rx))"
    using assms(1) by (simp_all add: live_def conn_source_def conn_stream_def)
  obtain a where a: "cb_addr (mb_conn (rx_bufs ?rx)) = Some a" using assms(1) by (auto simp: live_def conn_source_def)
  obtain rx' ch r0 where b: "reader_read_bytes [] 16 ?rx = (rx', [] @ ch, r0)" "conn_wf (mb_conn (rx_bufs rx'))"
      "stream (rx_ordered ?rx) = concat ch @ stream (rx_ordered rx')"
      "if ch \<noteq> [] then r0 = Ok (of_nat (length (concat ch)), a)
       else if (16::usize) = 0 \<and> contiguous (rx_ordered ?rx) \<noteq> [] then r0 = Err BufferEmptyError
       else peer_fin_observed (mb_close (rx_bufs ?rx)) \<and> stream (rx_ordered ?rx) = [] \<and> rx' = ?rx \<and> r0 = Ok (0, a)"
    using reader_read_bytes_correct [OF l(1) a assms(2), of "[]" 16] by blast
  have keep: "cb_addr (mb_conn (rx_bufs rx')) = cb_addr (mb_conn (rx_bufs ?rx))"
      "start_packet_number_set (mb_conn (rx_bufs rx')) = start_packet_number_set (mb_conn (rx_bufs ?rx))"
    using b(1) by (auto simp: reader_read_bytes_def conn_consume_bytes_def split: BluefinResult.splits option.splits prod.splits)
  have out: "c' = c\<lparr>bc_rx := rx'\<rparr>" "chunks = ch" "r = bind_res r0 (\<lambda>(sz, _). Ok (unat sz))"
    using assms(3) b(1) by (simp_all add: conn_recv_bytes_def)
  have short: "length (concat ch) < 2 ^ 64" "length (stream (rx_ordered rx')) < 2 ^ 64" using arg_cong [OF b(3), of length] l(2) by simp_all
  show "live c'" using b(2) keep a l(3) short(2) by (simp add: out live_def conn_source_def conn_stream_def)
  show "conn_stream c = concat chunks @ conn_stream c'" using b(3) by (simp add: out conn_stream_def)
  show "r = Ok (length (concat chunks))" using b(4) short(1) by (cases "ch = []") (simp_all add: out unat_u64_of_nat)
  show "chunks = [] \<Longrightarrow> conn_stream c = []" using b(4) by (simp add: out conn_stream_def)
qed

definition bench_inv :: "usize \<Rightarrow> Bytes \<Rightarrow> BenchServer \<Rightarrow> bool" where
  "bench_inv first_deadline arrived s \<longleftrightarrow> live (bs_conn s) \<and> bs_total_bytes s + length (conn_stream (bs_conn s)) = length arrived \<and>
     bs_last_print_bytes s \<le> bs_total_bytes s \<and> sum_list (map bp_window (bs_prints s)) = bs_last_print_bytes s \<and>
     (bs_phase s = Ended ByEof \<longrightarrow> conn_stream (bs_conn s) = []) \<and> bs_phase s \<noteq> BenchPanicked \<and>
     1 \<le> bs_iteration s \<and> (bs_iteration s \<le> IDLE_RESET_EVERY \<longrightarrow> bs_idle_deadline s = first_deadline)"

lemma bench_account_inv:
  assumes "live (bs_conn s)" and "bs_total_bytes s + sz + length (conn_stream (bs_conn s)) = length arrived"
    and "bs_last_print_bytes s \<le> bs_total_bytes s" and "sum_list (map bp_window (bs_prints s)) = bs_last_print_bytes s"
    and it: "1 \<le> bs_iteration s" and dl: "bs_iteration s \<le> IDLE_RESET_EVERY \<Longrightarrow> bs_idle_deadline s = d"
    and eof: "sz = 0 \<and> chunks = [] \<Longrightarrow> conn_stream (bs_conn s) = []"
  shows "bench_inv d arrived (bench_account recv_idle now sz chunks s)"
proof (cases "sz = 0 \<and> chunks = []")
  case True
  with assms show ?thesis by (simp add: bench_account_def bench_inv_def)
next
  case False
  show ?thesis
  proof (cases "bs_iteration s mod IDLE_RESET_EVERY = 0")
    case True
    then have "\<not> bs_iteration s < IDLE_RESET_EVERY" using it zdvd_imp_le [of IDLE_RESET_EVERY "bs_iteration s"] by (auto simp: dvd_eq_mod_eq_0)
    with True False assms(1-4) it show ?thesis by (auto simp: bench_account_def bench_report_def bench_inv_def Let_def)
  next
    case False
    with \<open>\<not> (sz = 0 \<and> chunks = [])\<close> assms(1-4) it dl show ?thesis
      by (auto simp: bench_account_def bench_report_def bench_inv_def Let_def)
  qed
qed

lemma peek_never_panics: "ob_wf (ordered_bytes cb) \<Longrightarrow> conn_peek cb \<noteq> Panic"
  by (simp add: conn_peek_def peek_eq)

lemma bench_select_inv:
  assumes inv: "bench_inv d arrived s" and sel: "bench_select recv_idle now cx s = Some s'"
  shows "bench_inv d arrived s'"
proof -
  let ?c = "bs_conn s"
  have ph: "bs_phase s = InSelect" using sel by (auto simp: bench_select_def split: bench_phase.splits)
  have live: "live ?c" using inv by (simp add: bench_inv_def)
  then have "conn_peek (mb_conn (rx_bufs (bc_rx ?c))) \<noteq> Panic"
    by (intro peek_never_panics) (simp add: live_def conn_source_def conn_wf_def)
  then consider (pending) "reader_poll (peer_fin_observed (bc_close ?c)) cx (mb_conn (rx_bufs (bc_rx ?c))) =
        (conn_set_waker_if_changed cx (mb_conn (rx_bufs (bc_rx ?c))), None)"
    | (ready) "reader_poll (peer_fin_observed (bc_close ?c)) cx (mb_conn (rx_bufs (bc_rx ?c))) = (mb_conn (rx_bufs (bc_rx ?c)), Some (Ok ()))"
    by (cases "conn_peek (mb_conn (rx_bufs (bc_rx ?c)))"; cases "peer_fin_observed (bc_close ?c)") (simp_all add: reader_poll_def)
  then show ?thesis
  proof cases
    case pending
    with inv sel ph show ?thesis
      by (auto simp: bench_select_def Let_def bench_inv_def live_def conn_source_def conn_stream_def conn_wf_def split: if_splits)
  next
    case ready
    obtain c' chunks r where r: "conn_recv_bytes [] 16 ?c = (c', chunks, r)" using prod_cases3 by blast
    have "snd (reader_poll (peer_fin_observed (bc_close ?c)) cx (mb_conn (rx_bufs (bc_rx ?c)))) = Some (Ok ())" using ready by simp
    note v = conn_recv_bytes_live [OF live this r]
    have "s' = bench_account recv_idle now (length (concat chunks)) chunks (s\<lparr>bs_conn := c'\<rparr>)"
      using sel ready r v(3) by (simp add: bench_select_def ph Let_def)
    moreover have "bench_inv d arrived (bench_account recv_idle now (length (concat chunks)) chunks (s\<lparr>bs_conn := c'\<rparr>))"
      by (rule bench_account_inv) (use inv v(1,2,4) in \<open>auto simp: bench_inv_def\<close>)
    ultimately show ?thesis by simp
  qed
qed

lemma bench_run_inv:
  assumes "bench_run recv_idle s0 arr t s" and "bench_inv d a0 s0"
  shows "bench_inv d (a0 @ arr) s"
  using assms(1)
proof (induction rule: bench_run.induct)
  case start
  then show ?case using assms(2) by simp
next
  case (tasks arr t s xs c)
  from tasks.IH have "live (bs_conn s)" by (simp add: bench_inv_def)
  from conn_task_live [OF tasks.hyps(3) this] tasks.IH tasks.hyps(2) show ?case by (auto simp: bench_inv_def)
next
  case (head arr t s shutdown s')
  then show ?case by (cases shutdown) (auto simp: bench_head_def bench_inv_def split: bench_phase.splits)
next
  case (select arr t s now cx s')
  then show ?case using bench_select_inv by blast
qed

lemma bench_start_inv: "live c \<Longrightarrow> bench_inv (t0 + recv_idle) (conn_stream c) (bench_start recv_idle t0 c)"
  by (simp add: bench_inv_def bench_start_def)

section \<open>Runs of the client\<close>

inductive client_run :: "usize \<Rightarrow> BluefinConnection \<Rightarrow> bool \<Rightarrow> BenchClient \<Rightarrow> bool" for n_sends c0 where
  start: "client_run n_sends c0 False (client_start c0)"
| tasks: "client_run n_sends c0 sd s \<Longrightarrow> cl_phase s \<noteq> ClientClosing \<Longrightarrow> conn_task (cl_conn s) xs c \<Longrightarrow>
    client_run n_sends c0 sd (s\<lparr>cl_conn := c\<rparr>)"
| shutdown: "client_run n_sends c0 sd s \<Longrightarrow> client_run n_sends c0 True s"
| warm: "client_run n_sends c0 sd s \<Longrightarrow> client_warm_up s = Some s' \<Longrightarrow> client_run n_sends c0 sd s'"
| send: "client_run n_sends c0 sd s \<Longrightarrow> client_send n_sends s = Some s' \<Longrightarrow> client_run n_sends c0 sd s'"
| resume: "client_run n_sends c0 sd s \<Longrightarrow> client_resume s = Some s' \<Longrightarrow> client_run n_sends c0 sd s'"
| yield: "client_run n_sends c0 sd s \<Longrightarrow> client_yield sd s = Some s' \<Longrightarrow> client_run n_sends c0 sd s'"
| flushed: "client_run n_sends c0 sd s \<Longrightarrow> client_flushed s = Some s' \<Longrightarrow> client_run n_sends c0 sd s'"

definition payloads :: "usize \<Rightarrow> Bytes" where
  "payloads i = concat (replicate i bench_payload)"

lemma payloads_Suc: "payloads (Suc i) = payloads i @ bench_payload"
  by (simp add: payloads_def replicate_append_same [symmetric] del: replicate_append_same)

lemma length_payloads: "length (payloads i) = 1500 * i"
  by (induction i) (simp_all add: payloads_Suc, simp_all add: payloads_def bench_payload_def)

text \<open>How far the accepted bytes are, and what is parked, at each point of the function.\<close>

fun client_at :: "usize \<Rightarrow> bool \<Rightarrow> client_phase \<Rightarrow> Bytes \<Rightarrow> Bytes list \<Rightarrow> bool" where
  "client_at n sd (WarmUp ds) acc pk \<longleftrightarrow> acc @ concat ds = concat warm_up \<and> pk = []"
| "client_at n sd (AboutToSend i) acc pk \<longleftrightarrow> i \<le> n \<and> acc = concat warm_up @ payloads i \<and> pk = []"
| "client_at n sd (InSend i) acc pk \<longleftrightarrow> i < n \<and> acc = concat warm_up @ payloads i \<and> pk = [bench_payload]"
| "client_at n sd (Sent i) acc pk \<longleftrightarrow> i < n \<and> acc = concat warm_up @ payloads (Suc i) \<and> pk = []"
| "client_at n sd ClientFlushing acc pk \<longleftrightarrow> (\<exists>i \<le> n. acc = concat warm_up @ payloads i \<and> (\<not> sd \<longrightarrow> i = n))"
| "client_at n sd ClientClosing acc pk \<longleftrightarrow> (\<exists>i \<le> n. acc = concat warm_up @ payloads i \<and> (\<not> sd \<longrightarrow> i = n))"
| "client_at n sd _ acc pk \<longleftrightarrow> True"

definition client_inv :: "u64 \<Rightarrow> u32 \<Rightarrow> u32 \<Rightarrow> usize \<Rightarrow> bool \<Rightarrow> BenchClient \<Rightarrow> bool" where
  "client_inv n src dst n_sends sd s \<longleftrightarrow> (\<exists>acc acks. writer_run n src dst acc acks (bc_writer (cl_conn s)) \<and> cl_total_bytes s = length acc \<and>
     client_at n_sends sd (cl_phase s) acc (parked (bc_writer (cl_conn s))) \<and>
     (cl_phase s = ClientClosing \<longrightarrow> conn_flush_ready (cl_conn s)))"

lemma client_invI:
  "writer_run n src dst acc acks (bc_writer (cl_conn s)) \<Longrightarrow> cl_total_bytes s = length acc \<Longrightarrow>
   client_at n_sends sd (cl_phase s) acc (parked (bc_writer (cl_conn s))) \<Longrightarrow>
   (cl_phase s = ClientClosing \<Longrightarrow> conn_flush_ready (cl_conn s)) \<Longrightarrow> client_inv n src dst n_sends sd s"
  unfolding client_inv_def by blast

lemma client_invE:
  assumes "client_inv n src dst n_sends sd s"
  obtains acc acks where "writer_run n src dst acc acks (bc_writer (cl_conn s))" "cl_total_bytes s = length acc"
    "client_at n_sends sd (cl_phase s) acc (parked (bc_writer (cl_conn s)))"
    "cl_phase s = ClientClosing \<Longrightarrow> conn_flush_ready (cl_conn s)"
  using assms unfolding client_inv_def by blast

lemma bind_res_Ok: "bind_res r f = Ok y \<Longrightarrow> (\<And>x. r = Ok x \<Longrightarrow> f x = Ok y \<Longrightarrow> thesis) \<Longrightarrow> thesis"
  by (cases r) simp_all

lemma writer_tasks_parked:
  "pump_receive w = Some w' \<Longrightarrow> parked w' = parked w"
  "pump_pack w = Some (Ok w') \<Longrightarrow> parked w' = parked w"
  "pump_store w = Some w' \<Longrightarrow> parked w' = parked w"
  "sender_turn w = Some w' \<Longrightarrow> parked w' = parked w"
  "send_fin_ack io k w = Ok w' \<Longrightarrow> parked w' = parked w"
  by (auto simp: pump_receive_def pump_pack_def pump_store_def sender_turn_def send_fin_ack_def send_control_packet_eq Let_def elim!: bind_res_Ok
      split: option.splits list.splits PumpPhase.splits if_splits BluefinResult.splits prod.splits)

lemma conn_task_parked: "conn_task c xs c' \<Longrightarrow> parked (bc_writer c') = parked (bc_writer c)"
proof (induction rule: conn_task.induct)
  case (acks oks c w)
  then show ?case using ack_turn_same by (simp add: same_data_def)
next
  case (fin_ack io c c')
  then show ?case using fin_ack_drain_effect(3) [OF fin_ack.hyps] writer_tasks_parked(5) by metis
next
  case (datagram c' ps c)
  then show ?case by simp
qed (simp_all add: writer_tasks_parked)

text \<open>Each send accepts all of its bytes or none.\<close>

lemma conn_send_facts:
  assumes "conn_send d c = (c', r)" and "writer_run n src dst acc acks (bc_writer c)"
  shows "writer_run n src dst (acc @ (if is_ok r then d else [])) acks (bc_writer c')" and "parked (bc_writer c') = parked (bc_writer c)"
    and "r = Ok k \<Longrightarrow> k = length d"
proof -
  obtain w where w: "send_data d (bc_writer c) = (w, r)" "c' = set_writer w c"
    using assms(1) by (auto simp: conn_send_def split: prod.splits)
  from writer_run.data [OF assms(2) w(1)] show "writer_run n src dst (acc @ (if is_ok r then d else [])) acks (bc_writer c')" by (simp add: w(2))
  show "parked (bc_writer c') = parked (bc_writer c)" "r = Ok k \<Longrightarrow> k = length d"
    using w by (auto simp: send_data_def Let_def split: option.splits if_splits prod.splits)
qed

lemma conn_send_bytes_async_facts:
  assumes "conn_send_bytes_async d c = (c', r)" and "writer_run n src dst acc acks (bc_writer c)"
  shows "writer_run n src dst (acc @ (case r of Some (Ok _) \<Rightarrow> d | _ \<Rightarrow> [])) acks (bc_writer c')"
    and "parked (bc_writer c') = parked (bc_writer c) @ (if r = None then [d] else [])"
    and "r = Some (Ok k) \<Longrightarrow> k = length d"
proof -
  obtain w where w: "send_bytes_async d (bc_writer c) = (w, r)" "c' = set_writer w c"
    using assms(1) by (auto simp: conn_send_bytes_async_def split: prod.splits)
  from writer_run.async [OF assms(2) w(1)] show "writer_run n src dst (acc @ (case r of Some (Ok _) \<Rightarrow> d | _ \<Rightarrow> [])) acks (bc_writer c')"
    by (simp add: w(2))
  show "parked (bc_writer c') = parked (bc_writer c) @ (if r = None then [d] else [])" "r = Some (Ok k) \<Longrightarrow> k = length d"
    using w by (auto simp: send_bytes_async_def Let_def split: option.splits if_splits)
qed

lemma send_bytes_resume_facts:
  assumes "send_bytes_resume 0 w = Some (w', r)" and "parked w = [d]" and "writer_run n src dst acc acks w"
  shows "writer_run n src dst (acc @ (if is_ok r then d else [])) acks w'" and "parked w' = []" and "r = Ok k \<Longrightarrow> k = length d"
proof -
  from writer_run.resume [OF assms(3,1)] assms(2) show "writer_run n src dst (acc @ (if is_ok r then d else [])) acks w'" by (simp split: if_splits)
  show "parked w' = []" "r = Ok k \<Longrightarrow> k = length d"
    using assms(1,2) by (auto simp: send_bytes_resume_def Let_def split: option.splits if_splits)
qed

text \<open>A completed send \<open>i\<close>.\<close>

lemma client_sent_inv:
  assumes "writer_run n src dst (acc @ (if is_ok r then bench_payload else [])) acks (bc_writer (cl_conn s))" and "cl_total_bytes s = length acc"
    and "acc = concat warm_up @ payloads i" and "i < n_sends" and "parked (bc_writer (cl_conn s)) = []"
    and "\<And>k. r = Ok k \<Longrightarrow> k = length bench_payload"
  shows "client_inv n src dst n_sends sd (client_sent i r s)"
proof (cases r)
  case (Ok k)
  with assms show ?thesis
    by (intro client_invI [of n src dst "acc @ bench_payload" acks]) (simp_all add: client_sent_def payloads_Suc)
qed (use assms in \<open>auto simp: client_sent_def intro: client_invI\<close>)

lemma client_at_sd: "client_at n sd ph acc pk \<Longrightarrow> client_at n True ph acc pk"
  by (cases ph) auto

lemma client_run_inv:
  assumes "client_run n_sends c0 sd s" and "bc_writer c0 = writer_start (writer_new n src dst)"
  shows "client_inv n src dst n_sends sd s"
  using assms(1)
proof (induction rule: client_run.induct)
  case start
  show ?case using writer_run.start [of n src dst] assms(2)
    by (intro client_invI [of n src dst "[]" "[]"]) (simp_all add: client_start_def, simp add: writer_start_def writer_new_def)
next
  case (tasks sd s xs c)
  from tasks.IH obtain acc acks where "writer_run n src dst acc acks (bc_writer (cl_conn s))" "cl_total_bytes s = length acc"
      "client_at n_sends sd (cl_phase s) acc (parked (bc_writer (cl_conn s)))" by (rule client_invE) blast
  with conn_task_writer [OF tasks.hyps(3)] conn_task_parked [OF tasks.hyps(3)] tasks.hyps(2) show ?case
    by (intro client_invI [of n src dst acc acks]) simp_all
next
  case (shutdown sd s)
  from shutdown.IH show ?case by (rule client_invE) (auto intro: client_invI client_at_sd)
next
  case (warm sd s s')
  from warm.IH obtain acc acks where a: "writer_run n src dst acc acks (bc_writer (cl_conn s))" "cl_total_bytes s = length acc"
      "client_at n_sends sd (cl_phase s) acc (parked (bc_writer (cl_conn s)))" by (rule client_invE) blast
  obtain ds where ds: "cl_phase s = WarmUp ds" using warm.hyps(2) by (auto simp: client_warm_up_def split: client_phase.splits)
  show ?case
  proof (cases ds)
    case Nil
    with warm.hyps(2) ds a show ?thesis
      by (intro client_invI [of n src dst acc acks]) (auto simp: client_warm_up_def payloads_def)
  next
    case (Cons d ds')
    obtain c r where s: "conn_send d (cl_conn s) = (c, r)" by fastforce
    note f = conn_send_facts [OF s a(1)]
    show ?thesis
    proof (cases r)
      case (Ok k)
      with warm.hyps(2) ds Cons s a f show ?thesis
        by (intro client_invI [of n src dst "acc @ d" acks]) (auto simp: client_warm_up_def)
    qed (use warm.hyps(2) ds Cons s a f in \<open>auto simp: client_warm_up_def intro: client_invI\<close>)
  qed
next
  case (send sd s s')
  from send.IH obtain acc acks where a: "writer_run n src dst acc acks (bc_writer (cl_conn s))" "cl_total_bytes s = length acc"
      "client_at n_sends sd (cl_phase s) acc (parked (bc_writer (cl_conn s)))" by (rule client_invE) blast
  obtain i where i: "cl_phase s = AboutToSend i" using send.hyps(2) by (auto simp: client_send_def split: client_phase.splits)
  obtain c r where s: "conn_send_bytes_async bench_payload (cl_conn s) = (c, r)" by fastforce
  note f = conn_send_bytes_async_facts [OF s a(1)]
  show ?case
  proof (cases "i < n_sends")
    case True
    show ?thesis
    proof (cases r)
      case None
      with True send.hyps(2) i s a f show ?thesis by (auto simp: client_send_def intro!: client_invI [of n src dst acc acks])
    next
      case (Some q)
      then have s': "s' = client_sent i q (s\<lparr>cl_conn := c\<rparr>)" using True send.hyps(2) i s by (simp add: client_send_def)
      have "(case r of Some (Ok _) \<Rightarrow> bench_payload | _ \<Rightarrow> []) = (if is_ok q then bench_payload else [])"
        using Some by (cases q) simp_all
      with f a i True Some show ?thesis unfolding s' by (intro client_sent_inv) simp_all
    qed
  next
    case False
    with send.hyps(2) i a show ?thesis by (intro client_invI [of n src dst acc acks]) (auto simp: client_send_def)
  qed
next
  case (resume sd s s')
  from resume.IH obtain acc acks where a: "writer_run n src dst acc acks (bc_writer (cl_conn s))" "cl_total_bytes s = length acc"
      "client_at n_sends sd (cl_phase s) acc (parked (bc_writer (cl_conn s)))" by (rule client_invE) blast
  obtain i w r where i: "cl_phase s = InSend i" "send_bytes_resume 0 (bc_writer (cl_conn s)) = Some (w, r)"
      "s' = client_sent i r (s\<lparr>cl_conn := set_writer w (cl_conn s)\<rparr>)"
    using resume.hyps(2) by (auto simp: client_resume_def split: client_phase.splits option.splits)
  have "parked (bc_writer (cl_conn s)) = [bench_payload]" using a(3) i(1) by simp
  note f = send_bytes_resume_facts [OF i(2) this a(1)]
  show ?case unfolding i(3) by (intro client_sent_inv [of _ _ _ acc r acks]) (use f a i(1) in simp_all)
next
  case (yield sd s s')
  from yield.IH obtain acc acks where a: "writer_run n src dst acc acks (bc_writer (cl_conn s))" "cl_total_bytes s = length acc"
      "client_at n_sends sd (cl_phase s) acc (parked (bc_writer (cl_conn s)))" by (rule client_invE) blast
  obtain i where i: "cl_phase s = Sent i" using yield.hyps(2) by (auto simp: client_yield_def split: client_phase.splits)
  with a(3) have "i < n_sends" "acc = concat warm_up @ payloads (Suc i)" by simp_all
  with yield.hyps(2) i a show ?case
    by (intro client_invI [of n src dst acc acks]) (auto simp: client_yield_def split: if_splits intro!: exI [of _ "Suc i"])
next
  case (flushed sd s s')
  from flushed.IH obtain acc acks where a: "writer_run n src dst acc acks (bc_writer (cl_conn s))" "cl_total_bytes s = length acc"
      "client_at n_sends sd (cl_phase s) acc (parked (bc_writer (cl_conn s)))" by (rule client_invE) blast
  have "cl_phase s = ClientFlushing" "conn_flush_ready (cl_conn s)" "s' = s\<lparr>cl_phase := ClientClosing\<rparr>"
    using flushed.hyps(2) by (auto simp: client_flushed_def split: client_phase.splits if_splits)
  with a show ?case by (intro client_invI [of n src dst acc acks]) simp_all
qed

section \<open>Properties\<close>


text \<open>C40. The idle timer ignores traffic: in every run, until the loop has received 4096 times, a poll of the \<open>select!\<close> that finds
  nothing to read after the first idle period ends the task as idle, no matter when the last bytes came.\<close>

theorem bench_idle_ignores_traffic:
  assumes "live c" and "bench_run recv_idle (bench_start recv_idle t0 c) arr t s" and "bs_iteration s \<le> 4096" and "bs_phase s = InSelect"
    and "conn_peek (mb_conn (rx_bufs (bc_rx (bs_conn s)))) = Err e" and "\<not> peer_fin_observed (bc_close (bs_conn s))"
    and "t0 + recv_idle \<le> now"
  shows "\<exists>s'. bench_select recv_idle now cx s = Some s' \<and> bs_phase s' = Ended ByIdle"
proof -
  have "bs_idle_deadline s = t0 + recv_idle"
    using bench_run_inv [OF assms(2) bench_start_inv [OF assms(1)]] assms(3) by (simp add: bench_inv_def IDLE_RESET_EVERY_def)
  with assms(4-7) show ?thesis by (simp add: bench_select_def reader_poll_def Let_def)
qed

definition sample_carry :: BluefinConnection where
  "sample_carry = sample_connection\<lparr>bc_rx := set_rx_conn ((mb_conn (rx_bufs sample_rx))\<lparr>start_packet_number_set := True\<rparr>) sample_rx\<rparr>"

lemma sample_carry_facts:
  "live sample_carry" "conn_stream sample_carry = [4, 5, 6]" "\<not> peer_fin_observed (bc_close sample_carry)"
  "conn_peek (mb_conn (rx_bufs (bc_rx sample_carry))) = Ok ()"
  using sample_rx_facts
  by (simp_all add: sample_carry_def live_def conn_source_def conn_wf_def conn_stream_def conn_peek_def ordered_bytes_peek_def)
    (simp add: sample_rx_def reader_rx_new_def sample_bufs_def close_buffer_new_def)

lemma sample_carry_read:
  "\<exists>c. conn_recv_bytes [] 16 sample_carry = (c, [[4, 5, 6]], Ok 3) \<and>
     conn_peek (mb_conn (rx_bufs (bc_rx c))) = Err BufferEmptyError \<and> \<not> peer_fin_observed (bc_close c)"
proof -
  let ?rx = "bc_rx sample_carry" and ?ob = "rx_ordered (bc_rx sample_carry)"
  have wf: "ob_wf ?ob" using sample_carry_facts(1) by (simp add: live_def conn_source_def conn_wf_def)
  have o: "carry_over_bytes ?ob = Some [4, 5, 6]" "contiguous ?ob = []"
    using sample_rx_facts(3,4) ordered_bytes_new_wf(2) [of 3 7]
    by (simp_all add: sample_carry_def contiguous_def sample_rx_def reader_rx_new_def takeWhile_replicate)
  obtain ob k b where c: "consume_bytes [] 16 ?ob = (ob, [[4, 5, 6]], Ok \<lparr>num_packets_consumed = k, base_packet_number = b, bytes_consumed = 3\<rparr>)"
      "ob_wf ob" "contiguous ob = []" "carry_over_bytes ob = None"
    using consume_bytes_spec [OF wf, of "[]" 16] o by auto
  have a: "cb_addr (mb_conn (rx_bufs ?rx)) = Some (SocketAddr [] 9)" using sample_rx_facts(2) by (simp add: sample_carry_def)
  have "eof_addr ?rx = Ok None" using sample_carry_facts(3) by (simp add: eof_addr_def)
  with c(1) a obtain c' where r: "conn_recv_bytes [] 16 sample_carry = (c', [[4, 5, 6]], Ok 3)"
      "mb_conn (rx_bufs (bc_rx c')) = (mb_conn (rx_bufs ?rx))\<lparr>ordered_bytes := ob\<rparr>" "bc_close c' = bc_close sample_carry"
    by (simp add: conn_recv_bytes_def reader_read_bytes_def conn_consume_bytes_def)
  with c(2-4) a sample_carry_facts(3) show ?thesis by (simp add: conn_peek_def peek_eq)
qed

text \<open>Three bytes are read one millisecond before the first idle period ends.\<close>

lemma sample_bench_run:
  "\<exists>s. bench_run 2000 (bench_start 2000 0 sample_carry) [] 1999 s \<and> bs_phase s = InSelect \<and> bs_iteration s = 2 \<and> bs_total_bytes s = 3 \<and>
     conn_peek (mb_conn (rx_bufs (bc_rx (bs_conn s)))) = Err BufferEmptyError \<and> \<not> peer_fin_observed (bc_close (bs_conn s))"
proof -
  let ?s0 = "bench_start 2000 0 sample_carry" and ?run = "bench_run 2000 (bench_start 2000 0 sample_carry)"
  obtain c where c: "conn_recv_bytes [] 16 sample_carry = (c, [[4, 5, 6]], Ok 3)"
      "conn_peek (mb_conn (rx_bufs (bc_rx c))) = Err BufferEmptyError" "\<not> peer_fin_observed (bc_close c)"
    using sample_carry_read by blast
  have "bench_head False ?s0 = Some (?s0\<lparr>bs_phase := InSelect\<rparr>)" by (simp add: bench_head_def bench_start_def)
  note 1 = bench_run.head [OF bench_run.start this]
  let ?s2 = "bench_account 2000 1999 3 [[4, 5, 6]] (?s0\<lparr>bs_phase := InSelect, bs_conn := c\<rparr>)"
  have "bench_select 2000 1999 7 (?s0\<lparr>bs_phase := InSelect\<rparr>) = Some ?s2"
    using c(1) sample_carry_facts(4) by (simp add: bench_select_def reader_poll_def Let_def, simp add: bench_start_def)
  note 2 = bench_run.select [OF 1 this]
  have s2: "bs_phase ?s2 = LoopHead" "bs_total_bytes ?s2 = 3" "bs_iteration ?s2 = 2" "bs_conn ?s2 = c"
    by (simp_all add: bench_account_def bench_report_def bench_start_def IDLE_RESET_EVERY_def Let_def)
  have 3: "?run [] 1999 ?s2" using 2 s2(2) by (simp add: bench_start_def)
  have "bench_head False ?s2 = Some (?s2\<lparr>bs_phase := InSelect\<rparr>)" using s2(1) by (simp add: bench_head_def)
  from bench_run.head [OF 3 this] s2 c(2,3) show ?thesis by (intro exI [of _ "?s2\<lparr>bs_phase := InSelect\<rparr>"]) simp
qed


theorem bench_idle_ignores_traffic_witness:
  "\<exists>s s'. bench_run 2000 (bench_start 2000 0 sample_carry) [] 1999 s \<and> bs_total_bytes s = 3 \<and>
     bench_select 2000 2000 7 s = Some s' \<and> bs_phase s' = Ended ByIdle"
proof -
  obtain s where s: "bench_run 2000 (bench_start 2000 0 sample_carry) [] 1999 s" "bs_phase s = InSelect" "bs_iteration s = 2"
      "bs_total_bytes s = 3" "conn_peek (mb_conn (rx_bufs (bc_rx (bs_conn s)))) = Err BufferEmptyError" "\<not> peer_fin_observed (bc_close (bs_conn s))"
    using sample_bench_run by blast
  from bench_idle_ignores_traffic [OF sample_carry_facts(1) s(1) _ s(2,5,6), of 2000 7] s(1,3,4) show ?thesis by auto
qed

text \<open>C31. The client sends its script: in every run over a fresh connection the total is the number of bytes the writer
  accepted; when the function goes on to close, nothing accepted is pending any more, and what was accepted is the four
  warm-up messages followed by payloads of 1500 zero bytes, all of them unless a shutdown was seen.\<close>

theorem bench_client_sends:
  assumes "bc_writer c = writer_start (writer_new n src dst)" and "client_run n_sends c sd s"
  shows "\<exists>acc acks. writer_run n src dst acc acks (bc_writer (cl_conn s)) \<and> cl_total_bytes s = length acc \<and>
    (cl_phase s = ClientClosing \<longrightarrow> conn_flush_ready (cl_conn s) \<and>
       (\<exists>i \<le> n_sends. acc = concat warm_up @ replicate (1500 * i) 0 \<and> cl_total_bytes s = 119 + 1500 * i \<and> (\<not> sd \<longrightarrow> i = n_sends)))"
proof -
  have p: "payloads i = replicate (1500 * i) 0" for i
    by (induction i) (simp_all add: payloads_Suc, simp_all add: payloads_def bench_payload_def replicate_add [symmetric] add.commute)
  from client_run_inv [OF assms(2,1)] show ?thesis
  proof (rule client_invE)
    fix acc acks
    assume a: "writer_run n src dst acc acks (bc_writer (cl_conn s))" "cl_total_bytes s = length acc"
      "client_at n_sends sd (cl_phase s) acc (parked (bc_writer (cl_conn s)))"
      "cl_phase s = ClientClosing \<Longrightarrow> conn_flush_ready (cl_conn s)"
    have "\<exists>i \<le> n_sends. acc = concat warm_up @ replicate (1500 * i) 0 \<and> cl_total_bytes s = 119 + 1500 * i \<and> (\<not> sd \<longrightarrow> i = n_sends)"
      if "cl_phase s = ClientClosing" using a(2,3) that by (auto simp: p warm_up_def)
    with a(1,2,4) show ?thesis by blast
  qed
qed

theorem bench_client_sends_witness:
  "\<exists>s acc acks. client_run 5 sample_connection False s \<and> cl_total_bytes s = 7 \<and>
     writer_run 7 3 4 acc acks (bc_writer (cl_conn s)) \<and> length acc = 7"
proof -
  have w: "bc_writer sample_connection = writer_start (writer_new 7 3 4)" by (simp add: sample_connection_def reader_rx_new_def)
  obtain c where "conn_send [1, 2, 3, 4, 5, 6, 7] sample_connection = (c, Ok 7)"
    by (simp add: conn_send_def w send_data_def writer_start_def writer_new_def chan_try_send_def chan_has_room_def DATA_CHANNEL_BOUND_def Let_def)
  then have "\<exists>s. client_warm_up (client_start sample_connection) = Some s \<and> cl_total_bytes s = 7"
    by (simp add: client_warm_up_def client_start_def warm_up_def)
  then obtain s where s: "client_warm_up (client_start sample_connection) = Some s" "cl_total_bytes s = 7" by blast
  note run = client_run.warm [OF client_run.start s(1), of 5]
  from bench_client_sends [OF w run] s(2) run show ?thesis by auto
qed

end
