(* ===== verification/Tool_Args.thy ===== *)
theory Tool_Args
  imports Std_Text Packetiser
begin

text \<open>
  \<open>bluefintool/src/main.rs\<close>, the pure parts of the command-line tool: \<open>parse_args\<close> and \<open>hex_dump\<close>. A call of
  \<open>std::process::exit\<close> is the outcome \<open>Exit\<close> with its code; what is printed to the terminal before it is left out. The
  port drawn when no source port is given is an argument.
\<close>

section \<open>Arguments\<close>

datatype Mode = Listen string u16 | Connect string u16 u16

datatype 'a program = Run 'a | Exit nat

record Args =
  arg_listen :: bool
  arg_bind :: string
  arg_source_port :: "u16 option"
  arg_positional :: "string list"
  arg_diagnostics :: bool

definition args_default :: Args where
  "args_default = \<lparr>arg_listen = False, arg_bind = ''127.0.0.1'', arg_source_port = None, arg_positional = [], arg_diagnostics = False\<rparr>"

text \<open>The \<open>while let Some(arg) = args.next()\<close> loop.\<close>

fun scan_args :: "string list \<Rightarrow> Args \<Rightarrow> Args program" where
  "scan_args [] a = Run a"
| "scan_args (arg # args) a =
     (if arg = ''-l'' \<or> arg = ''--listen'' then scan_args args (a\<lparr>arg_listen := True\<rparr>)
      else if arg = ''-d'' \<or> arg = ''--diagnostics'' then scan_args args (a\<lparr>arg_diagnostics := True\<rparr>)
      else if arg = ''-b'' \<or> arg = ''--bind'' then
        (case args of
           [] \<Rightarrow> Exit 1
         | val # args' \<Rightarrow> scan_args args' (a\<lparr>arg_bind := val\<rparr>))
      else if arg = ''-s'' \<or> arg = ''--source-port'' then
        (case args of
           [] \<Rightarrow> Exit 1
         | val # args' \<Rightarrow>
             (case parse_u16 val of
                None \<Rightarrow> Exit 1
              | Some p \<Rightarrow> scan_args args' (a\<lparr>arg_source_port := Some p\<rparr>)))
      else if arg = ''-h'' \<or> arg = ''--help'' then Exit 0
      else scan_args args (a\<lparr>arg_positional := arg_positional a @ [arg]\<rparr>))"

text \<open>What follows the loop.\<close>

definition select_mode :: "u16 \<Rightarrow> Args \<Rightarrow> Mode program" where
  "select_mode random_port a =
     (if arg_listen a then
        (case arg_positional a of
           [] \<Rightarrow> Exit 1
         | p # _ \<Rightarrow> (case parse_u16 p of None \<Rightarrow> Exit 1 | Some prt \<Rightarrow> Run (Listen (arg_bind a) prt)))
      else if length (arg_positional a) \<noteq> 2 then
        (if arg_positional a = [] then Exit 0 else Exit 1)
      else
        (case parse_u16 (arg_positional a ! 1) of
           None \<Rightarrow> Exit 1
         | Some prt \<Rightarrow>
             Run (Connect (arg_positional a ! 0) prt
               (case arg_source_port a of Some p \<Rightarrow> p | None \<Rightarrow> random_port))))"

text \<open>The mode and the diagnostics flag; the program name is skipped.\<close>

definition parse_args :: "u16 \<Rightarrow> string list \<Rightarrow> (Mode \<times> bool) program" where
  "parse_args random_port argv = (case scan_args (drop 1 argv) args_default of
      Exit k \<Rightarrow> Exit k
    | Run a \<Rightarrow> (case select_mode random_port a of Exit k \<Rightarrow> Exit k | Run m \<Rightarrow> Run (m, arg_diagnostics a)))"

section \<open>The grammar of the command line\<close>

text \<open>The words of a command line as the user means them, and how they are written.\<close>

datatype item = ListenFlag bool | DiagnosticsFlag bool | BindOpt bool string | SourceOpt bool string | Word string

fun render :: "item \<Rightarrow> string list" where
  "render (ListenFlag long) = [if long then ''--listen'' else ''-l'']"
| "render (DiagnosticsFlag long) = [if long then ''--diagnostics'' else ''-d'']"
| "render (BindOpt long v) = [if long then ''--bind'' else ''-b'', v]"
| "render (SourceOpt long v) = [if long then ''--source-port'' else ''-s'', v]"
| "render (Word w) = [w]"

definition is_option :: "string \<Rightarrow> bool" where
  "is_option w \<longleftrightarrow> w \<in> set [''-l'', ''--listen'', ''-d'', ''--diagnostics'', ''-b'', ''--bind'', ''-s'', ''--source-port'', ''-h'', ''--help'']"

fun item_ok :: "item \<Rightarrow> bool" where
  "item_ok (SourceOpt long v) \<longleftrightarrow> parse_u16 v \<noteq> None"
| "item_ok (Word w) \<longleftrightarrow> \<not> is_option w"
| "item_ok _ \<longleftrightarrow> True"

fun meaning :: "item \<Rightarrow> Args \<Rightarrow> Args" where
  "meaning (ListenFlag long) a = a\<lparr>arg_listen := True\<rparr>"
| "meaning (DiagnosticsFlag long) a = a\<lparr>arg_diagnostics := True\<rparr>"
| "meaning (BindOpt long v) a = a\<lparr>arg_bind := v\<rparr>"
| "meaning (SourceOpt long v) a = a\<lparr>arg_source_port := parse_u16 v\<rparr>"
| "meaning (Word w) a = a\<lparr>arg_positional := arg_positional a @ [w]\<rparr>"

lemma scan_item: "item_ok x \<Longrightarrow> scan_args (render x @ args) a = scan_args args (meaning x a)"
  by (cases x) (auto simp: is_option_def)

lemma scan_items: "list_all item_ok xs \<Longrightarrow> scan_args (concat (map render xs)) a = Run (fold meaning xs a)"
  by (induction xs arbitrary: a) (simp_all add: scan_item)

lemma scan_args_items:
  "scan_args args a = Run a' \<Longrightarrow> \<exists>xs. list_all item_ok xs \<and> args = concat (map render xs) \<and> a' = fold meaning xs a"
proof (induction args a rule: scan_args.induct)
  case (1 a)
  then show ?case by (intro exI [of _ "[]"]) simp
next
  case (2 arg args a)
  have step: ?case if "item_ok x" "arg # args = render x @ rest" "scan_args rest (meaning x a) = Run a'"
      "scan_args rest (meaning x a) = Run a' \<Longrightarrow>
         \<exists>xs. list_all item_ok xs \<and> rest = concat (map render xs) \<and> a' = fold meaning xs (meaning x a)" for x rest
  proof -
    note x = that
    obtain xs where "list_all item_ok xs" "rest = concat (map render xs)" "a' = fold meaning xs (meaning x a)"
      using x(4) [OF x(3)] by blast
    with x(1,2) show ?case by (intro exI [of _ "x # xs"]) simp
  qed
  consider (l) "arg = ''-l'' \<or> arg = ''--listen''" | (d) "arg = ''-d'' \<or> arg = ''--diagnostics''"
    | (b) "arg = ''-b'' \<or> arg = ''--bind''" | (s) "arg = ''-s'' \<or> arg = ''--source-port''" | (h) "arg = ''-h'' \<or> arg = ''--help''"
    | (w) "\<not> is_option arg" by (auto simp: is_option_def)
  then show ?case
  proof cases
    case l
    show ?thesis by (rule step [of "ListenFlag (arg = ''--listen'')" args]) (use l "2.IH"(1) "2.prems" in auto)
  next
    case d
    show ?thesis by (rule step [of "DiagnosticsFlag (arg = ''--diagnostics'')" args]) (use d "2.IH"(2) "2.prems" in auto)
  next
    case b
    then obtain v args' where v: "args = v # args'" "scan_args args' (a\<lparr>arg_bind := v\<rparr>) = Run a'"
      using "2.prems" by (auto split: list.splits)
    show ?thesis by (rule step [of "BindOpt (arg = ''--bind'') v" args']) (use b v "2.IH"(3) in auto)
  next
    case s
    then obtain v args' p where v: "args = v # args'" "parse_u16 v = Some p" "scan_args args' (a\<lparr>arg_source_port := Some p\<rparr>) = Run a'"
      using "2.prems" by (auto split: list.splits option.splits)
    show ?thesis by (rule step [of "SourceOpt (arg = ''--source-port'') v" args']) (use s v "2.IH"(4) in auto)
  next
    case h
    with "2.prems" show ?thesis by auto
  next
    case w
    show ?thesis by (rule step [of "Word arg" args]) (use w "2.IH"(5) "2.prems" in \<open>auto simp: is_option_def\<close>)
  qed
qed


section \<open>Hex dumps\<close>

text \<open>\<open>is_ascii_graphic\<close> or a blank; other bytes are shown as a dot.\<close>

definition ascii_char :: "u8 \<Rightarrow> char" where
  "ascii_char b = (if 32 \<le> b \<and> b \<le> 126 then char_of (unat b) else CHR ''.'')"

fun join :: "string \<Rightarrow> string list \<Rightarrow> string" where
  "join sep [] = []"
| "join sep [s] = s"
| "join sep (s # t # ss) = s @ sep @ join sep (t # ss)"

definition dump_line :: "string \<Rightarrow> nat \<Rightarrow> Bytes \<Rightarrow> string" where
  "dump_line prefix i chunk =
     prefix @ '' '' @ fmt_hex 4 (i * 16) @ ''  '' @ pad_right 48 (join '' '' (map (\<lambda>b. fmt_hex 2 (unat b)) chunk)) @
     ''  |'' @ map ascii_char chunk @ ''|''"

text \<open>The lines printed for \<open>data\<close>.\<close>

definition hex_dump :: "string \<Rightarrow> Bytes \<Rightarrow> string list" where
  "hex_dump prefix data = map (\<lambda>(i, chunk). dump_line prefix i chunk) (enumerate 0 (pieces 16 data))"

text \<open>Reading a dump: the bytes of the hexadecimal column of each line.\<close>

definition hex_val :: "char \<Rightarrow> nat" where
  "hex_val c = (let n = of_char c :: nat in if n \<le> 57 then n - 48 else n - 87)"

fun unhex :: "string \<Rightarrow> Bytes" where
  "unhex (a # b # s) = (if a = CHR '' '' then [] else of_nat (16 * hex_val a + hex_val b) # unhex (drop 1 s))"
| "unhex _ = []"

definition undump :: "nat \<Rightarrow> string list \<Rightarrow> Bytes" where
  "undump n ls = concat (map (\<lambda>l. unhex (take 48 (drop (n + 7) l))) ls)"

lemma hex_val_digit_char: "d < 16 \<Longrightarrow> hex_val (digit_char d) = d"
  by (auto simp: hex_val_def digit_char_def Let_def)

lemma digit_char_not_blank: "d < 16 \<Longrightarrow> digit_char d \<noteq> CHR '' ''"
proof
  assume "d < 16" "digit_char d = CHR '' ''"
  then have "(of_char (digit_char d) :: nat) = of_char (CHR '' '')" by simp
  with \<open>d < 16\<close> show False by (auto simp: digit_char_def split: if_splits)
qed

lemma fmt_hex_u8: "fmt_hex 2 (unat (b :: u8)) = [digit_char (unat b div 16), digit_char (unat b mod 16)]"
proof -
  have "unat b < 2 ^ LENGTH(8)" by (rule unsigned_less)
  then show ?thesis by (intro fmt_hex_byte) simp
qed

lemma unhex_byte:
  "unhex (fmt_hex 2 (unat (b :: u8)) @ s) = b # unhex (drop 1 s)"
proof -
  have "unat b < 2 ^ LENGTH(8)" by (rule unsigned_less)
  then have "unat b div 16 < 16" by (simp add: less_mult_imp_div_less)
  moreover have "16 * (unat b div 16) + unat b mod 16 = unat b" by simp
  ultimately show ?thesis by (simp add: fmt_hex_u8 hex_val_digit_char digit_char_not_blank)
qed

lemma length_join_hex: "length (join '' '' (map (\<lambda>b. fmt_hex 2 (unat b)) (c :: Bytes))) = 3 * length c - 1"
proof (induction c rule: induct_list012)
  case (3 x y zs)
  then show ?case by (simp add: fmt_hex_u8)
qed (simp_all add: fmt_hex_u8)

lemma unhex_blanks: "unhex (replicate k (CHR '' '')) = []"
  by (cases k; cases "k - 1") simp_all

lemma unhex_join: "unhex (join '' '' (map (\<lambda>b. fmt_hex 2 (unat b)) c) @ replicate k (CHR '' '')) = c"
proof (induction c rule: induct_list012)
  case 1
  then show ?case by (simp add: unhex_blanks)
next
  case (2 x)
  have "unhex (drop 1 (replicate k (CHR '' ''))) = []" by (simp add: unhex_blanks)
  then show ?case by (simp add: unhex_byte)
next
  case (3 x y zs)
  then show ?case by (simp add: unhex_byte)
qed

lemma undump_line:
  assumes "length c \<le> 16" and "i * 16 < 65536"
  shows "unhex (take 48 (drop (length prefix + 7) (dump_line prefix i c))) = c"
proof -
  let ?h = "join '' '' (map (\<lambda>b. fmt_hex 2 (unat b)) c)"
  have off: "length (fmt_hex 4 (i * 16)) = 4" using assms(2) by (intro length_fmt_hex) simp_all
  have "length ?h \<le> 48" using assms(1) by (simp add: length_join_hex)
  then have "length (pad_right 48 ?h) = 48" by (simp add: pad_right_def)
  with off have "take 48 (drop (length prefix + 7) (dump_line prefix i c)) = pad_right 48 ?h"
    by (simp add: dump_line_def)
  then show ?thesis by (simp add: pad_right_def unhex_join)
qed

lemma concat_enumerate_pieces:
  assumes "\<And>i c. c \<in> set (pieces 16 xs) \<Longrightarrow> i < k + length (pieces 16 xs) \<Longrightarrow> f i c = c"
  shows "concat (map (\<lambda>(i, c). f i c) (enumerate k (pieces 16 xs))) = xs"
proof -
  have "map (\<lambda>(i, c). f i c) (enumerate k cs) = cs" if "\<And>i c. c \<in> set cs \<Longrightarrow> i < k + length cs \<Longrightarrow> f i c = c" for cs
    using that
  proof (induction cs arbitrary: k)
    case (Cons c cs)
    from Cons.prems have "f k c = c" by simp
    moreover have "map (\<lambda>(i, c). f i c) (enumerate (Suc k) cs) = cs" by (rule Cons.IH) (use Cons.prems in simp)
    ultimately show ?case by simp
  qed simp
  with assms concat_pieces [of 16 xs] show ?thesis by simp
qed

lemma length_pieces: "0 < n \<Longrightarrow> length (pieces n xs) * n < length xs + n"
proof (induction n xs rule: pieces.induct)
  case (1 n xs)
  then show ?case by (cases "xs = []"; cases "n \<le> length xs") (simp_all add: pieces_step)
qed

text \<open>A hex dump loses nothing: reading the hexadecimal columns of its lines, at their fixed place after the prefix, gives
  back the dumped bytes, for data of up to 64 KiB (beyond which the offset column grows).\<close>

lemma hex_dump_roundtrip:
  assumes "length data \<le> 65536"
  shows "undump (length prefix) (hex_dump prefix data) = data"
proof -
  have n: "length (pieces 16 data) * 16 < length data + 16" by (rule length_pieces) simp
  have "unhex (take 48 (drop (length prefix + 7) (dump_line prefix i c))) = c"
    if "c \<in> set (pieces 16 data)" "i < 0 + length (pieces 16 data)" for i c
  proof (rule undump_line)
    show "length c \<le> 16" using pieces_member [OF that(1)] by simp
    have "(i + 1) * 16 \<le> length (pieces 16 data) * 16" using that(2) by (intro mult_le_mono1) simp
    with n assms show "i * 16 < 65536" by simp
  qed
  then have "concat (map (\<lambda>(i, c). unhex (take 48 (drop (length prefix + 7) (dump_line prefix i c)))) (enumerate 0 (pieces 16 data))) = data"
    by (intro concat_enumerate_pieces) blast
  then show ?thesis by (simp add: undump_def hex_dump_def comp_def case_prod_unfold)
qed

end
