(* ===== verification/Tool_Pipe.thy ===== *)
theory Tool_Pipe
  imports Tool_Args Handshake Tasks "HOL-Library.Sublist"
begin

text \<open>
  \<open>bluefintool/src/main.rs\<close>, the running tool: the standard-input reader, the bidirectional pipe of \<open>run_pipe\<close>, and how
  listen and connect mode set up their end. The pipe is one turn of its loop at a time (\<open>pipe_turn\<close>); what the
  connection's own tasks do while the loop awaits is an argument of the turn, and so are the terminal test, the shutdown
  signal and the winner of the \<open>select!\<close>. What is printed to the terminal's error stream is left out.
\<close>

section \<open>Standard input\<close>

text \<open>The check of \<open>read_line\<close> that a line is UTF-8.\<close>

definition cont :: "u8 \<Rightarrow> bool" where
  "cont b \<longleftrightarrow> 128 \<le> b \<and> b \<le> 191"

function utf8 :: "Bytes \<Rightarrow> bool" where
  "utf8 [] = True"
| "utf8 (a # r) =
     (if a < 128 then utf8 r
      else if 194 \<le> a \<and> a \<le> 223 then 1 \<le> length r \<and> cont (r ! 0) \<and> utf8 (drop 1 r)
      else if 224 \<le> a \<and> a \<le> 239 then
        2 \<le> length r \<and> cont (r ! 0) \<and> cont (r ! 1) \<and> (a = 224 \<longrightarrow> 160 \<le> r ! 0) \<and> (a = 237 \<longrightarrow> r ! 0 \<le> 159) \<and>
        utf8 (drop 2 r)
      else
        240 \<le> a \<and> a \<le> 244 \<and> 3 \<le> length r \<and> cont (r ! 0) \<and> cont (r ! 1) \<and> cont (r ! 2) \<and>
        (a = 240 \<longrightarrow> 144 \<le> r ! 0) \<and> (a = 244 \<longrightarrow> r ! 0 \<le> 143) \<and> utf8 (drop 3 r))"
  by pat_completeness auto
termination
  by (relation "measure length") auto

declare utf8.simps(2) [simp del]

definition read_line :: "Bytes \<Rightarrow> Bytes \<times> Bytes" where
  "read_line bs = (takeWhile (\<lambda>b. b \<noteq> 10) bs @ take 1 (dropWhile (\<lambda>b. b \<noteq> 10) bs), drop 1 (dropWhile (\<lambda>b. b \<noteq> 10) bs))"

lemma read_line_split: "fst (read_line bs) @ snd (read_line bs) = bs"
  by (simp add: read_line_def)

lemma read_line_nonempty: "bs \<noteq> [] \<Longrightarrow> fst (read_line bs) \<noteq> []"
  by (cases bs) (auto simp: read_line_def)

lemma read_line_shorter: "bs \<noteq> [] \<Longrightarrow> length (snd (read_line bs)) < length bs"
  using read_line_nonempty [of bs] arg_cong [OF read_line_split [of bs], of length] by (cases "fst (read_line bs)") simp_all

text \<open>The lines the reader task sends into its channel; a line that is not UTF-8 ends it.\<close>

function stdin_lines :: "Bytes \<Rightarrow> Bytes list" where
  "stdin_lines bs =
     (if bs = [] then []
      else if \<not> utf8 (fst (read_line bs)) then []
      else fst (read_line bs) # stdin_lines (snd (read_line bs)))"
  by pat_completeness auto
termination
  by (relation "measure length") (auto simp: read_line_shorter)

declare stdin_lines.simps [simp del]

lemma read_line_Cons: "read_line (a # bs) = (if a = 10 then ([10], bs) else (a # fst (read_line bs), snd (read_line bs)))"
  by (simp add: read_line_def)

lemma cont_not_newline: "cont b \<Longrightarrow> b \<noteq> 10"
  by (auto simp: cont_def)

text \<open>A newline never lies inside a character, so a text splits into lines of text.\<close>

lemma utf8_read_line: "utf8 bs \<Longrightarrow> utf8 (fst (read_line bs)) \<and> utf8 (snd (read_line bs))"
proof (induction bs rule: utf8.induct)
  case 1
  then show ?case by (simp add: read_line_def)
next
  case (2 a r)
  consider (ascii) "a < 128" | (two) "\<not> a < 128" "194 \<le> a \<and> a \<le> 223" | (three) "\<not> a < 128" "\<not> (194 \<le> a \<and> a \<le> 223)" "224 \<le> a \<and> a \<le> 239"
    | (four) "\<not> a < 128" "\<not> (194 \<le> a \<and> a \<le> 223)" "\<not> (224 \<le> a \<and> a \<le> 239)" by blast
  moreover have high: "\<not> x < 128 \<Longrightarrow> x \<noteq> 10" for x :: u8 by auto
  ultimately show ?case
  proof cases
    case ascii
    moreover have "utf8 [10]" by (simp add: utf8.simps)
    ultimately show ?thesis using 2 by (auto simp: read_line_Cons utf8.simps(2) [of a])
  next
    case two
    then obtain b r1 where r: "r = b # r1" using "2.prems" by (cases r) (simp_all add: utf8.simps(2) [of a])
    have u: "cont b" "utf8 r1" using "2.prems" two unfolding r by (simp_all add: utf8.simps(2) [of a])
    have "utf8 (fst (read_line r1)) \<and> utf8 (snd (read_line r1))" using "2.IH"(2) [OF two] u(2) by (simp add: r)
    with two u(1) high [OF two(1)] cont_not_newline [OF u(1)] show ?thesis by (simp add: r read_line_Cons utf8.simps(2) [of a])
  next
    case three
    then have l: "2 \<le> length r" using "2.prems" by (simp add: utf8.simps(2) [of a])
    then obtain b c r1 where r: "r = b # c # r1" by (cases r; cases "tl r") simp_all
    have u: "cont b" "cont c" "a = 224 \<longrightarrow> 160 \<le> b" "a = 237 \<longrightarrow> b \<le> 159" "utf8 r1" using "2.prems" three unfolding r by (simp_all add: utf8.simps(2) [of a])
    have "utf8 (fst (read_line r1)) \<and> utf8 (snd (read_line r1))" using "2.IH"(3) [OF three] u(5) by (simp add: r)
    with three u(1-4) high [OF three(1)] cont_not_newline [OF u(1)] cont_not_newline [OF u(2)] show ?thesis
      by (simp add: r read_line_Cons utf8.simps(2) [of a]; blast)
  next
    case four
    then have l: "3 \<le> length r" using "2.prems" by (simp add: utf8.simps(2) [of a])
    then obtain b c d r1 where r: "r = b # c # d # r1" by (cases r; cases "tl r"; cases "tl (tl r)") simp_all
    have u: "240 \<le> a" "a \<le> 244" "cont b" "cont c" "cont d" "a = 240 \<longrightarrow> 144 \<le> b" "a = 244 \<longrightarrow> b \<le> 143" "utf8 r1"
      using "2.prems" four unfolding r by (simp_all add: utf8.simps(2) [of a])
    have "utf8 (fst (read_line r1)) \<and> utf8 (snd (read_line r1))" using "2.IH"(4) [OF four] u(8) by (simp add: r)
    with four u(1-7) high [OF four(1)] cont_not_newline [OF u(3)] cont_not_newline [OF u(4)] cont_not_newline [OF u(5)] show ?thesis
      by (simp add: r read_line_Cons utf8.simps(2) [of a]; blast)
  qed
qed

lemma stdin_lines_concat: "utf8 bs \<Longrightarrow> concat (stdin_lines bs) = bs"
proof (induction bs rule: stdin_lines.induct)
  case (1 bs)
  show ?case
  proof (cases "bs = []")
    case False
    note u = utf8_read_line [OF "1.prems"]
    with "1.IH" [OF False] have "concat (stdin_lines (snd (read_line bs))) = snd (read_line bs)" by blast
    with False u read_line_split [of bs] show ?thesis by (simp add: stdin_lines.simps [of bs])
  qed (simp add: stdin_lines.simps)
qed

section \<open>The pipe\<close>

datatype exit_reason = ShutdownSignal | StdinEof | PeerClosed

text \<open>Where the loop of \<open>run_pipe\<close> is: at its top, in \<open>flush().await\<close>, in the \<open>select!\<close> on \<open>recv\<close>, or out.\<close>

datatype pipe_phase = Top | Flushing | Selecting | Finished exit_reason | Failed BluefinError | Crashed

text \<open>\<open>pp_stdin\<close> is the receiving end of the input channel, if there is one: the lines in it and whether its sender is gone.\<close>

record Pipe =
  pp_phase :: pipe_phase
  pp_conn :: BluefinConnection
  pp_stdin :: "(Bytes list \<times> bool) option"
  pp_buf :: Bytes
  pp_stdout :: Bytes
  pp_total_sent :: usize
  pp_total_recv :: usize

definition pipe_new :: "BluefinConnection \<Rightarrow> bool \<Rightarrow> Pipe" where
  "pipe_new c with_stdin = \<lparr>pp_phase = Top, pp_conn = c, pp_stdin = (if with_stdin then Some ([], False) else None),
     pp_buf = replicate 4096 0, pp_stdout = [], pp_total_sent = 0, pp_total_recv = 0\<rparr>"

text \<open>The inner loop over the lines in the channel; a failed send leaves the function.\<close>

fun pipe_send :: "Bytes list \<Rightarrow> bool \<Rightarrow> Pipe \<Rightarrow> Pipe" where
  "pipe_send [] gone p = p\<lparr>pp_stdin := Some ([], gone), pp_phase := (if gone then Flushing else Selecting)\<rparr>"
| "pipe_send (data # ms) gone p = (case conn_send data (pp_conn p) of
      (c, Ok _) \<Rightarrow> pipe_send ms gone (p\<lparr>pp_conn := c, pp_total_sent := pp_total_sent p + length data\<rparr>)
    | (c, Err e) \<Rightarrow> p\<lparr>pp_conn := c, pp_stdin := Some (ms, gone), pp_phase := Failed e\<rparr>
    | (c, Panic) \<Rightarrow> p\<lparr>pp_conn := c, pp_stdin := Some (ms, gone), pp_phase := Crashed\<rparr>)"

text \<open>From the top of the loop to the flush or the \<open>select!\<close>; \<open>shutdown\<close> is the value of the watch channel.\<close>

definition pipe_top :: "bool \<Rightarrow> Pipe \<Rightarrow> Pipe option" where
  "pipe_top shutdown p = (case pp_phase p of
      Top \<Rightarrow> Some (if shutdown then p\<lparr>pp_phase := Finished ShutdownSignal\<rparr>
                  else case pp_stdin p of
                      None \<Rightarrow> p\<lparr>pp_phase := Selecting\<rparr>
                    | Some (ms, gone) \<Rightarrow> pipe_send ms gone p)
    | _ \<Rightarrow> None)"

text \<open>\<open>flush\<close> returns once nothing is pending.\<close>

definition pipe_flushed :: "bool \<Rightarrow> bool \<Rightarrow> Pipe \<Rightarrow> Pipe option" where
  "pipe_flushed interactive close_on_stdin_eof p = (case pp_phase p of
      Flushing \<Rightarrow>
        if conn_flush_ready (pp_conn p) then
          Some (if close_on_stdin_eof \<and> \<not> interactive then p\<lparr>pp_phase := Finished StdinEof\<rparr>
                else p\<lparr>pp_stdin := None, pp_phase := Selecting\<rparr>)
        else None
    | _ \<Rightarrow> None)"

text \<open>How the \<open>select!\<close> ends: the watch channel changes, the 100 ms timer fires, or \<open>recv\<close> is polled, which may leave
  it pending.\<close>

definition pipe_changed :: "Pipe \<Rightarrow> Pipe option" where
  "pipe_changed p = (case pp_phase p of Selecting \<Rightarrow> Some (p\<lparr>pp_phase := Finished ShutdownSignal\<rparr>) | _ \<Rightarrow> None)"

definition pipe_timeout :: "Pipe \<Rightarrow> Pipe option" where
  "pipe_timeout p = (case pp_phase p of Selecting \<Rightarrow> Some (p\<lparr>pp_phase := Top\<rparr>) | _ \<Rightarrow> None)"

text \<open>The outcome of a \<open>recv\<close> that completes.\<close>

definition pipe_received :: "bool \<Rightarrow> Pipe \<Rightarrow> Pipe" where
  "pipe_received diag p = (case conn_recv (pp_buf p) (length (pp_buf p)) (pp_conn p) of
      (c, buf, Ok n) \<Rightarrow>
        if n = 0 then p\<lparr>pp_conn := c, pp_buf := buf, pp_phase := Finished PeerClosed\<rparr>
        else p\<lparr>pp_conn := c, pp_buf := buf, pp_total_recv := pp_total_recv p + n,
               pp_stdout := pp_stdout p @ (if diag then [] else take n buf), pp_phase := Top\<rparr>
    | (c, buf, Err e) \<Rightarrow> p\<lparr>pp_conn := c, pp_buf := buf, pp_phase := Failed e\<rparr>
    | (c, buf, Panic) \<Rightarrow> p\<lparr>pp_conn := c, pp_buf := buf, pp_phase := Crashed\<rparr>)"

definition pipe_recv :: "bool \<Rightarrow> Waker \<Rightarrow> Pipe \<Rightarrow> Pipe option" where
  "pipe_recv diag cx p = (case pp_phase p of
      Selecting \<Rightarrow>
        (let c = pp_conn p in
         case reader_poll (peer_fin_observed (bc_close c)) cx (mb_conn (rx_bufs (bc_rx c))) of
           (cb, None) \<Rightarrow> Some (p\<lparr>pp_conn := c\<lparr>bc_rx := set_rx_conn cb (bc_rx c)\<rparr>\<rparr>)
         | (cb, Some Panic) \<Rightarrow> Some (p\<lparr>pp_phase := Crashed\<rparr>)
         | (cb, Some _) \<Rightarrow> Some (pipe_received diag p))
    | _ \<Rightarrow> None)"

text \<open>What follows the loop: close, unless the peer did.\<close>

definition pipe_finish :: "(nat \<Rightarrow> fin_attempt) \<Rightarrow> Pipe \<Rightarrow> Host \<Rightarrow> (Pipe \<times> Host) option" where
  "pipe_finish env p h = (case pp_phase p of
      Finished PeerClosed \<Rightarrow> Some (p, h)
    | Finished _ \<Rightarrow> (case conn_close env (pp_conn p) h of (c, h', _) \<Rightarrow> Some (p\<lparr>pp_conn := c\<rparr>, h'))
    | _ \<Rightarrow> None)"

section \<open>Runs\<close>

text \<open>A run of the loop on the standard input \<open>inp\<close>, with the task that reads it (into a channel of 64 lines) and the tasks
  of the connection interleaved between any two steps: the lines not yet read, the bytes that became readable, and the
  state.\<close>

inductive pipe_run :: "bool \<Rightarrow> bool \<Rightarrow> bool \<Rightarrow> Bytes \<Rightarrow> Pipe \<Rightarrow> Bytes list \<Rightarrow> Bytes \<Rightarrow> Pipe \<Rightarrow> bool"
  for diag interactive close_on_stdin_eof inp p0 where
  start: "pipe_run diag interactive close_on_stdin_eof inp p0 (stdin_lines inp) [] p0"
| line: "pipe_run diag interactive close_on_stdin_eof inp p0 (m # rest) arr p \<Longrightarrow> pp_stdin p = Some (ms, False) \<Longrightarrow>
    length ms < 64 \<Longrightarrow>
    pipe_run diag interactive close_on_stdin_eof inp p0 rest arr (p\<lparr>pp_stdin := Some (ms @ [m], False)\<rparr>)"
| eof: "pipe_run diag interactive close_on_stdin_eof inp p0 [] arr p \<Longrightarrow> pp_stdin p = Some (ms, False) \<Longrightarrow>
    pipe_run diag interactive close_on_stdin_eof inp p0 [] arr (p\<lparr>pp_stdin := Some (ms, True)\<rparr>)"
| tasks: "pipe_run diag interactive close_on_stdin_eof inp p0 rest arr p \<Longrightarrow> pp_phase p \<in> {Top, Flushing, Selecting} \<Longrightarrow>
    conn_task (pp_conn p) xs c \<Longrightarrow>
    pipe_run diag interactive close_on_stdin_eof inp p0 rest (arr @ xs) (p\<lparr>pp_conn := c\<rparr>)"
| top: "pipe_run diag interactive close_on_stdin_eof inp p0 rest arr p \<Longrightarrow> pipe_top shutdown p = Some p' \<Longrightarrow>
    pipe_run diag interactive close_on_stdin_eof inp p0 rest arr p'"
| flushed: "pipe_run diag interactive close_on_stdin_eof inp p0 rest arr p \<Longrightarrow>
    pipe_flushed interactive close_on_stdin_eof p = Some p' \<Longrightarrow>
    pipe_run diag interactive close_on_stdin_eof inp p0 rest arr p'"
| changed: "pipe_run diag interactive close_on_stdin_eof inp p0 rest arr p \<Longrightarrow> pipe_changed p = Some p' \<Longrightarrow>
    pipe_run diag interactive close_on_stdin_eof inp p0 rest arr p'"
| timeout: "pipe_run diag interactive close_on_stdin_eof inp p0 rest arr p \<Longrightarrow> pipe_timeout p = Some p' \<Longrightarrow>
    pipe_run diag interactive close_on_stdin_eof inp p0 rest arr p'"
| recv: "pipe_run diag interactive close_on_stdin_eof inp p0 rest arr p \<Longrightarrow> pipe_recv diag cx p = Some p' \<Longrightarrow>
    pipe_run diag interactive close_on_stdin_eof inp p0 rest arr p'"

text \<open>What has been printed and what is still readable is what arrived.\<close>

definition out_inv :: "bool \<Rightarrow> Bytes \<Rightarrow> Pipe \<Rightarrow> bool" where
  "out_inv diag arrived p \<longleftrightarrow> live (pp_conn p) \<and> length (pp_buf p) = 4096 \<and>
     pp_total_recv p + length (conn_stream (pp_conn p)) = length arrived \<and>
     (if diag then pp_stdout p = [] else pp_stdout p @ conn_stream (pp_conn p) = arrived) \<and>
     (pp_phase p = Finished PeerClosed \<longrightarrow> conn_stream (pp_conn p) = [])"

definition waiting :: "Pipe \<Rightarrow> Bytes" where
  "waiting p = (case pp_stdin p of Some (ms, _) \<Rightarrow> concat ms | None \<Rightarrow> [])"

text \<open>What the connection took, followed by the lines waiting and those not yet read, is the input.\<close>

definition in_inv :: "u64 \<Rightarrow> u32 \<Rightarrow> u32 \<Rightarrow> Bytes \<Rightarrow> Bytes list \<Rightarrow> Pipe \<Rightarrow> bool" where
  "in_inv n src dst given rest p \<longleftrightarrow> (\<exists>acc acks. writer_run n src dst acc acks (bc_writer (pp_conn p)) \<and>
     pp_total_sent p = length acc \<and> prefix acc given \<and>
     (pp_phase p \<in> {Top, Flushing, Selecting, Finished StdinEof} \<longrightarrow> acc @ waiting p @ concat rest = given) \<and>
     (pp_phase p \<in> {Flushing, Finished StdinEof} \<longrightarrow> waiting p = [] \<and> rest = []) \<and>
     ((\<exists>ms. pp_stdin p = Some (ms, True)) \<longrightarrow> rest = []) \<and>
     (pp_phase p = Finished StdinEof \<longrightarrow> conn_flush_ready (pp_conn p)))"

lemma in_invE:
  assumes "in_inv n src dst given rest p"
  obtains acc acks where "writer_run n src dst acc acks (bc_writer (pp_conn p))" "pp_total_sent p = length acc" "prefix acc given"
    "pp_phase p \<in> {Top, Flushing, Selecting, Finished StdinEof} \<Longrightarrow> acc @ waiting p @ concat rest = given"
    "pp_phase p \<in> {Flushing, Finished StdinEof} \<Longrightarrow> waiting p = [] \<and> rest = []"
    "(\<exists>ms. pp_stdin p = Some (ms, True)) \<longrightarrow> rest = []"
    "pp_phase p = Finished StdinEof \<Longrightarrow> conn_flush_ready (pp_conn p)"
  using assms unfolding in_inv_def by blast

lemma conn_send_live [simp]: "live (fst (conn_send d c)) = live c" "conn_stream (fst (conn_send d c)) = conn_stream c"
  by (simp_all add: conn_send_def split: prod.split)

lemma pipe_send_out: "out_inv diag arrived p \<Longrightarrow> pp_phase p = Top \<Longrightarrow> out_inv diag arrived (pipe_send ms gone p)"
proof (induction ms gone p rule: pipe_send.induct)
  case (2 data ms gone p)
  obtain c r where s: "conn_send data (pp_conn p) = (c, r)" by fastforce
  with conn_send_live [of data "pp_conn p"] 2 show ?case by (auto simp: out_inv_def split: BluefinResult.split)
qed (simp add: out_inv_def)

lemma conn_send_run:
  assumes "writer_run n src dst acc acks (bc_writer c)" and "conn_send d c = (c', r)"
  shows "writer_run n src dst (acc @ (if is_ok r then d else [])) acks (bc_writer c')"
proof -
  obtain w where w: "send_data d (bc_writer c) = (w, r)" "c' = set_writer w c"
    using assms(2) by (auto simp: conn_send_def split: prod.splits)
  from writer_run.data [OF assms(1) w(1)] show ?thesis by (simp add: w(2))
qed

lemma pipe_send_in:
  assumes "in_inv n src dst given rest (p\<lparr>pp_stdin := Some (ms, gone)\<rparr>)" and "pp_phase p = Top"
  shows "in_inv n src dst given rest (pipe_send ms gone p)"
  using assms
proof (induction ms gone p rule: pipe_send.induct)
  case (1 gone p)
  then show ?case by (auto simp: in_inv_def waiting_def)
next
  case (2 data ms gone p)
  obtain c r where s: "conn_send data (pp_conn p) = (c, r)" by fastforce
  obtain acc acks where a: "writer_run n src dst acc acks (bc_writer (pp_conn p))" "pp_total_sent p = length acc"
      "acc @ data @ concat ms @ concat rest = given" "gone \<longrightarrow> rest = []"
    using "2.prems" by (auto simp: in_inv_def waiting_def)
  note w = conn_send_run [OF a(1) s]
  show ?case
  proof (cases r)
    case (Ok k)
    with w a "2.prems"(2) have "in_inv n src dst given rest (p\<lparr>pp_conn := c, pp_total_sent := pp_total_sent p + length data, pp_stdin := Some (ms, gone)\<rparr>)"
      by (auto simp: in_inv_def waiting_def intro!: exI [of _ "acc @ data"])
    then show ?thesis using 2(1) [OF s [symmetric]] s Ok "2.prems"(2) by simp
  qed (use w a s in \<open>auto simp: in_inv_def waiting_def intro!: exI [of _ acc]\<close>)
qed

text \<open>The poll inside \<open>recv\<close> changes no more than the waker.\<close>

lemma pipe_recv_cases:
  assumes "pipe_recv diag cx p = Some p'"
  obtains (pending) cb where "cb = conn_set_waker_if_changed cx (mb_conn (rx_bufs (bc_rx (pp_conn p))))"
      "p' = p\<lparr>pp_conn := (pp_conn p)\<lparr>bc_rx := set_rx_conn cb (bc_rx (pp_conn p))\<rparr>\<rparr>" "pp_phase p = Selecting"
    | (crashed) "p' = p\<lparr>pp_phase := Crashed\<rparr>" "pp_phase p = Selecting"
    | (received) "p' = pipe_received diag p" "pp_phase p = Selecting"
  using assms by (auto simp: pipe_recv_def reader_poll_def Let_def split: pipe_phase.splits BluefinResult.splits if_splits)

lemma pipe_received_out:
  assumes "out_inv diag arrived p" and "pp_phase p = Selecting"
  shows "out_inv diag arrived (pipe_received diag p)"
proof -
  have inv: "live (pp_conn p)" "length (pp_buf p) = 4096" "0 < length (pp_buf p)" using assms(1) by (auto simp: out_inv_def)
  obtain c buf r where recv: "conn_recv (pp_buf p) (length (pp_buf p)) (pp_conn p) = (c, buf, r)" using prod_cases3 by blast
  note v = conn_recv_live(1-5) [OF inv(1,3) le_refl recv]
  show ?thesis
  proof (cases "conn_stream (pp_conn p) = []")
    case True
    with v assms inv(2) recv show ?thesis by (auto simp: pipe_received_def out_inv_def)
  next
    case False
    let ?S = "conn_stream (pp_conn p)"
    define m where "m = min 4096 (length ?S)"
    have r: "r = Ok m" "take m buf = take 4096 ?S" "m \<noteq> 0" using v(4) [OF False] inv(2) False by (simp_all add: m_def)
    have p': "pipe_received diag p = p\<lparr>pp_conn := c, pp_buf := buf, pp_total_recv := pp_total_recv p + m,
        pp_stdout := pp_stdout p @ (if diag then [] else take 4096 ?S), pp_phase := Top\<rparr>"
      using r by (simp add: pipe_received_def recv)
    have "m + length (drop 4096 ?S) = length ?S" by (simp add: m_def)
    moreover have "take 4096 ?S @ drop 4096 ?S = ?S" by simp
    ultimately show ?thesis using v(1-3) assms(1) inv(2) unfolding p' out_inv_def by (cases diag) simp_all
  qed
qed

lemma pipe_received_in:
  assumes "in_inv n src dst given rest p" and "out_inv diag arrived p" and "pp_phase p = Selecting"
  shows "in_inv n src dst given rest (pipe_received diag p)"
proof -
  have inv: "live (pp_conn p)" "0 < length (pp_buf p)" using assms(2) by (auto simp: out_inv_def)
  obtain c buf r where recv: "conn_recv (pp_buf p) (length (pp_buf p)) (pp_conn p) = (c, buf, r)" using prod_cases3 by blast
  obtain acc acks where a: "writer_run n src dst acc acks (bc_writer (pp_conn p))" "pp_total_sent p = length acc" "prefix acc given"
      "acc @ waiting p @ concat rest = given" "(\<exists>ms. pp_stdin p = Some (ms, True)) \<longrightarrow> rest = []"
    using in_invE [OF assms(1)] assms(3) by (metis insertCI)
  obtain acks' where "writer_run n src dst acc acks' (bc_writer c)" using conn_recv_live(6) [OF inv(1,2) le_refl recv a(1)] by blast
  with a recv show ?thesis
    by (auto simp: pipe_received_def in_inv_def waiting_def intro!: exI [of _ acc] split: BluefinResult.split)
qed

lemma in_inv_left:
  assumes "in_inv n src dst given rest p" and "ph \<notin> {Top, Flushing, Selecting, Finished StdinEof}"
  shows "in_inv n src dst given rest (p\<lparr>pp_phase := ph\<rparr>)"
proof -
  from assms(1) obtain acc acks where "writer_run n src dst acc acks (bc_writer (pp_conn p))" "pp_total_sent p = length acc" "prefix acc given"
      "(\<exists>ms. pp_stdin p = Some (ms, True)) \<longrightarrow> rest = []"
    by (rule in_invE) blast
  with assms(2) show ?thesis unfolding in_inv_def by (intro exI [of _ acc] exI [of _ acks]) simp
qed

text \<open>Both invariants hold throughout.\<close>

lemma pipe_run_out:
  assumes "pipe_run diag interactive close_on_stdin_eof inp p0 rest arr p" and "out_inv diag a0 p0"
  shows "out_inv diag (a0 @ arr) p"
  using assms(1)
proof (induction rule: pipe_run.induct)
  case start
  then show ?case using assms(2) by simp
next
  case (tasks rest arr p xs c)
  from tasks.IH have "live (pp_conn p)" by (simp add: out_inv_def)
  from conn_task_live [OF tasks.hyps(3) this] tasks.IH tasks.hyps(2) show ?case by (auto simp: out_inv_def)
next
  case (top rest arr p shutdown p')
  from top.hyps(2) have "pp_phase p = Top" by (auto simp: pipe_top_def split: pipe_phase.splits)
  moreover from top.IH have "out_inv diag (a0 @ arr) (p\<lparr>pp_phase := ph\<rparr>)" if "ph \<noteq> Finished PeerClosed" for ph using that by (simp add: out_inv_def)
  ultimately show ?case using top.IH top.hyps(2) pipe_send_out [OF top.IH]
    by (auto simp: pipe_top_def split: if_splits option.splits)
next
  case (recv rest arr p cx p')
  from recv.hyps(2) show ?case
  proof (cases rule: pipe_recv_cases)
    case (pending cb)
    then show ?thesis using recv.IH by (simp add: out_inv_def live_def conn_source_def conn_stream_def conn_wf_def cong: if_cong)
  next
    case crashed
    then show ?thesis using recv.IH by (simp add: out_inv_def)
  next
    case received
    then show ?thesis using pipe_received_out [OF recv.IH] by simp
  qed
qed (auto simp: out_inv_def pipe_flushed_def pipe_changed_def pipe_timeout_def split: pipe_phase.splits if_splits)

lemma pipe_run_in:
  assumes "pipe_run diag interactive close_on_stdin_eof inp p0 rest arr p" and "out_inv diag a0 p0"
    and "in_inv n src dst given (stdin_lines inp) p0"
  shows "in_inv n src dst given rest p"
  using assms(1)
proof (induction rule: pipe_run.induct)
  case start
  then show ?case using assms(3) .
next
  case (line m rest arr p ms)
  then show ?case by (auto simp: in_inv_def waiting_def)
next
  case (eof arr p ms)
  then show ?case by (auto simp: in_inv_def waiting_def)
next
  case (tasks rest arr p xs c)
  from tasks.IH obtain acc acks where a: "writer_run n src dst acc acks (bc_writer (pp_conn p))" "pp_total_sent p = length acc" "prefix acc given"
      "pp_phase p \<in> {Top, Flushing, Selecting, Finished StdinEof} \<Longrightarrow> acc @ waiting p @ concat rest = given"
      "pp_phase p \<in> {Flushing, Finished StdinEof} \<Longrightarrow> waiting p = [] \<and> rest = []" "(\<exists>ms. pp_stdin p = Some (ms, True)) \<longrightarrow> rest = []"
    by (rule in_invE) blast
  have "pp_phase p \<noteq> Finished StdinEof" using tasks.hyps(2) by auto
  with a conn_task_writer [OF tasks.hyps(3) a(1)] show ?case
    unfolding in_inv_def by (intro exI [of _ acc] exI [of _ acks]) (simp add: waiting_def)
next
  case (top rest arr p shutdown p')
  from top.hyps(2) have ph: "pp_phase p = Top" by (auto simp: pipe_top_def split: pipe_phase.splits)
  moreover have "in_inv n src dst given rest (p\<lparr>pp_phase := Selecting\<rparr>)" using top.IH ph by (simp add: in_inv_def waiting_def)
  moreover note in_inv_left [OF top.IH, of "Finished ShutdownSignal"]
  moreover have "in_inv n src dst given rest (pipe_send ms gone p)" if "pp_stdin p = Some (ms, gone)" for ms gone
    using pipe_send_in [OF _ ph] top.IH that by (simp add: in_inv_def waiting_def)
  ultimately show ?case using top.hyps(2) by (auto simp: pipe_top_def split: if_splits option.splits)
next
  case (recv rest arr p cx p')
  from recv.hyps(2) show ?case
  proof (cases rule: pipe_recv_cases)
    case received
    then show ?thesis using pipe_received_in [OF recv.IH] pipe_run_out [OF recv.hyps(1) assms(2)] by simp
  next
    case crashed
    then show ?thesis using in_inv_left [OF recv.IH, of Crashed] by simp
  next
    case (pending cb)
    then show ?thesis using recv.IH by (simp add: in_inv_def waiting_def)
  qed
next
  case (changed rest arr p p')
  then show ?case using in_inv_left [OF changed.IH, of "Finished ShutdownSignal"] by (simp add: pipe_changed_def split: pipe_phase.splits)
next
  case (timeout rest arr p p')
  then have "pp_phase p = Selecting" "p' = p\<lparr>pp_phase := Top\<rparr>" by (auto simp: pipe_timeout_def split: pipe_phase.splits)
  with timeout.IH show ?case by (simp add: in_inv_def waiting_def)
next
  case (flushed rest arr p p')
  from flushed.hyps(2) have "pp_phase p = Flushing" "conn_flush_ready (pp_conn p)"
    by (auto simp: pipe_flushed_def split: pipe_phase.splits if_splits)
  moreover from flushed.IH obtain acc acks where "writer_run n src dst acc acks (bc_writer (pp_conn p))" "pp_total_sent p = length acc" "prefix acc given"
      "pp_phase p \<in> {Top, Flushing, Selecting, Finished StdinEof} \<Longrightarrow> acc @ waiting p @ concat rest = given"
      "pp_phase p \<in> {Flushing, Finished StdinEof} \<Longrightarrow> waiting p = [] \<and> rest = []"
    by (rule in_invE) blast
  ultimately show ?case using flushed.hyps(2) unfolding in_inv_def
    by (intro exI [of _ acc] exI [of _ acks]) (auto simp: pipe_flushed_def waiting_def split: if_splits)
qed

text \<open>A connection from a handshake is ready for the pipe.\<close>

lemma agreed_live: "agreed srv cli first sc cc \<Longrightarrow> live sc \<and> live cc"
  by (auto simp: agreed_def live_def conn_source_def conn_wf_def conn_stream_def ordered_bytes_new_wf split: prod.splits)

text \<open>A newline on standard input, sent and flushed before the loop ends.\<close>

lemma one_line_run:
  assumes "bc_writer c = writer_start (writer_new n src dst)"
  shows "\<exists>p. pipe_run diag False True [10] (pipe_new c True) [] [] p \<and> pp_phase p = Finished StdinEof \<and>
     sent (bc_writer (pp_conn p)) = [DataDatagram (frames (data_packets (data_header src dst security_default) n [[10]]))] \<and>
     pump_packet_num (bc_writer (pp_conn p)) = n + 1"
proof -
  let ?run = "pipe_run diag False True [10] (pipe_new c True)"
  have lines: "stdin_lines [10] = [[10]]" by (simp add: stdin_lines.simps read_line_def utf8.simps)
  obtain c1 c2 c3 c4 where t: "conn_send [10] c = (c1, Ok 1)" "conn_task c1 [] c2" "conn_task c2 [] c3" "conn_task c3 [] c4"
      "conn_flush_ready c4" "sent (bc_writer c4) = [DataDatagram (frames (data_packets (data_header src dst security_default) n [[10]]))]"
      "pump_packet_num (bc_writer c4) = n + 1"
    by (rule one_byte_turns [OF assms])
  let ?p1 = "(pipe_new c True)\<lparr>pp_stdin := Some ([[10]], True)\<rparr>"
  let ?p2 = "?p1\<lparr>pp_stdin := Some ([], True), pp_conn := c1, pp_total_sent := 1, pp_phase := Flushing\<rparr>"
  have "?run [] [] ((pipe_new c True)\<lparr>pp_stdin := Some ([[10]], False)\<rparr>)"
    using pipe_run.line [OF pipe_run.start [of diag False True "[10]" "pipe_new c True", unfolded lines], of "[]"] by (simp add: pipe_new_def)
  from pipe_run.eof [OF this, of "[[10]]"] have 1: "?run [] [] ?p1" by (simp add: pipe_new_def)
  have "pipe_top False ?p1 = Some ?p2" using t(1) by (simp add: pipe_top_def pipe_new_def)
  note 2 = pipe_run.top [OF 1 this]
  from pipe_run.tasks [OF 2, of "[]" c2] t(2) have 3: "?run [] [] (?p2\<lparr>pp_conn := c2\<rparr>)" by simp
  from pipe_run.tasks [OF 3, of "[]" c3] t(3) have 4: "?run [] [] (?p2\<lparr>pp_conn := c3\<rparr>)" by simp
  from pipe_run.tasks [OF 4, of "[]" c4] t(4) have 5: "?run [] [] (?p2\<lparr>pp_conn := c4\<rparr>)" by simp
  have "pipe_flushed False True (?p2\<lparr>pp_conn := c4\<rparr>) = Some (?p2\<lparr>pp_conn := c4, pp_phase := Finished StdinEof\<rparr>)"
    using t(5) by (simp add: pipe_flushed_def)
  from pipe_run.flushed [OF 5 this] t(6,7) show ?thesis by (intro exI) auto
qed

text \<open>A receiver without standard input, one turn of its loop with bytes to read.\<close>

lemma one_read_run:
  assumes "live c" and "conn_stream c \<noteq> []"
  shows "\<exists>p. pipe_run diag interactive close_on_stdin_eof inp (pipe_new c False) (stdin_lines inp) [] p \<and>
     conn_stream (pp_conn p) = drop 4096 (conn_stream c)"
proof -
  let ?p = "(pipe_new c False)\<lparr>pp_phase := Selecting\<rparr>"
  have "pipe_top False (pipe_new c False) = Some ?p" by (simp add: pipe_top_def pipe_new_def)
  note run = pipe_run.top [OF pipe_run.start this]
  have "conn_peek (mb_conn (rx_bufs (bc_rx c))) = Ok ()"
    using assms stream_peek [of "rx_ordered (bc_rx c)"] by (auto simp: live_def conn_source_def conn_wf_def conn_stream_def conn_peek_def)
  then have "pipe_recv diag 0 ?p = Some (pipe_received diag ?p)"
    by (simp add: pipe_recv_def pipe_new_def reader_poll_def Let_def)
  note run' = pipe_run.recv [OF run this]
  obtain c' buf r where recv: "conn_recv (pp_buf ?p) (length (pp_buf ?p)) (pp_conn ?p) = (c', buf, r)" using prod_cases3 by blast
  have "pp_conn (pipe_received diag ?p) = c'" using recv by (simp add: pipe_received_def split: BluefinResult.split)
  moreover have "conn_stream c' = drop 4096 (conn_stream c)"
    using conn_recv_live(3) [OF assms(1), of 4096 "pp_buf ?p"] recv by (simp add: pipe_new_def)
  ultimately show ?thesis using run' by auto
qed

section \<open>Properties\<close>

lemma pipe_new_out: "live c \<Longrightarrow> out_inv diag (conn_stream c) (pipe_new c with_stdin)"
  by (simp add: out_inv_def pipe_new_def)

lemma pipe_run_printed:
  assumes "live c" and "pipe_run diag interactive close_on_stdin_eof inp (pipe_new c with_stdin) rest arr p"
  shows "out_inv diag (conn_stream c @ arr) p"
  by (rule pipe_run_out [OF assms(2) pipe_new_out [OF assms(1)]])

lemma pipe_run_sent:
  assumes "live c" and "bc_writer c = writer_start (writer_new n src dst)" and "utf8 inp"
    and "pipe_run diag interactive close_on_stdin_eof inp (pipe_new c with_stdin) rest arr p"
  shows "in_inv n src dst inp rest p"
proof (rule pipe_run_in [OF assms(4) pipe_new_out [OF assms(1)]])
  show "in_inv n src dst inp (stdin_lines inp) (pipe_new c with_stdin)"
    using writer_run.start [of n src dst] assms(2) stdin_lines_concat [OF assms(3)]
    by (auto simp: in_inv_def pipe_new_def waiting_def)
qed

lemma in_inv_eof:
  assumes "in_inv n src dst inp rest p"
  obtains acc acks where "writer_run n src dst acc acks (bc_writer (pp_conn p))" "pp_total_sent p = length acc" "prefix acc inp"
    "pp_phase p = Finished StdinEof \<longrightarrow> acc = inp \<and> conn_flush_ready (pp_conn p)"
  using in_invE [OF assms] by (metis append_Nil2 concat.simps(1) insertCI)

text \<open>The pipe copies faithfully: in every run of the tool's loop over a fresh connection, on textual input, with the
  reader of standard input and the connection's tasks interleaved in any way: outside diagnostic mode, what was written to
  standard output followed by what can still be read from the connection is exactly what arrived, and when the loop ends because the peer
  closed, everything that arrived was written. What the connection accepted for sending is always a prefix of standard input, as long
  as the tool's total says, and when the loop ends at the end of the input it is all of it, flushed.\<close>

lemma pipe_copies:
  assumes "live c" and "bc_writer c = writer_start (writer_new n src dst)" and "utf8 inp"
    and "pipe_run diag interactive close_on_stdin_eof inp (pipe_new c with_stdin) rest arr p"
  shows "(if diag then pp_stdout p = [] else pp_stdout p @ conn_stream (pp_conn p) = conn_stream c @ arr) \<and>
    (pp_phase p = Finished PeerClosed \<longrightarrow> pp_total_recv p = length (conn_stream c @ arr) \<and>
       (\<not> diag \<longrightarrow> pp_stdout p = conn_stream c @ arr)) \<and>
    (\<exists>acc acks. writer_run n src dst acc acks (bc_writer (pp_conn p)) \<and> pp_total_sent p = length acc \<and> prefix acc inp \<and>
       (pp_phase p = Finished StdinEof \<longrightarrow> acc = inp \<and> conn_flush_ready (pp_conn p)))"
proof -
  from pipe_run_sent [OF assms] obtain acc acks where "writer_run n src dst acc acks (bc_writer (pp_conn p))"
      "pp_total_sent p = length acc" "prefix acc inp" "pp_phase p = Finished StdinEof \<longrightarrow> acc = inp \<and> conn_flush_ready (pp_conn p)"
    by (rule in_inv_eof)
  with pipe_run_printed [OF assms(1,4)] show ?thesis by (auto simp: out_inv_def)
qed

end
