(* ===== verification/Tool_Main.thy ===== *)
theory Tool_Main
  imports Tool_Pipe
begin

text \<open>
  The two modes of \<open>bluefintool/src/main.rs\<close> around the pipe: \<open>do_listen\<close> with its accept loop, \<open>do_connect\<close>, the exit code of
  \<open>main\<close>, and the lines of the diagnostic output. What the socket and the calls of \<open>accept\<close> and \<open>connect\<close> return, and when
  the interrupt arrives, are arguments. \<open>Ipv4Addr::from_str\<close> is that of the standard library.
\<close>

section \<open>Addresses\<close>

fun split_dots :: "string \<Rightarrow> string list" where
  "split_dots [] = [[]]"
| "split_dots (c # cs) = (if c = CHR ''.'' then [] # split_dots cs
     else case split_dots cs of [] \<Rightarrow> [[c]] | w # ws \<Rightarrow> (c # w) # ws)"

text \<open>One to three digits, no leading zero, at most 255.\<close>

definition parse_octet :: "string \<Rightarrow> u8 option" where
  "parse_octet s = (if s \<noteq> [] \<and> length s \<le> 3 \<and> digits s \<and> (hd s = CHR ''0'' \<longrightarrow> length s = 1) \<and> value_from 0 s \<le> 255
     then Some (of_int (value_from 0 s)) else None)"

definition parse_ipv4 :: "string \<Rightarrow> Bytes option" where
  "parse_ipv4 s = (case map parse_octet (split_dots s) of
      [Some a, Some b, Some c, Some d] \<Rightarrow> Some [a, b, c, d]
    | _ \<Rightarrow> None)"

definition print_ipv4 :: "u8 \<Rightarrow> u8 \<Rightarrow> u8 \<Rightarrow> u8 \<Rightarrow> string" where
  "print_ipv4 a b c d = decimal (unat a) @ ''.'' @ decimal (unat b) @ ''.'' @ decimal (unat c) @ ''.'' @ decimal (unat d)"

section \<open>Listening\<close>

datatype listen_event = Interrupt | Accept "BluefinConnection BluefinResult"

text \<open>The accept loop: the pipes it spawns, and its result once it has one. Only the first connection gets the input.\<close>

fun accept_loop :: "bool \<Rightarrow> listen_event list \<Rightarrow> Pipe list \<times> unit BluefinResult option" where
  "accept_loop is_first [] = ([], None)"
| "accept_loop is_first (Interrupt # evs) = ([], Some (Ok ()))"
| "accept_loop is_first (Accept (Ok c) # evs) =
     (case accept_loop False evs of (ps, r) \<Rightarrow> (pipe_new c is_first # ps, r))"
| "accept_loop is_first (Accept (Err e) # evs) = accept_loop is_first evs"
| "accept_loop is_first (Accept Panic # evs) = ([], Some Panic)"

definition diag_channel :: "DiagnosticEvent channel" where
  "diag_channel = \<lparr>chan_bound = Some 256, chan_open = True, chan_queue = []\<rparr>"

definition do_listen :: "bool \<Rightarrow> string \<Rightarrow> u16 \<Rightarrow> unit BluefinResult \<Rightarrow> listen_event list \<Rightarrow>
    (BluefinServer \<times> Pipe list \<times> unit BluefinResult option) program" where
  "do_listen diag bind_addr p sock evs = (case parse_ipv4 bind_addr of
      None \<Rightarrow> Exit 1
    | Some a \<Rightarrow>
        Run (case server_set_num_reader_workers 1 (server_new (SocketAddr a p)) of
           (sv, Ok _) \<Rightarrow>
             (case server_bind sock (if diag then server_set_diagnostics diag_channel sv else sv) of
                (sv', Ok _) \<Rightarrow> (sv', accept_loop True evs)
              | (sv', r) \<Rightarrow> (sv', [], Some r))
         | (sv, r) \<Rightarrow> (sv, [], Some r)))"

section \<open>Connecting\<close>

text \<open>The connection's pipe, which ends with the input.\<close>

definition do_connect :: "bool \<Rightarrow> string \<Rightarrow> u16 \<Rightarrow> u16 \<Rightarrow> (BluefinClient \<Rightarrow> SocketAddr \<Rightarrow> BluefinConnection BluefinResult) \<Rightarrow>
    Pipe BluefinResult program" where
  "do_connect diag host p source_port connect = (case parse_ipv4 host of
      None \<Rightarrow> Exit 1
    | Some a \<Rightarrow>
        Run (bind_res (client_new (SocketAddr [127, 0, 0, 1] source_port)) (\<lambda>client.
          bind_res (connect (if diag then client_set_diagnostics diag_channel client else client) (SocketAddr a p)) (\<lambda>c.
            Ok (pipe_new c True)))))"

text \<open>The exit code of \<open>main\<close>; without one it returns, and the process waits for the reader of standard input.\<close>

definition main_exit :: "unit BluefinResult \<Rightarrow> bool \<Rightarrow> nat option" where
  "main_exit result interrupted = (case result of
      Err _ \<Rightarrow> Some 1
    | Panic \<Rightarrow> Some 101
    | Ok _ \<Rightarrow> if interrupted then Some 0 else None)"

section \<open>Diagnostics\<close>

definition range_text :: "u64 \<Rightarrow> nat \<Rightarrow> string" where
  "range_text base n = ''0x'' @ hex (unat base) @ ''..+'' @ decimal n"

definition diag_text :: "DiagnosticEvent \<Rightarrow> string" where
  "diag_text ev = (case ev of
      AckReceived base n \<Rightarrow> ''ack-recv: peer acked pkts '' @ range_text base n
    | AckSent base n \<Rightarrow> ''ack-sent: we acked pkts '' @ range_text base n
    | DataSent start n bs \<Rightarrow> ''data-sent: pkts '' @ range_text start (unat n) @ '' ('' @ decimal bs @ '' bytes)''
    | DataReceived base n bs \<Rightarrow> ''data-recv: pkts '' @ range_text base n @ '' ('' @ decimal bs @ '' bytes)''
    | FinSent pn \<Rightarrow> ''fin-sent: pkt 0x'' @ hex (unat pn)
    | FinAckSent pn \<Rightarrow> ''fin-ack-sent: pkt 0x'' @ hex (unat pn)
    | FinReceived pn \<Rightarrow> ''fin-recv: pkt 0x'' @ hex (unat pn)
    | FinAckReceived pn \<Rightarrow> ''fin-ack-recv: pkt 0x'' @ hex (unat pn))"

text \<open>The closure \<open>drain_diag\<close>: every event in the channel, one line each.\<close>

definition drain_diag :: "bool \<Rightarrow> string \<Rightarrow> DiagnosticEvent channel option \<Rightarrow> string list \<times> DiagnosticEvent channel option" where
  "drain_diag diag peer_tag rx = (if \<not> diag then ([], rx)
     else case rx of
         None \<Rightarrow> ([], None)
       | Some ch \<Rightarrow> (map (\<lambda>ev. ''['' @ peer_tag @ ''] '' @ diag_text ev) (chan_queue ch), Some (ch\<lparr>chan_queue := []\<rparr>)))"

definition dump_connection_info :: "BluefinConnection \<Rightarrow> string \<Rightarrow> string \<Rightarrow> string option \<Rightarrow> string list" where
  "dump_connection_info c role local_addr remote_addr =
     [''  local_addr  = '' @ local_addr] @
     (case remote_addr of Some remote \<Rightarrow> [''  remote_addr = '' @ remote] | None \<Rightarrow> []) @
     [''  src_conn_id = 0x'' @ fmt_hex 8 (unat (bc_src_conn_id c)), ''  dst_conn_id = 0x'' @ fmt_hex 8 (unat (bc_dst_conn_id c)),
      ''  role        = '' @ role, ''  version     = 0x'' @ hex (unat (bc_version c)),
      ''  encrypted   = '' @ (if header_encrypted (bc_security_fields c) then ''true'' else ''false''),
      ''  mask        = 0x'' @ fmt_hex 2 (unat (header_protection_mask (bc_security_fields c)))]"

section \<open>Lemmas\<close>

lemma split_dots_nonempty: "split_dots s \<noteq> []"
  by (cases s) (auto split: list.splits)

lemma split_dots_word: "CHR ''.'' \<notin> set w \<Longrightarrow> split_dots w = [w]"
  by (induction w) auto

lemma split_dots_append: "CHR ''.'' \<notin> set w \<Longrightarrow> split_dots (w @ CHR ''.'' # r) = w # split_dots r"
  by (induction w) auto

lemma digits_no_dot: "digits s \<Longrightarrow> CHR ''.'' \<notin> set s"
  by (induction s) (auto simp: digits_def digit_val_def Let_def)

lemma decimal_small: "n < 1000 \<Longrightarrow> length (decimal n) \<le> 3"
proof -
  have one: "length (decimal m) \<le> 1" if "m < 10" for m using that by (simp add: decimal.simps [of m])
  have two: "length (decimal m) \<le> 2" if "m < 100" for m
    using that one [of "m div 10"] by (auto simp: decimal.simps [of m] less_mult_imp_div_less)
  show ?thesis if "n < 1000" using that two [of "n div 10"] by (auto simp: decimal.simps [of n] less_mult_imp_div_less)
qed

lemma decimal_leading: "hd (decimal n) = CHR ''0'' \<Longrightarrow> n = 0"
proof (induction n rule: decimal.induct)
  case (1 n)
  show ?case
  proof (cases "n < 10")
    case True
    have "digit_val (digit_char n) = Some (int n)" using digit_val_digit_char [of n] True by simp
    moreover have "digit_val CHR ''0'' = Some 0" by (simp add: digit_val_def)
    ultimately show ?thesis using "1.prems" True by (simp add: decimal.simps [of n])
  next
    case False
    then have "hd (decimal (n div 10)) = CHR ''0''" using "1.prems" decimal_digits(3) [of "n div 10"] by (simp add: decimal.simps [of n])
    with "1.IH" [OF False] False show ?thesis by simp
  qed
qed

lemma parse_octet_decimal: "parse_octet (decimal (unat (a :: u8))) = Some a"
proof -
  have "unat a < 256" using unsigned_less [of a, where 'a = nat] by simp
  moreover have "uint a < 256" using unsigned_less [of a, where 'a = int] by simp
  ultimately show ?thesis
    using decimal_digits [of "unat a"] decimal_small [of "unat a"] decimal_leading [of "unat a"]
    by (auto simp: parse_octet_def decimal.simps [of 0])
qed

text \<open>Every printed address parses to itself.\<close>

lemma parse_print_ipv4: "parse_ipv4 (print_ipv4 a b c d) = Some [a, b, c, d]"
  using decimal_digits(1) [THEN digits_no_dot]
  by (simp add: parse_ipv4_def print_ipv4_def split_dots_append split_dots_word parse_octet_decimal)

text \<open>The connections accepted before the loop ends.\<close>

fun accepted :: "listen_event list \<Rightarrow> BluefinConnection list" where
  "accepted (Accept (Ok c) # evs) = c # accepted evs"
| "accepted (Accept (Err e) # evs) = accepted evs"
| "accepted _ = []"

lemma accept_loop_later: "fst (accept_loop False evs) = map (\<lambda>c. pipe_new c False) (accepted evs)"
  by (induction evs rule: accepted.induct) (auto split: prod.splits)

lemma accept_loop_first:
  "fst (accept_loop True evs) = (case accepted evs of [] \<Rightarrow> [] | c # cs \<Rightarrow> pipe_new c True # map (\<lambda>c. pipe_new c False) cs)"
  by (induction evs rule: accepted.induct) (auto simp: accept_loop_later [symmetric] split: prod.splits)

lemma tool_bad_address: "parse_ipv4 s = None \<Longrightarrow> do_listen diag s p sock evs = Exit 1 \<and> do_connect diag s p sp connect = Exit 1"
  by (simp add: do_listen_def do_connect_def)

section \<open>Properties\<close>

text \<open>Listening and connecting: on a printed IPv4 address the listener, once bound, spawns one pipe for each connection it accepts
  until the interrupt, in order, and the first of them alone reads standard input; the connecting side turns the connection it gets
  into a pipe that does.\<close>

lemma tool_modes:
  "(\<exists>sv. do_listen diag (print_ipv4 a b c d) p (Ok ()) evs = Run (sv, accept_loop True evs) \<and> sv_socket sv \<and>
      sv_src_addr sv = SocketAddr [a, b, c, d] p) \<and>
   fst (accept_loop True evs) = (case accepted evs of [] \<Rightarrow> [] | c # cs \<Rightarrow> pipe_new c True # map (\<lambda>c. pipe_new c False) cs) \<and>
   do_connect diag (print_ipv4 a b c d) p sp (\<lambda>cl dst. if dst = SocketAddr [a, b, c, d] p then Ok conn else Panic) = Run (Ok (pipe_new conn True))"
  by (simp add: do_listen_def do_connect_def parse_print_ipv4 accept_loop_first server_bind_def server_set_num_reader_workers_def
      server_new_def server_set_diagnostics_def client_new_def handshake_new_def)

end
