(* ===== verification/Spec2Isabelle.thy ===== *)
theory Spec2Isabelle
  imports Ring_Buffer Workers Batch_Io Bench Tool_Main
begin

text \<open>
  Verification of Bluefin, a connection-oriented byte-stream protocol over UDP. Paths are relative to \<open>src/\<close>.

  \<^bold>\<open>The program.\<close> A host (\<open>bluefin/src/net/server.rs\<close>, \<open>client.rs\<close>) owns a UDP socket, a registry of connections and receive
  workers. \<open>accept()\<close> and \<open>connect()\<close> perform a three-message handshake (client hello, server hello, client ack) and build a
  \<open>BluefinConnection\<close> on a socket of its own. Its send side accepts payloads into a bounded channel; one task packs them
  into numbered packets and datagrams, another puts these on the wire, a third sends acknowledgements. Its receive side
  parses datagrams, buffers data packets in a circular reassembly buffer, acknowledgements in a sliding window and FINs in a
  close buffer, and wakes whoever waits; \<open>recv\<close> reads the stream and acknowledges; \<open>close\<close> sends a FIN up to three times and
  waits for its FIN-ACK. The crate \<open>bluefin-io\<close> is a socket of its own; \<open>bluefintool\<close> is a netcat over the library;
  \<open>bluefin/src/bin\<close> holds two benchmark programs.

  \<^bold>\<open>Theories, bottom up.\<close>
  \<^item> \<open>Prelude\<close>: machine types (\<open>u8\<close> to \<open>u64\<close> are words, \<open>usize\<close> is \<open>nat\<close>), slices, big-endian conversions.
  \<^item> \<open>Proto\<close> (crate \<open>bluefin-proto\<close>): hosts, errors, results (a panic is a third outcome), the handshake state machine.
  \<^item> \<open>Header\<close>, \<open>Packet\<close> (\<open>bluefin/src/core\<close>): both codecs, the builder, the two datagram parsers.
  \<^item> \<open>Ring_Buffer\<close>, \<open>Sliding_Window\<close> (\<open>bluefin/src/utils\<close>): the containers, index panics included.
  \<^item> \<open>Net\<close> (\<open>net/mod.rs\<close>): constants, bounded channels, diagnostics, hello state, hello tests, the contract of a buffer with a waker.
  \<^item> \<open>Ordered_Bytes\<close>, \<open>Ack_Handler\<close>, \<open>Close_Handler\<close>, \<open>Connection_Buffer\<close> (\<open>net\<close>): the buffers, one record each, one function
    per method, with the futures that poll them.
  \<^item> \<open>Packetiser\<close>, \<open>Writer\<close> (\<open>worker/writer.rs\<close>): the pure packing functions; the handle and its three tasks as one record whose
    steps end at the awaits, with \<open>writer_run\<close> for every interleaving.
  \<^item> \<open>Conn_Reader\<close> (\<open>worker/conn_reader.rs\<close>): dispatch of parsed packets, the pipeline of receive tasks and the in-line loop.
  \<^item> \<open>Reader_Rx\<close>, \<open>Reader_Tx\<close> (\<open>worker/reader.rs\<close>): the application's reads; the host-wide receive worker.
  \<^item> \<open>Connection\<close>, \<open>Handshake\<close> (\<open>net/connection.rs\<close>, \<open>server.rs\<close>, \<open>client.rs\<close>): the connection with \<open>close\<close>; hosts, \<open>accept()\<close> and
    \<open>connect()\<close> as the steps between their awaits. \<open>Workers\<close>: the helpers that start workers.
  \<^item> \<open>Tasks\<close>: the steps of the tasks behind a connection, for programs whose loops run beside them.
  \<^item> \<open>Std_Text\<close>: the text functions of the standard library. \<open>Settings\<close>: environment variables and arguments.
  \<^item> \<open>Socket_Io\<close> (crate \<open>bluefin-io\<close> and \<open>utils/mod.rs\<close>), \<open>Batch_Io\<close> (\<open>utils/macos_io.rs\<close>): socket set-up as a sequence of calls, sending
    and receiving, message headers with pointers that name the frame they point into, ancillary data.
  \<^item> \<open>Tool_Args\<close>, \<open>Tool_Pipe\<close>, \<open>Tool_Main\<close> (\<open>bluefintool/src/main.rs\<close>): the command line and hex dumps; the loop of \<open>run_pipe\<close> and the
    reader of standard input; the two modes, diagnostics and the exit code.
  \<^item> \<open>Bench\<close> (\<open>bin/server.rs\<close>, \<open>bin/client.rs\<close>): the loops of the benchmark programs.
  \<^item> This theory: the path from one application to the other.

  \<^bold>\<open>State and effects.\<close> A struct is a record with the fields of the source, shared buffers included: the model has one copy of
  each, and every step that locks, changes and unlocks it is one function. An async function is cut at its awaits into
  functions on a state with a program point; a run relation interleaves them with the other tasks in every order. Random
  draws, answers of system calls, parse inputs, wakers, timers and the environment are arguments. An error is \<open>Err\<close>, a panic
  is \<open>Panic\<close>, a pending future is \<open>None\<close>; a process exit is \<open>Exit\<close>.

  \<^bold>\<open>Interfaces.\<close> \<open>serialisable\<close> and \<open>fixed_width\<close> (codecs; interpreted for security fields, headers, packets), \<open>bounded_deque\<close> (the
  ring buffer), \<open>packet_window\<close> (the sliding window), \<open>wakeable\<close> (a parked consumer is found by the next producer; interpreted
  for all four waiting futures), \<open>byte_source\<close> (reads in pieces give the stream; interpreted for the reassembly buffer and
  for \<open>recv\<close>), \<open>packetiser\<close> (repeated packing covers the queue; interpreted for both packing functions).

  \<^bold>\<open>What is shown.\<close>
  \<^item> Codecs: header and packet encodings are bijections onto their valid forms, all failures and panics are known, the
    parser accepts exactly concatenations of frames, and the hot-path parser equals the simple one.
  \<^item> Buffers: packets in any order and reads of any size give the stream; each refusal has its error; type invariants hold
    in every execution; window insertion equals its slow path and consumption takes the maximal run.
  \<^item> Sending: in every interleaving, wire, queues and channel together hold the accepted bytes, packed in order into
    consecutively numbered packets, and every accepted acknowledgement once.
  \<^item> Receiving: datagrams are conserved by the pipeline, the in-line loop equals it, reads return the stream, acknowledge
    what they consumed, and a parked reader is woken; a datagram touches only the connection it names.
  \<^item> Handshake and close: both ends agree on ids and numbers; a server queues at most 64 hellos; \<open>close\<close> ends after at most
    three FINs, and in success when a FIN-ACK comes; the FIN exchange works end to end.
  \<^item> Whole paths: what was sent is what is received (\<open>end_to_end_stream\<close>), and what one side of \<open>bluefintool\<close> reads is what the
    other prints (\<open>tool_moves_text\<close>). Both are bounded by the 2000 slots of the reassembly buffer: the protocol has no
    flow control, so packets beyond them may be refused.
  \<^item> Programs: the command line selects the mode it means, every setting is usable, the benchmark counters are exact and
    the benchmark client sends its script.
  \<^item> Executions that go wrong, as theorems: \<open>flush\<close> can hang, a FIN can reuse a data packet's number, a queued hello costs the first
    data packet, early data poisons a stream, mixed FIN datagrams and hollow packets panic, a control buffer dangles, a
    receive loses its wake-up, the idle timer ignores traffic.

  \<^bold>\<open>Bounds.\<close> No function uses fuel. Loops of the source are structural recursions, recursions with a proved measure (the
  parsers, the packetisers, \<open>stdin_lines\<close>), or one step per iteration of a run relation. A system call that is repeated
  after an interruption consumes a finite list of answers; when the list ends, the call has not returned.

  \<^bold>\<open>Not modelled.\<close>
  \<^item> The floating-point throughput figures and their printing (\<open>print_throughput\<close>, \<open>fmt_throughput_mb\<close>, the FINAL line), the usage
    text and the banner: output only, nothing depends on it. The counters behind the figures are modelled.
  \<^item> The calls into the macOS kernel in \<open>utils/cpu_affinity.rs\<close>: their result is ignored by the code, and the module is not
    part of the build.
  \<^item> Memory layout, reference counts and allocation of \<open>Bytes\<close> and \<open>Vec\<close>; memory order of atomics (each access is one step);
    poisoned mutexes. The schedulers of tokio and the kernel are the choice of the next step.
  \<^item> Trait, macro and module declarations (\<open>core/mod.rs\<close>, \<open>utils/common.rs\<close>, \<open>lib.rs\<close>), \<open>build.rs\<close>, the empty \<open>batch_send.rs\<close> and \<open>main.rs\<close>,
    tests, benchmark scripts and documents.
\<close>

section \<open>From the sender's wire to the receiver's stream\<close>

fun datagram :: "SentDatagram \<Rightarrow> Bytes" where
  "datagram (DataDatagram d) = d"
| "datagram (AckDatagram d) = d"
| "datagram (ControlDatagram d) = d"

lemma mset_parsed: "mset rs = mset rs' \<Longrightarrow> mset (parsed rs) = mset (parsed rs')"
  by (simp add: parsed_def map_filter_def)

lemma parsed_Cons: "parsed (r # rs) = (case parses r of Some ps \<Rightarrow> ps # parsed rs | None \<Rightarrow> parsed rs)"
  by (simp add: parsed_def map_filter_def split: option.split)

lemma mset_concat_cong: "mset xss = mset yss \<Longrightarrow> mset (concat xss) = mset (concat yss)"
  by (metis mset_concat mset_map sum_mset_sum_list)

lemma holds_only_parses:
  assumes "holds_only T d" and "T = {Ack} \<or> T = {Fin, FinAck}"
  shows "\<exists>g. parses (Ok d) = Some g \<and> signal_group g"
proof -
  obtain g where "from_bytes d = Ok g" "\<forall>p \<in> set g. type_field (header p) \<in> T" using assms(1) by (auto simp: holds_only_def)
  moreover from this(1) have "g \<noteq> []" by (simp add: from_bytes_iff)
  ultimately show ?thesis using assms(2) by (auto simp: parses_def signal_group_def)
qed

lemma parsed_sent:
  assumes "list_all signal_ok xs" and "concat (map (\<lambda>s. case s of DataDatagram d \<Rightarrow> [d] | _ \<Rightarrow> []) xs) = map frames gs"
    and "\<And>g. g \<in> set gs \<Longrightarrow> from_bytes (frames g) = Ok g \<and> data_group g"
  shows "filter data_group (parsed (map (\<lambda>x. Ok (datagram x)) xs)) = gs \<and>
    (\<forall>g \<in> set (parsed (map (\<lambda>x. Ok (datagram x)) xs)). data_group g \<or> signal_group g)"
  using assms
proof (induction xs arbitrary: gs)
  case Nil
  then show ?case by (simp add: parsed_def map_filter_def)
next
  case (Cons x xs)
  show ?case
  proof (cases x)
    case (DataDatagram d)
    then obtain g hs where g: "gs = g # hs" "d = frames g" using Cons.prems(2) by (cases gs) auto
    have "parses (Ok d) = Some g" "data_group g" using Cons.prems(3) g by (simp_all add: parses_def)
    with Cons.IH [of hs] Cons.prems g DataDatagram show ?thesis by (simp add: parsed_Cons)
  next
    case (AckDatagram d)
    then obtain g where g: "parses (Ok d) = Some g" "signal_group g"
      using Cons.prems(1) holds_only_parses [of "{Ack}" d] by (auto simp: signal_ok_def)
    with Cons.IH [of gs] Cons.prems AckDatagram data_not_signal [of g] show ?thesis by (auto simp: parsed_Cons)
  next
    case (ControlDatagram d)
    then obtain g where g: "parses (Ok d) = Some g" "signal_group g"
      using Cons.prems(1) holds_only_parses [of "{Fin, FinAck}" d] by (auto simp: signal_ok_def)
    with Cons.IH [of gs] Cons.prems ControlDatagram data_not_signal [of g] show ?thesis by (auto simp: parsed_Cons)
  qed
qed

text \<open>Whatever the writer put on the wire until \<open>flush\<close> returned, in any order: once the receive pipeline has drained,
  the reassembled stream is what the sender accepted.\<close>

lemma pipeline_delivers:
  assumes w: "writer_run n src dst acc acks w" and fl: "flush_ready w"
    and few: "unat (pump_packet_num w - n) \<le> MAX_BUFFER_SIZE" and num: "unat n + MAX_BUFFER_SIZE \<le> 2 ^ 64" and len: "length acc < 2 ^ 64"
    and rs: "mset rs = mset (map (\<lambda>x. Ok (datagram x)) (sent w))"
    and r: "conn_reader_run k b rs ds s" and drained: "chan_queue (rx_chan s) = []" "holding s = []"
    and b: "ordered_bytes (mb_conn b) = ordered_bytes_new i n"
  shows "stream (ordered_bytes (mb_conn (conn_bufs s))) = acc \<and> ob_wf (ordered_bytes (mb_conn (conn_bufs s))) \<and>
    cb_addr (mb_conn (conn_bufs s)) = cb_addr (mb_conn b) \<and>
    start_packet_number_set (mb_conn (conn_bufs s)) = start_packet_number_set (mb_conn b)"
proof -
  let ?h = "data_header src dst security_default"
  obtain css where css: "data_datagrams w = map frames (numbered ?h n css)" "concat (concat css) = acc"
      "pump_packet_num w = n + of_nat (length (concat css))"
      "\<And>cs c. cs \<in> set css \<Longrightarrow> cs \<noteq> [] \<and> (c \<in> set cs \<longrightarrow> c \<noteq> [] \<and> length c \<le> 1500)"
    by (rule writer_run_flushed [OF w fl]) blast
  let ?gs = "numbered ?h n css" and ?P = "parsed (map (\<lambda>x. Ok (datagram x)) (sent w))"
  have "from_bytes (frames g) = Ok g \<and> data_group g" if g: "g \<in> set ?gs" for g
  proof -
    obtain cs m where cs: "cs \<in> set css" "g = data_packets ?h m cs" using numbered_member [OF g] by blast
    with css(4) have "from_bytes (frames g) = Ok g" by (auto intro: from_bytes_data_packets)
    moreover have "data_group g" using cs css(4) data_packets_type [of _ ?h m cs]
      by (auto simp: data_group_def data_header_def header_new_def)
    ultimately show ?thesis ..
  qed
  moreover have "list_all signal_ok (sent w)" using writer_run_signal [OF w] by (simp add: signal_inv_def)
  ultimately have P: "filter data_group ?P = ?gs" "\<forall>g \<in> set ?P. data_group g \<or> signal_group g"
    using parsed_sent [of "sent w" ?gs] css(1) by (simp_all add: data_datagrams_def)
  have m: "mset (parsed rs) = mset ?P" by (rule mset_parsed [OF rs])
  have wf: "ob_wf (ordered_bytes (mb_conn b))" by (simp add: b ordered_bytes_new_wf)
  have groups: "data_group g \<or> signal_group g" if "g \<in> set (parsed rs)" for g
    using P(2) that mset_eq_setD [OF m] by blast
  have inv: "rx_alive s" "conn_bufs s = deliver ds b" "mset ds = mset (parsed rs)"
    using groups_keep_alive [OF r groups wf] conn_reader_run_inv [OF r] drained by (auto simp: pipeline_inv_def)
  have d: "mb_conn (conn_bufs s) = (mb_conn b)\<lparr>ordered_bytes := buffer_all (concat (filter data_group ds)) (ordered_bytes_new i n)\<rparr>"
    unfolding inv(2) using deliver_groups [OF _ wf, of ds] groups mset_eq_setD [OF inv(3)] b by simp
  have "mset (filter data_group ds) = mset ?gs" using inv(3) m P(1) by (metis mset_filter)
  then have perm: "mset (concat (filter data_group ds)) = mset (data_packets ?h n (concat css))"
    using mset_concat_cong concat_numbered by metis
  have "length (concat css) \<le> length acc"
    using css(2,4) length_concat_nonempty [of "concat css"] by force
  then have small: "length (concat css) \<le> MAX_BUFFER_SIZE"
    using few css(3) len by (simp add: unat_u64_of_nat)
  have "contiguous (buffer_all (concat (filter data_group ds)) (ordered_bytes_new i n)) = data_packets ?h n (concat css)"
  proof (rule buffer_all_consecutive [OF _ _ _ _ perm])
    fix j assume j: "j < length (data_packets ?h n (concat css))"
    then have "unat n + j < 2 ^ 64" using small num by simp
    with j show "unat (pnum (data_packets ?h n (concat css) ! j)) = unat (smallest_packet_number (ordered_bytes_new i n)) + j"
      by (simp add: data_packets_nth data_packet_def pnum_def ordered_bytes_new_def unat_word_ariths unat_u64_of_nat)
  qed (use small in \<open>simp_all add: ordered_bytes_new_wf\<close>)
  moreover have "ob_wf (buffer_all qs (ordered_bytes_new i n))" "carry_over_bytes (buffer_all qs (ordered_bytes_new i n)) = None" for qs
    using buffer_all_frame [OF ordered_bytes_new_wf(1), of qs i n] by (simp_all add: ordered_bytes_new_def)
  ultimately show ?thesis using css(2) by (simp add: d stream_def carried_def)
qed

lemma delivered:
  assumes ag: "agreed (sid, spn) (cid, cpn) (cpn + 2) sc cc" and "unat cpn + 2002 \<le> 2 ^ 64"
    and "writer_run (cpn + 2) cid sid acc acks w" and "flush_ready w"
    and "unat (pump_packet_num w - (cpn + 2)) \<le> 2000" and "length acc < 2 ^ 64"
    and "mset rs = mset (map (\<lambda>x. Ok (datagram x)) (sent w))"
    and "conn_reader_run k (rx_bufs (bc_rx sc)) rs ds s" and "chan_queue (rx_chan s) = []" and "holding s = []"
  shows "conn_stream (set_bufs (conn_bufs s) sc) = acc" and "live (set_bufs (conn_bufs s) sc)"
proof -
  have b: "ordered_bytes (mb_conn (rx_bufs (bc_rx sc))) = ordered_bytes_new sid (cpn + 2)"
    "cb_addr (mb_conn (rx_bufs (bc_rx sc))) \<noteq> None" "start_packet_number_set (mb_conn (rx_bufs (bc_rx sc)))"
    using ag by (simp_all add: agreed_def)
  have n: "unat (cpn + 2) + 2000 \<le> 2 ^ 64" using assms(2) by (simp add: unat_word_ariths)
  show "conn_stream (set_bufs (conn_bufs s) sc) = acc" "live (set_bufs (conn_bufs s) sc)"
    using pipeline_delivers [OF assms(3,4) _ _ assms(6-10) b(1)] assms(5,6) n b(2,3)
    by (simp_all add: MAX_BUFFER_SIZE_def conn_stream_def conn_source_def conn_wf_def live_def)
qed

text \<open>One datagram of data through the pipeline of a new connection.\<close>

lemma one_datagram_run:
  assumes "agreed (sid, spn) (cid, cpn) n sc cc"
  shows "\<exists>s. conn_reader_run 1 (rx_bufs (bc_rx sc)) [Ok (frames (data_packets (data_header cid sid security_default) n [[b]]))]
      [data_packets (data_header cid sid security_default) n [[b]]] s \<and> chan_queue (rx_chan s) = [] \<and> holding s = []"
proof -
  let ?g = "data_packets (data_header cid sid security_default) n [[b]]"
  have "parses (Ok (frames ?g)) = Some ?g"
    using from_bytes_data_packets [of "[[b]]" cid sid n] by (simp add: parses_def)
  moreover have "snd (buffer_in_packets ?g (rx_bufs (bc_rx sc))) \<noteq> Panic"
    using assms by (intro buffer_data_group)
      (simp_all add: agreed_def ordered_bytes_new_wf data_group_def data_packet_def data_header_def header_new_def)
  ultimately show ?thesis using single_datagram_run by fastforce
qed





end
